(* ===== verification/Shell_Prelude.thy ===== *)
theory Shell_Prelude
  imports Main "HOL-Library.Word" "HOL-Library.DAList" "HOL-Library.FSet" "HOL-Library.Multiset"
begin

text \<open>
  The vocabulary shared by the theories of the development: Rust's machine integers and their
  saturating and checked arithmetic, Rust's \<open>HashMap\<close> and \<open>HashSet\<close>, byte strings,
  and generic facts on runs of state machines and on weighted quorums.

  \<^item> An unsigned integer \<open>uN\<close> is an \<open>N word\<close>; \<open>usize\<close> values, which only count
    in-memory objects, are \<^typ>\<open>nat\<close>; an \<open>i64\<close> is an \<^typ>\<open>int\<close> with the saturation
    at the bounds of the type written out.
  \<^item> A \<open>HashMap\<close> is an association list with distinct keys, the type \<open>alist\<close> of
    \<open>HOL-Library.DAList\<close>. The order of the list stands for the iteration order, which Rust
    leaves unspecified: every theorem holds for each of them.
  \<^item> A \<open>HashSet\<close> is a finite set.
\<close>

named_theorems nat_of_word \<open>rules that read word arithmetic as arithmetic on natural numbers\<close>
named_theorems bind_simps \<open>success of a sequence of fallible steps\<close>
named_theorems hm_simps \<open>rules that compute with hash maps\<close>

section \<open>Machine integers\<close>

type_synonym u8 = "8 word"
type_synonym u32 = "32 word"
type_synonym u64 = "64 word"
type_synonym u128 = "128 word"
type_synonym u256 = "256 word"
type_synonym usize = nat
type_synonym i64 = int

abbreviation u_max :: "'a::len word" where
  "u_max \<equiv> - 1"

definition sat_add :: "'a::len word \<Rightarrow> 'a word \<Rightarrow> 'a word" where
  "sat_add a b = (if a \<le> u_max - b then a + b else u_max)"

definition sat_sub :: "'a::len word \<Rightarrow> 'a word \<Rightarrow> 'a word" where
  "sat_sub a b = (if b \<le> a then a - b else 0)"

definition sat_mul :: "'a::len word \<Rightarrow> 'a word \<Rightarrow> 'a word" where
  "sat_mul a b = (if uint a * uint b < 2 ^ LENGTH('a) then a * b else u_max)"

definition checked_add :: "'a::len word \<Rightarrow> 'a word \<Rightarrow> 'a word option" where
  "checked_add a b = (if a \<le> u_max - b then Some (a + b) else None)"

definition clamp :: "'a::linorder \<Rightarrow> 'a \<Rightarrow> 'a \<Rightarrow> 'a" where
  "clamp x lo hi = (if x < lo then lo else if hi < x then hi else x)"

text \<open>Rust's \<open>div_ceil\<close>: the quotient, plus one when the division leaves a remainder.\<close>

definition div_ceil :: "'a::len word \<Rightarrow> 'a word \<Rightarrow> 'a word" where
  "div_ceil a b = (if a mod b = 0 then a div b else a div b + 1)"

text \<open>\<open>u64::try_from(x).unwrap_or(u64::MAX)\<close> on a \<open>u128\<close>.\<close>

definition u64_of_u128_or_max :: "u128 \<Rightarrow> u64" where
  "u64_of_u128_or_max x = (if x \<le> ucast (u_max :: u64) then ucast x else u_max)"

definition i64_max :: i64 where
  "i64_max = 2 ^ 63 - 1"

definition i64_min :: i64 where
  "i64_min = - (2 ^ 63)"

definition i64_sat :: "int \<Rightarrow> i64" where
  "i64_sat x = max i64_min (min i64_max x)"

definition i64_sat_add :: "i64 \<Rightarrow> i64 \<Rightarrow> i64" where
  "i64_sat_add a b = i64_sat (a + b)"

definition i64_sat_mul :: "i64 \<Rightarrow> i64 \<Rightarrow> i64" where
  "i64_sat_mul a b = i64_sat (a * b)"

text \<open>\<open>iter.fold(0, saturating_add)\<close> and \<open>iter.try_fold(0, checked_add)\<close>.\<close>

definition sat_sum :: "'a::len word list \<Rightarrow> 'a word" where
  "sat_sum ws = foldl sat_add 0 ws"

fun checked_sum_from :: "'a::len word \<Rightarrow> 'a word list \<Rightarrow> 'a word option" where
  "checked_sum_from acc [] = Some acc"
| "checked_sum_from acc (w # ws) =
     (case checked_add acc w of None \<Rightarrow> None | Some acc' \<Rightarrow> checked_sum_from acc' ws)"

text \<open>\<open>usize\<close> on a 64-bit target, with its saturating and its checked addition.\<close>

definition usize_bound :: nat where
  "usize_bound = 2 ^ 64"

definition usize_sat_add :: "usize \<Rightarrow> usize \<Rightarrow> usize" where
  "usize_sat_add a b = min (a + b) (usize_bound - 1)"

definition usize_checked_add :: "usize \<Rightarrow> usize \<Rightarrow> usize option" where
  "usize_checked_add a b = (if a + b < usize_bound then Some (a + b) else None)"

section \<open>Fallible steps\<close>

text \<open>Rust's \<open>?\<close> on a \<open>Result\<close>, after \<open>map_err\<close> or as it is.\<close>

definition bind_map :: "('d \<Rightarrow> 'e) \<Rightarrow> 'd + 'a \<Rightarrow> ('a \<Rightarrow> 'e + 'b) \<Rightarrow> 'e + 'b" where
  "bind_map f r K = (case r of Inl e \<Rightarrow> Inl (f e) | Inr x \<Rightarrow> K x)"

definition bind_ok :: "'e + 'a \<Rightarrow> ('a \<Rightarrow> 'e + 'b) \<Rightarrow> 'e + 'b" where
  "bind_ok r K = (case r of Inl e \<Rightarrow> Inl e | Inr x \<Rightarrow> K x)"

lemma bind_map_Inr [bind_simps]: "bind_map f r K = Inr y \<longleftrightarrow> (\<exists>x. r = Inr x \<and> K x = Inr y)"
  by (cases r) (simp_all add: bind_map_def)

lemma bind_ok_Inr [bind_simps]: "bind_ok r K = Inr y \<longleftrightarrow> (\<exists>x. r = Inr x \<and> K x = Inr y)"
  by (cases r) (simp_all add: bind_ok_def)

lemma if_Inl_Inr [bind_simps]: "(if b then Inl e else r) = Inr y \<longleftrightarrow> \<not> b \<and> r = Inr y"
  by simp

lemma if_Inr_Inl [bind_simps]: "(if b then r else Inl e) = Inr y \<longleftrightarrow> b \<and> r = Inr y"
  by simp

section \<open>Hash maps\<close>

type_synonym ('k, 'v) hashmap = "('k, 'v) alist"

definition hm_new :: "('k, 'v) hashmap" where
  "hm_new = DAList.empty"

definition hm_get :: "('k, 'v) hashmap \<Rightarrow> 'k \<Rightarrow> 'v option" where
  "hm_get m k = DAList.lookup m k"

definition hm_insert :: "('k, 'v) hashmap \<Rightarrow> 'k \<Rightarrow> 'v \<Rightarrow> ('k, 'v) hashmap" where
  "hm_insert m k v = DAList.update k v m"

definition hm_remove :: "('k, 'v) hashmap \<Rightarrow> 'k \<Rightarrow> ('k, 'v) hashmap" where
  "hm_remove m k = DAList.delete k m"

definition hm_contains :: "('k, 'v) hashmap \<Rightarrow> 'k \<Rightarrow> bool" where
  "hm_contains m k = (hm_get m k \<noteq> None)"

text \<open>\<open>get(k).copied().unwrap_or(d)\<close>.\<close>

definition hm_get_or :: "('k, 'v) hashmap \<Rightarrow> 'k \<Rightarrow> 'v \<Rightarrow> 'v" where
  "hm_get_or m k d = (case hm_get m k of None \<Rightarrow> d | Some v \<Rightarrow> v)"

definition hm_entries :: "('k, 'v) hashmap \<Rightarrow> ('k \<times> 'v) list" where
  "hm_entries m = DAList.impl_of m"

definition hm_keys :: "('k, 'v) hashmap \<Rightarrow> 'k list" where
  "hm_keys m = map fst (hm_entries m)"

definition hm_values :: "('k, 'v) hashmap \<Rightarrow> 'v list" where
  "hm_values m = map snd (hm_entries m)"

definition hm_len :: "('k, 'v) hashmap \<Rightarrow> usize" where
  "hm_len m = length (hm_entries m)"

definition hm_retain :: "('k \<Rightarrow> 'v \<Rightarrow> bool) \<Rightarrow> ('k, 'v) hashmap \<Rightarrow> ('k, 'v) hashmap" where
  "hm_retain P m = DAList.filter (\<lambda>(k, v). P k v) m"

text \<open>\<open>for (k, v) in m.iter_mut()\<close> where each value is replaced by a function of its entry.\<close>

lift_definition hm_map :: "('k \<Rightarrow> 'v \<Rightarrow> 'w) \<Rightarrow> ('k, 'v) hashmap \<Rightarrow> ('k, 'w) hashmap"
  is "\<lambda>f. map (\<lambda>(k, v). (k, f k v))"
  by (simp add: case_prod_unfold comp_def)

text \<open>\<open>entries.into_iter().collect::<HashMap<_, _>>()\<close>: the last entry of a key wins.\<close>

definition hm_from_list :: "('k \<times> 'v) list \<Rightarrow> ('k, 'v) hashmap" where
  "hm_from_list kvs = foldl (\<lambda>m (k, v). hm_insert m k v) hm_new kvs"

section \<open>Facts on machine integers\<close>

lemma unat_bound: "unat (x :: 'a::len word) < 2 ^ LENGTH('a)"
  by simp

lemma unat_u_max: "unat (u_max :: 'a::len word) = 2 ^ LENGTH('a) - 1"
  by transfer (simp add: mask_eq_exp_minus_1 nat_diff_distrib nat_power_eq)

lemma unat_u_max_minus: "unat (u_max - b :: 'a::len word) = 2 ^ LENGTH('a) - 1 - unat b"
  by (simp add: unat_sub unat_u_max)

lemma word_sum_fits:
  fixes a b :: "'a::len word"
  shows "a \<le> u_max - b \<longleftrightarrow> unat a + unat b < 2 ^ LENGTH('a)"
  by (simp add: word_le_nat_alt unat_u_max_minus) (use unat_bound [of b] in linarith)

lemma unat_sat_add [nat_of_word]:
  fixes a b :: "'a::len word"
  shows "unat (sat_add a b) = min (unat a + unat b) (2 ^ LENGTH('a) - 1)"
  by (auto simp: sat_add_def word_sum_fits unat_u_max unat_word_ariths min_def)

lemma unat_sat_sub [nat_of_word]: "unat (sat_sub a b) = unat a - unat b"
  by (auto simp: sat_sub_def unat_sub word_le_nat_alt)

lemma unat_mult_fits: "unat a * unat b < 2 ^ LENGTH('a) \<Longrightarrow> unat (a * b) = unat a * unat b"
  for a b :: "'a::len word"
  by (simp add: unat_word_ariths)

lemma unat_sat_mul [nat_of_word]:
  fixes a b :: "'a::len word"
  shows "unat (sat_mul a b) = min (unat a * unat b) (2 ^ LENGTH('a) - 1)"
proof -
  have "uint a * uint b = int (unat a * unat b)" and "2 ^ LENGTH('a) = int (2 ^ LENGTH('a))"
    by simp_all
  then have "uint a * uint b < 2 ^ LENGTH('a) \<longleftrightarrow> unat a * unat b < 2 ^ LENGTH('a)"
    by (simp only: of_nat_less_iff)
  moreover have "unat a * unat b \<le> 2 ^ LENGTH('a) - 1 \<longleftrightarrow> unat a * unat b < 2 ^ LENGTH('a)"
    by (simp add: less_Suc_eq_le [symmetric] del: mult_le_cancel1)
  ultimately show ?thesis
    using unat_mult_fits [of a b]
    by (simp only: sat_mul_def unat_u_max min_def split: if_split) blast
qed

lemma checked_add_Some_iff:
  "checked_add a b = Some c \<longleftrightarrow> unat a + unat b < 2 ^ LENGTH('a) \<and> c = a + b"
  for a b :: "'a::len word"
  by (auto simp: checked_add_def word_sum_fits)

lemma checked_add_None_iff:
  "checked_add a b = None \<longleftrightarrow> 2 ^ LENGTH('a) \<le> unat a + unat b"
  for a b :: "'a::len word"
  by (auto simp: checked_add_def word_sum_fits)

lemma unat_plus_fits: "unat a + unat b < 2 ^ LENGTH('a) \<Longrightarrow> unat (a + b) = unat a + unat b"
  for a b :: "'a::len word"
  by (simp add: unat_word_ariths)

lemma unat_u64_less [simp]: "unat (x :: u64) < 18446744073709551616"
  using unat_bound [of x] by simp

lemma sat_add_commute: "sat_add a b = sat_add b a"
  by (rule word_unat_eq_iff [THEN iffD2]) (simp add: unat_sat_add add.commute)

lemma sat_add_assoc: "sat_add (sat_add a b) c = sat_add a (sat_add b c)"
  by (rule word_unat_eq_iff [THEN iffD2]) (simp add: unat_sat_add)

lemma sat_add_zero [simp]: "sat_add a 0 = a" "sat_add 0 a = a"
  by (simp_all add: sat_add_def)

lemma sat_add_mono: "a \<le> sat_add a b"
  by (simp add: word_le_nat_alt unat_sat_add) (use unat_bound [of a] in linarith)

lemma sat_sub_le: "sat_sub a b \<le> a"
  by (simp add: word_le_nat_alt unat_sat_sub)

lemma sat_sub_zero [simp]: "sat_sub a 0 = a"
  by (simp add: sat_sub_def)

lemma unat_sat_sum_from:
  "unat (foldl sat_add acc ws) = min (unat acc + sum_list (map unat ws)) (2 ^ LENGTH('a) - 1)"
  for acc :: "'a::len word"
proof (induction ws arbitrary: acc)
  case Nil
  then show ?case by (simp add: min_def) (use unat_bound [of acc] in linarith)
next
  case (Cons w ws)
  then show ?case by (simp add: unat_sat_add)
qed

lemma unat_sat_sum [nat_of_word]:
  "unat (sat_sum ws) = min (sum_list (map unat ws)) (2 ^ LENGTH('a) - 1)"
  for ws :: "'a::len word list"
  by (simp add: sat_sum_def unat_sat_sum_from)

lemma checked_sum_from_Some_iff:
  "checked_sum_from acc ws = Some t \<longleftrightarrow>
     unat acc + sum_list (map unat ws) < 2 ^ LENGTH('a) \<and>
     unat t = unat acc + sum_list (map unat ws)"
  for acc :: "'a::len word"
proof (induction ws arbitrary: acc)
  case Nil
  show ?case using unat_bound [of acc] by (auto simp: word_unat_eq_iff)
next
  case (Cons w ws)
  then show ?case
    by (auto simp: checked_add_None_iff checked_add_Some_iff unat_plus_fits split: option.split)
qed

lemma checked_sum_from_fits:
  "unat acc + sum_list (map unat ws) < 2 ^ LENGTH('a) \<Longrightarrow>
     \<exists>t. checked_sum_from acc ws = Some t"
  for acc :: "'a::len word"
  using checked_sum_from_Some_iff [of acc ws "of_nat (unat acc + sum_list (map unat ws))"]
  by (auto simp: unat_of_nat simp del: of_nat_add)

lemma clamp_bounds: "lo \<le> hi \<Longrightarrow> lo \<le> clamp x lo hi \<and> clamp x lo hi \<le> hi"
  by (auto simp: clamp_def)

lemma clamp_id: "lo \<le> x \<Longrightarrow> x \<le> hi \<Longrightarrow> clamp x lo hi = x"
  by (auto simp: clamp_def)

lemma unat_div_ceil:
  fixes a b :: "'a::len word"
  assumes "1 < unat b"
  shows "unat (div_ceil a b) = (unat a + unat b - 1) div unat b"
proof -
  let ?a = "unat a" and ?b = "unat b"
  have split: "?a = ?b * (?a div ?b) + ?a mod ?b" by simp
  show ?thesis
  proof (cases "?a mod ?b = 0")
    case True
    then have "a mod b = 0" by (simp add: unat_mod flip: unat_0_iff)
    moreover have "(?a + ?b - 1) div ?b = ?a div ?b"
    proof -
      have "?a + ?b - 1 = ?b * (?a div ?b) + (?b - 1)" using split True assms by linarith
      moreover have "(?b * (?a div ?b) + (?b - 1)) div ?b = ?a div ?b"
        using assms by (subst div_mult_self4) simp_all
      ultimately show ?thesis by presburger
    qed
    ultimately show ?thesis by (simp add: div_ceil_def unat_div)
  next
    case False
    then have nz: "a mod b \<noteq> 0" by (metis unat_0 unat_mod)
    have lt: "?a div ?b < ?a" using False assms by (metis div_less_dividend gr0I mod_0)
    then have "?a div ?b + 1 < 2 ^ LENGTH('a)" using unat_bound [of a] by linarith
    then have "unat (a div b + 1) = ?a div ?b + 1"
      by (simp add: unat_word_ariths unat_div)
    moreover have "(?a + ?b - 1) div ?b = ?a div ?b + 1"
    proof -
      have "?a mod ?b < ?b" using assms by simp
      then have "?a + ?b - 1 = ?b * (?a div ?b + 1) + (?a mod ?b - 1)"
        using split False by (simp only: distrib_left mult_1_right)
      moreover have "?a mod ?b - 1 < ?b" using \<open>?a mod ?b < ?b\<close> by linarith
      moreover have "(?b * (?a div ?b + 1) + (?a mod ?b - 1)) div ?b = ?a div ?b + 1"
        using assms \<open>?a mod ?b - 1 < ?b\<close> by (subst div_mult_self4) simp_all
      ultimately show ?thesis by presburger
    qed
    ultimately show ?thesis using nz by (simp add: div_ceil_def)
  qed
qed

lemma unat_ucast_u128 [simp]: "unat (ucast (x :: u64) :: u128) = unat x"
  by (simp add: unsigned_ucast_eq take_bit_nat_eq_self_iff) (use unat_u64_less [of x] in linarith)

lemma unat_u64_of_u128_or_max [nat_of_word]:
  "unat (u64_of_u128_or_max x) = min (unat x) (2 ^ 64 - 1)"
proof -
  have "x \<le> ucast (u_max :: u64) \<longleftrightarrow> unat x \<le> 2 ^ 64 - 1"
    by (simp add: word_le_nat_alt unat_u_max)
  then show ?thesis
    by (auto simp: u64_of_u128_or_max_def unat_u_max unsigned_ucast_eq min_def take_bit_eq_mod)
qed

lemma i64_sat_bounds: "i64_min \<le> i64_sat x \<and> i64_sat x \<le> i64_max"
  by (simp add: i64_sat_def i64_min_def i64_max_def)

lemma i64_sat_id: "i64_min \<le> x \<Longrightarrow> x \<le> i64_max \<Longrightarrow> i64_sat x = x"
  by (simp add: i64_sat_def)

section \<open>Facts on hash maps\<close>

lemma hm_get_new [simp, hm_simps]: "hm_get hm_new k = None"
  by (simp add: hm_get_def hm_new_def)

lemma hm_get_insert [simp, hm_simps]: "hm_get (hm_insert m k v) k' = (if k' = k then Some v else hm_get m k')"
  by (auto simp: hm_get_def hm_insert_def lookup_update)

lemma hm_insert_same: "hm_get m k = Some v \<Longrightarrow> hm_insert m k v = m"
  unfolding hm_get_def hm_insert_def by transfer (rule update_triv)

lemma hm_get_remove [simp, hm_simps]: "hm_get (hm_remove m k) k' = (if k' = k then None else hm_get m k')"
  by (simp add: hm_get_def hm_remove_def)

lemma hm_get_entries: "hm_get m k = map_of (hm_entries m) k"
  by (simp add: hm_get_def hm_entries_def DAList.lookup.rep_eq)

lemma distinct_hm_keys [simp, intro]: "distinct (hm_keys m)"
  by (simp add: hm_keys_def hm_entries_def)

lemma distinct_fst_hm_entries [simp, intro]: "distinct (map fst (hm_entries m))"
  by (simp add: hm_entries_def)

lemma hm_entries_retain: "hm_entries (hm_retain P m) = filter (\<lambda>(k, v). P k v) (hm_entries m)"
  by (simp add: hm_entries_def hm_retain_def DAList.filter.rep_eq)

lemma hm_entries_map: "hm_entries (hm_map f m) = map (\<lambda>(k, v). (k, f k v)) (hm_entries m)"
  by (simp add: hm_entries_def hm_map.rep_eq)

lemma hm_entries_new [simp, hm_simps]: "hm_entries hm_new = []"
  by (simp add: hm_entries_def hm_new_def DAList.empty.rep_eq)

lemma hm_entries_insert [hm_simps]: "hm_entries (hm_insert m k v) = AList.update k v (hm_entries m)"
  by (simp add: hm_entries_def hm_insert_def DAList.update.rep_eq)

lemma hm_entries_remove [hm_simps]: "hm_entries (hm_remove m k) = AList.delete k (hm_entries m)"
  by (simp add: hm_entries_def hm_remove_def DAList.delete.rep_eq)

lemma map_of_filter_distinct:
  "distinct (map fst xs) \<Longrightarrow>
     map_of (filter (\<lambda>(k, v). P k v) xs) k =
       (case map_of xs k of None \<Rightarrow> None | Some v \<Rightarrow> if P k v then Some v else None)"
  by (induction xs) (auto simp: map_of_eq_None_iff split: option.splits)

lemma hm_get_retain [simp, hm_simps]:
  "hm_get (hm_retain P m) k =
     (case hm_get m k of None \<Rightarrow> None | Some v \<Rightarrow> if P k v then Some v else None)"
  by (simp add: hm_get_entries hm_entries_retain map_of_filter_distinct)

lemma hm_get_map [simp, hm_simps]: "hm_get (hm_map f m) k = map_option (f k) (hm_get m k)"
proof -
  have "map_of (map (\<lambda>(k, v). (k, f k v)) xs) k = map_option (f k) (map_of xs k)" for xs
    by (induction xs) auto
  then show ?thesis by (simp add: hm_get_entries hm_entries_map)
qed

lemma hm_keys_map [simp]: "hm_keys (hm_map f m) = hm_keys m"
  by (simp add: hm_keys_def hm_entries_map case_prod_unfold comp_def)

lemma hm_in_entries: "(k, v) \<in> set (hm_entries m) \<longleftrightarrow> hm_get m k = Some v"
  by (simp add: hm_get_entries)

lemma set_hm_keys: "set (hm_keys m) = dom (hm_get m)"
  by (simp add: hm_keys_def hm_get_entries [abs_def] dom_map_of_conv_image_fst)

lemma hm_keys_iff: "k \<in> set (hm_keys m) \<longleftrightarrow> hm_get m k \<noteq> None"
  by (simp add: set_hm_keys domIff)

lemma finite_hm_dom [simp]: "finite (dom (hm_get m))"
  by (metis List.finite_set set_hm_keys)

lemma set_hm_values: "set (hm_values m) = {v. \<exists>k. hm_get m k = Some v}"
  by (force simp: hm_values_def hm_in_entries [symmetric])

lemma hm_len_keys: "hm_len m = length (hm_keys m)"
  by (simp add: hm_len_def hm_keys_def)

lemma hm_len_card: "hm_len m = card (dom (hm_get m))"
  by (metis distinct_card distinct_hm_keys hm_len_keys set_hm_keys)

lemma hm_len_new [simp]: "hm_len hm_new = 0"
  by (simp add: hm_len_def)

lemma hm_len_insert: "hm_len (hm_insert m k v) = (if hm_get m k = None then Suc (hm_len m) else hm_len m)"
proof -
  have "dom (hm_get (hm_insert m k v)) = insert k (dom (hm_get m))"
    by (auto simp: domIff)
  then show ?thesis by (simp add: hm_len_card card_insert_if domIff)
qed

lemma hm_len_remove_le: "hm_len (hm_remove m k) \<le> hm_len m"
  unfolding hm_len_card by (rule card_mono) (auto simp: domIff split: if_splits)

lemma hm_len_retain_le: "hm_len (hm_retain P m) \<le> hm_len m"
  by (simp add: hm_len_def hm_entries_retain)

lemma hm_len_map [simp]: "hm_len (hm_map f m) = hm_len m"
  by (simp add: hm_len_def hm_entries_map)

lemma hm_values_map: "hm_values (hm_map f m) = map (\<lambda>(k, v). f k v) (hm_entries m)"
  by (simp add: hm_values_def hm_entries_map case_prod_unfold)

lemma hm_contains_simps [simp]:
  "\<not> hm_contains hm_new k"
  "hm_contains (hm_insert m k v) k' \<longleftrightarrow> k' = k \<or> hm_contains m k'"
  "hm_contains (hm_remove m k) k' \<longleftrightarrow> k' \<noteq> k \<and> hm_contains m k'"
  by (auto simp: hm_contains_def)

lemma hm_get_or_new [simp]: "hm_get_or hm_new k d = d"
  by (simp add: hm_get_or_def)

lemma hm_get_or_insert [simp]: "hm_get_or (hm_insert m k v) k' d = (if k' = k then v else hm_get_or m k' d)"
  by (simp add: hm_get_or_def)

lemma hm_get_foldl_insert:
  "hm_get (foldl (\<lambda>m (k, v). hm_insert m k v) m kvs) k =
     (case map_of (rev kvs) k of None \<Rightarrow> hm_get m k | Some v \<Rightarrow> Some v)"
proof (induction kvs arbitrary: m)
  case Nil
  show ?case by simp
next
  case (Cons kv kvs)
  then show ?case
    by (cases kv) (auto simp: map_add_def split: option.splits)
qed

lemma hm_get_from_list: "hm_get (hm_from_list kvs) k = map_of (rev kvs) k"
  by (simp add: hm_from_list_def hm_get_foldl_insert split: option.split)

lemma map_of_rev_distinct: "distinct (map fst xs) \<Longrightarrow> map_of (rev xs) = map_of xs"
  by (metis distinct_map distinct_rev map_of_inject_set rev_map set_rev)

lemma hm_get_from_list_distinct:
  "distinct (map fst kvs) \<Longrightarrow> hm_get (hm_from_list kvs) k = map_of kvs k"
  by (simp add: hm_get_from_list map_of_rev_distinct)

text \<open>Sums over the values of a map, as sums over its domain.\<close>

lemma sum_hm_values:
  "sum_list (map f (hm_values m)) = (\<Sum>k\<in>set (hm_keys m). f (the (hm_get m k)))"
  for f :: "'v \<Rightarrow> nat"
proof -
  have "map f (hm_values m) = map (\<lambda>k. f (the (hm_get m k))) (hm_keys m)"
    unfolding hm_values_def hm_keys_def map_map comp_def
    by (rule map_cong) (auto dest!: hm_in_entries [THEN iffD1])
  then show ?thesis by (simp add: sum_list_distinct_conv_sum_set)
qed

section \<open>Runs of a state machine\<close>

text \<open>
  The contract of a component whose operations are the events of a state machine: each of them
  keeps the invariant. A run is the fold of the step function over the events.
\<close>

locale invariant_machine =
  fixes step :: "'s \<Rightarrow> 'e \<Rightarrow> 's"
    and inv :: "'s \<Rightarrow> bool"
  assumes inv_step: "inv s \<Longrightarrow> inv (step s e)"
begin

lemma inv_run: "inv s \<Longrightarrow> inv (foldl step s es)"
  by (induction es arbitrary: s) (auto intro: inv_step)

end

text \<open>A machine one of whose observables never moves back along a preorder.\<close>

locale progress_machine = invariant_machine step inv
  for step :: "'s \<Rightarrow> 'e \<Rightarrow> 's" and inv :: "'s \<Rightarrow> bool" +
  fixes before :: "'s \<Rightarrow> 's \<Rightarrow> bool"
  assumes before_refl: "before s s"
    and before_trans: "before s t \<Longrightarrow> before t u \<Longrightarrow> before s u"
    and before_step: "inv s \<Longrightarrow> before s (step s e)"
begin

lemma before_run: "inv s \<Longrightarrow> before s (foldl step s es)"
proof (induction es arbitrary: s)
  case Nil
  show ?case by (simp add: before_refl)
next
  case (Cons e es)
  from Cons.prems have "before s (step s e)" by (rule before_step)
  moreover from Cons.prems have "before (step s e) (foldl step (step s e) es)"
    by (intro Cons.IH inv_step)
  ultimately show ?case by (simp add: before_trans)
qed

lemma before_later: "inv s \<Longrightarrow> before (foldl step s es) (foldl step s (es @ fs))"
  by (simp add: before_run inv_run)

end

end
