(* ===== verification/Primitives.thy ===== *)
theory Primitives
  imports Shell_Prelude "HOL-Library.List_Lexorder"
begin

text \<open>
  The foundational types of \<open>crates/primitives\<close>: \<open>ShellHash\<close> and \<open>Address\<close>, both
  32 bytes wide, their byte views, and the 20-byte view of an address at the revm boundary.
  A \<open>[u8; 32]\<close> is a \<open>256 word\<close> read big-endian; \<open>hash_order_is_byte_order\<close> shows
  that the order of the words is the byte-wise order the code compares with.
  The hash functions BLAKE3 and Keccak-256 come from third-party crates: they are arguments of
  the definitions that use them.
\<close>

section \<open>Byte strings\<close>

primrec le_bytes :: "nat \<Rightarrow> 'a::len word \<Rightarrow> u8 list" where
  "le_bytes 0 x = []"
| "le_bytes (Suc n) x = ucast x # le_bytes n (drop_bit 8 x)"

definition be_bytes :: "nat \<Rightarrow> 'a::len word \<Rightarrow> u8 list" where
  "be_bytes n x = rev (le_bytes n x)"

primrec le_nat :: "u8 list \<Rightarrow> nat" where
  "le_nat [] = 0"
| "le_nat (b # bs) = unat b + 256 * le_nat bs"

definition be_nat :: "u8 list \<Rightarrow> nat" where
  "be_nat bs = le_nat (rev bs)"

text \<open>The bytes of an ASCII string, as in the literal \<open>b"..."\<close>.\<close>

definition ascii :: "string \<Rightarrow> u8 list" where
  "ascii s = map of_char s"

lemma length_ascii [simp]: "length (ascii s) = length s"
  by (simp add: ascii_def)

section \<open>Hashes and addresses\<close>

datatype shell_hash = ShellHash (hash_bits: "256 word")

datatype address = Address (addr_bits: "256 word")

datatype primitives_error = InvalidSliceLength nat nat

abbreviation (input) hash_zero :: shell_hash where
  "hash_zero \<equiv> ShellHash 0"

definition hash_as_bytes :: "shell_hash \<Rightarrow> u8 list" where
  "hash_as_bytes h = be_bytes 32 (hash_bits h)"

definition hash_try_from_slice :: "u8 list \<Rightarrow> primitives_error + shell_hash" where
  "hash_try_from_slice bs =
     (if length bs \<noteq> 32 then Inl (InvalidSliceLength 32 (length bs))
      else Inr (ShellHash (of_nat (be_nat bs))))"

abbreviation (input) address_zero :: address where
  "address_zero \<equiv> Address 0"

definition address_as_bytes :: "address \<Rightarrow> u8 list" where
  "address_as_bytes a = be_bytes 32 (addr_bits a)"

definition address_try_from_slice :: "u8 list \<Rightarrow> primitives_error + address" where
  "address_try_from_slice bs =
     (if length bs \<noteq> 32 then Inl (InvalidSliceLength 32 (length bs))
      else Inr (Address (of_nat (be_nat bs))))"

definition from_public_key :: "(u8 list \<Rightarrow> shell_hash) \<Rightarrow> u8 list \<Rightarrow> u8 \<Rightarrow> address" where
  "from_public_key blake3 pubkey algo_id = Address (hash_bits (blake3 (algo_id # pubkey)))"

text \<open>\<open>MAX_VALIDATOR_WEIGHT\<close> and the gas constants of \<open>gas_constants.rs\<close>.\<close>

abbreviation (input) MAX_VALIDATOR_WEIGHT :: u64 where
  "MAX_VALIDATOR_WEIGHT \<equiv> 1000000"

abbreviation (input) INTRINSIC_GAS_TX :: u64 where
  "INTRINSIC_GAS_TX \<equiv> 21000"

abbreviation (input) GAS_CONTRACT_CREATION :: u64 where
  "GAS_CONTRACT_CREATION \<equiv> 32000"

abbreviation (input) GAS_PER_ZERO_BYTE :: u64 where
  "GAS_PER_ZERO_BYTE \<equiv> 4"

abbreviation (input) GAS_PER_NONZERO_BYTE :: u64 where
  "GAS_PER_NONZERO_BYTE \<equiv> 16"

abbreviation (input) ACCESS_LIST_ADDRESS_COST :: u64 where
  "ACCESS_LIST_ADDRESS_COST \<equiv> 2400"

abbreviation (input) ACCESS_LIST_STORAGE_KEY_COST :: u64 where
  "ACCESS_LIST_STORAGE_KEY_COST \<equiv> 1900"

section \<open>Orders\<close>

instantiation shell_hash :: linorder
begin

definition less_eq_shell_hash :: "shell_hash \<Rightarrow> shell_hash \<Rightarrow> bool" where
  "less_eq_shell_hash a b = (hash_bits a \<le> hash_bits b)"

definition less_shell_hash :: "shell_hash \<Rightarrow> shell_hash \<Rightarrow> bool" where
  "less_shell_hash a b = (hash_bits a < hash_bits b)"

instance
  by standard (auto simp: less_eq_shell_hash_def less_shell_hash_def shell_hash.expand)

end

instantiation address :: linorder
begin

definition less_eq_address :: "address \<Rightarrow> address \<Rightarrow> bool" where
  "less_eq_address a b = (addr_bits a \<le> addr_bits b)"

definition less_address :: "address \<Rightarrow> address \<Rightarrow> bool" where
  "less_address a b = (addr_bits a < addr_bits b)"

instance
  by standard (auto simp: less_eq_address_def less_address_def address.expand)

end

section \<open>Facts on byte strings\<close>

lemma length_le_bytes [simp]: "length (le_bytes n x) = n"
  by (induction n arbitrary: x) auto

lemma length_be_bytes [simp]: "length (be_bytes n x) = n"
  by (simp add: be_bytes_def)

lemma length_hash_as_bytes [simp]: "length (hash_as_bytes h) = 32"
  by (simp add: hash_as_bytes_def)

lemma length_address_as_bytes [simp]: "length (address_as_bytes a) = 32"
  by (simp add: address_as_bytes_def)

lemma le_nat_le_bytes: "le_nat (le_bytes n x) = unat x mod 256 ^ n"
proof (induction n arbitrary: x)
  case 0
  show ?case by simp
next
  case (Suc n)
  have "unat (ucast x :: u8) = unat x mod 256"
    by (simp add: unsigned_ucast_eq take_bit_eq_mod)
  moreover have "unat (drop_bit 8 x) = unat x div 256"
    by (simp add: unsigned_drop_bit_eq) (simp add: drop_bit_eq_div take_bit_nat_eq_self)
  ultimately show ?case
    using Suc by (simp add: mod_mult2_eq)
qed

lemma be_nat_be_bytes:
  fixes x :: "'a::len word"
  assumes "LENGTH('a) \<le> 8 * n"
  shows "be_nat (be_bytes n x) = unat x"
proof -
  have "unat x < 2 ^ LENGTH('a)" by (rule unat_bound)
  also have "(2 :: nat) ^ LENGTH('a) \<le> 2 ^ (8 * n)" using assms by (intro power_increasing) auto
  also have "(2 :: nat) ^ (8 * n) = 256 ^ n" by (simp add: power_mult)
  finally have "unat x < 256 ^ n" .
  then show ?thesis by (simp add: be_nat_def be_bytes_def le_nat_le_bytes)
qed

lemma le_bytes_inject:
  fixes x y :: "'a::len word"
  assumes "LENGTH('a) \<le> 8 * n"
  shows "le_bytes n x = le_bytes n y \<longleftrightarrow> x = y"
  using be_nat_be_bytes [OF assms, of x] be_nat_be_bytes [OF assms, of y]
  by (metis be_bytes_def rev_rev_ident word_unat_eq_iff)

lemma be_bytes_inject:
  fixes x y :: "'a::len word"
  assumes "LENGTH('a) \<le> 8 * n"
  shows "be_bytes n x = be_bytes n y \<longleftrightarrow> x = y"
  by (simp add: be_bytes_def le_bytes_inject [OF assms])

lemma le_bytes_u64_inject [simp]: "le_bytes 8 x = le_bytes 8 y \<longleftrightarrow> x = y" for x y :: u64
  by (rule le_bytes_inject) simp

lemma be_bytes_u64_inject [simp]: "be_bytes 8 x = be_bytes 8 y \<longleftrightarrow> x = y" for x y :: u64
  by (rule be_bytes_inject) simp

lemma hash_as_bytes_inject [simp]: "hash_as_bytes g = hash_as_bytes h \<longleftrightarrow> g = h"
  by (auto simp: hash_as_bytes_def be_bytes_inject shell_hash.expand)

lemma address_as_bytes_inject [simp]: "address_as_bytes a = address_as_bytes b \<longleftrightarrow> a = b"
  by (auto simp: address_as_bytes_def be_bytes_inject address.expand)

lemma le_nat_bound: "le_nat bs < 256 ^ length bs"
proof (induction bs)
  case Nil
  show ?case by simp
next
  case (Cons b bs)
  have "unat b < 256" using unat_bound [of b] by simp
  then show ?case using Cons by simp
qed

lemma le_nat_append: "le_nat (xs @ ys) = le_nat xs + 256 ^ length xs * le_nat ys"
  by (induction xs) (auto simp: algebra_simps)

lemma be_nat_Cons: "be_nat (b # bs) = unat b * 256 ^ length bs + be_nat bs"
  by (simp add: be_nat_def le_nat_append)

lemma be_nat_bound: "be_nat bs < 256 ^ length bs"
  using le_nat_bound [of "rev bs"] by (simp add: be_nat_def)

text \<open>On byte strings of one length, the value read big-endian follows the byte-wise order.\<close>

lemma be_nat_less_iff: "length xs = length ys \<Longrightarrow> be_nat xs < be_nat ys \<longleftrightarrow> xs < ys"
proof (induction xs ys rule: list_induct2)
  case Nil
  show ?case by simp
next
  case (Cons x xs y ys)
  let ?k = "256 ^ length ys :: nat"
  have bx: "be_nat xs < ?k" and b_y: "be_nat ys < ?k"
    using be_nat_bound [of xs] be_nat_bound [of ys] Cons.hyps by simp_all
  consider "unat x < unat y" | "x = y" | "unat y < unat x"
    by (metis linorder_cases word_unat_eq_iff)
  then show ?case
  proof cases
    case 1
    then have "(unat x + 1) * ?k \<le> unat y * ?k" by (intro mult_le_mono1) simp
    then show ?thesis using 1 bx Cons by (simp add: be_nat_Cons word_less_nat_alt)
  next
    case 2
    then show ?thesis using Cons by (simp add: be_nat_Cons)
  next
    case 3
    then have "(unat y + 1) * ?k \<le> unat x * ?k" by (intro mult_le_mono1) simp
    then show ?thesis using 3 b_y Cons by (auto simp: be_nat_Cons word_less_nat_alt)
  qed
qed

lemma hash_order_is_byte_order: "g < h \<longleftrightarrow> hash_as_bytes g < hash_as_bytes h"
proof -
  have "be_nat (hash_as_bytes x) = unat (hash_bits x)" for x
    by (simp add: hash_as_bytes_def be_nat_be_bytes)
  then show ?thesis
    by (simp add: less_shell_hash_def word_less_nat_alt flip: be_nat_less_iff)
qed

lemma address_order_is_byte_order: "a < b \<longleftrightarrow> address_as_bytes a < address_as_bytes b"
proof -
  have "be_nat (address_as_bytes x) = unat (addr_bits x)" for x
    by (simp add: address_as_bytes_def be_nat_be_bytes)
  then show ?thesis
    by (simp add: less_address_def word_less_nat_alt flip: be_nat_less_iff)
qed

lemma hash_try_from_slice_as_bytes: "hash_try_from_slice (hash_as_bytes h) = Inr h"
  by (simp add: hash_try_from_slice_def) (simp add: hash_as_bytes_def be_nat_be_bytes)

lemma address_try_from_slice_as_bytes: "address_try_from_slice (address_as_bytes a) = Inr a"
  by (simp add: address_try_from_slice_def) (simp add: address_as_bytes_def be_nat_be_bytes)

lemma unat_MAX_VALIDATOR_WEIGHT [simp]: "unat MAX_VALIDATOR_WEIGHT = 1000000"
  by simp

end
