(* ===== verification/Crypto.thy ===== *)
theory Crypto
  imports Primitives
begin

text \<open>
  Post-quantum signatures of \<open>crates/crypto\<close>: the signature container (\<open>signature.rs\<close>),
  the three verifiers and their dispatch (\<open>dilithium.rs\<close>, \<open>mldsa.rs\<close>, \<open>sphincs.rs\<close>,
  \<open>multi.rs\<close>), batch verification (\<open>batch.rs\<close>) and the algorithm registry with its
  branch-local overrides (\<open>algorithm_registry.rs\<close>).
  The lattice and hash-based primitives are third-party crates: a \<open>pq_backend\<close> holds the
  functions the verifiers call.
\<close>

section \<open>Signatures\<close>

datatype signature_type = Dilithium3 | MlDsa65 | SphincsSha2256f

definition ALLOWED_ALGORITHMS :: "signature_type list" where
  "ALLOWED_ALGORITHMS = [Dilithium3, MlDsa65, SphincsSha2256f]"

abbreviation (input) MAX_SIGNATURE_BYTES :: usize where
  "MAX_SIGNATURE_BYTES \<equiv> 51200"

abbreviation (input) MAX_ML_DSA_65_SIG_BYTES :: usize where
  "MAX_ML_DSA_65_SIG_BYTES \<equiv> 4096"

fun sig_type_as_u8 :: "signature_type \<Rightarrow> u8" where
  "sig_type_as_u8 Dilithium3 = 0"
| "sig_type_as_u8 MlDsa65 = 1"
| "sig_type_as_u8 SphincsSha2256f = 2"

definition sig_type_from_u8 :: "u8 \<Rightarrow> signature_type option" where
  "sig_type_from_u8 v =
     (if v = 0 then Some Dilithium3
      else if v = 1 then Some MlDsa65
      else if v = 2 then Some SphincsSha2256f
      else None)"

record pq_signature =
  sig_type :: signature_type
  sig_data :: "u8 list"

definition pq_signature_new :: "signature_type \<Rightarrow> u8 list \<Rightarrow> pq_signature" where
  "pq_signature_new t d = \<lparr>sig_type = t, sig_data = d\<rparr>"

definition sig_is_empty :: "pq_signature \<Rightarrow> bool" where
  "sig_is_empty s = (sig_data s = [])"

text \<open>\<open>validate_size\<close>; the error value stands for the formatted message.\<close>

datatype size_error = SignatureTooLarge usize usize

definition validate_size :: "pq_signature \<Rightarrow> size_error + unit" where
  "validate_size s =
     (let limit = (case sig_type s of
          Dilithium3 \<Rightarrow> MAX_ML_DSA_65_SIG_BYTES
        | MlDsa65 \<Rightarrow> MAX_ML_DSA_65_SIG_BYTES
        | SphincsSha2256f \<Rightarrow> MAX_SIGNATURE_BYTES)
      in if limit < length (sig_data s) then Inl (SignatureTooLarge (length (sig_data s)) limit)
         else Inr ())"

datatype crypto_error =
    VerificationFailed
  | InvalidPublicKeyLength usize usize
  | InvalidSignatureLength usize usize
  | InvalidSecretKeyLength usize usize
  | SigningFailed string
  | KeyGenerationFailed string
  | UnsupportedSignatureType signature_type
  | BatchVerificationFailed usize usize
  | InvalidInput string

section \<open>Verifiers\<close>

text \<open>A \<open>Verifier\<close> is its \<open>verify\<close> function, on a public key, a message and a signature.\<close>

type_synonym verifier = "u8 list \<Rightarrow> u8 list \<Rightarrow> pq_signature \<Rightarrow> crypto_error + bool"

type_synonym signer = "u8 list \<Rightarrow> crypto_error + pq_signature"

record pq_backend =
  dilithium_legacy :: "u8 list \<Rightarrow> u8 list \<Rightarrow> u8 list \<Rightarrow> bool"
  ml_dsa_key_parses :: "u8 list \<Rightarrow> bool"
  ml_dsa_check :: "u8 list \<Rightarrow> u8 list \<Rightarrow> u8 list \<Rightarrow> bool"
  sphincs_pk_len :: usize
  sphincs_sig_len :: usize
  sphincs_key_parses :: "u8 list \<Rightarrow> bool"
  sphincs_check :: "u8 list \<Rightarrow> u8 list \<Rightarrow> u8 list \<Rightarrow> bool"

abbreviation (input) ML_DSA_65_PK_LEN :: usize where
  "ML_DSA_65_PK_LEN \<equiv> 1952"

abbreviation (input) ML_DSA_65_SIG_LEN :: usize where
  "ML_DSA_65_SIG_LEN \<equiv> 3309"

definition verify_ml_dsa_compat :: "pq_backend \<Rightarrow> u8 list \<Rightarrow> u8 list \<Rightarrow> u8 list \<Rightarrow> bool" where
  "verify_ml_dsa_compat be pubkey msg sig =
     (if length pubkey \<noteq> 1952 then False
      else if length sig \<noteq> 3309 then False
      else if \<not> ml_dsa_key_parses be pubkey then False
      else ml_dsa_check be pubkey msg sig)"

definition dilithium_verify :: "pq_backend \<Rightarrow> verifier" where
  "dilithium_verify be pubkey msg s =
     (if sig_type s \<noteq> Dilithium3 then Inl (UnsupportedSignatureType (sig_type s))
      else if length pubkey \<noteq> 1952 then Inl (InvalidPublicKeyLength 1952 (length pubkey))
      else if length (sig_data s) \<noteq> 3309 then
        Inl (InvalidSignatureLength 3309 (length (sig_data s)))
      else Inr (dilithium_legacy be pubkey msg (sig_data s)
                \<or> verify_ml_dsa_compat be pubkey msg (sig_data s)))"

definition ml_dsa_verify :: "pq_backend \<Rightarrow> verifier" where
  "ml_dsa_verify be pubkey msg s =
     (if sig_type s \<noteq> MlDsa65 then Inl (UnsupportedSignatureType (sig_type s))
      else if length pubkey \<noteq> ML_DSA_65_PK_LEN then
        Inl (InvalidPublicKeyLength ML_DSA_65_PK_LEN (length pubkey))
      else if length (sig_data s) \<noteq> ML_DSA_65_SIG_LEN then
        Inl (InvalidSignatureLength ML_DSA_65_SIG_LEN (length (sig_data s)))
      else if \<not> ml_dsa_key_parses be pubkey then Inr False
      else Inr (ml_dsa_check be pubkey msg (sig_data s)))"

definition sphincs_verify :: "pq_backend \<Rightarrow> verifier" where
  "sphincs_verify be pubkey msg s =
     (if sig_type s \<noteq> SphincsSha2256f then Inl (UnsupportedSignatureType (sig_type s))
      else if length pubkey \<noteq> sphincs_pk_len be then
        Inl (InvalidPublicKeyLength (sphincs_pk_len be) (length pubkey))
      else if \<not> sphincs_key_parses be pubkey then
        Inl (InvalidPublicKeyLength (sphincs_pk_len be) (length pubkey))
      else if length (sig_data s) \<noteq> sphincs_sig_len be then
        Inl (InvalidSignatureLength (sphincs_sig_len be) (length (sig_data s)))
      else Inr (sphincs_check be pubkey msg (sig_data s)))"

definition multi_verify :: "pq_backend \<Rightarrow> verifier" where
  "multi_verify be pubkey msg s =
     (case sig_type s of
        Dilithium3 \<Rightarrow> dilithium_verify be pubkey msg s
      | MlDsa65 \<Rightarrow> ml_dsa_verify be pubkey msg s
      | SphincsSha2256f \<Rightarrow> sphincs_verify be pubkey msg s)"

section \<open>Batch verification\<close>

record verify_item =
  item_pubkey :: "u8 list"
  item_message :: "u8 list"
  item_signature :: pq_signature

text \<open>Collecting an iterator of results: the values, or the first error.\<close>

fun collect_results :: "('e + 'a) list \<Rightarrow> 'e + 'a list" where
  "collect_results [] = Inr []"
| "collect_results (Inl e # rs) = Inl e"
| "collect_results (Inr x # rs) =
     (case collect_results rs of Inl e \<Rightarrow> Inl e | Inr xs \<Rightarrow> Inr (x # xs))"

text \<open>The source verifies in parallel and returns one of the errors; here it is the first.\<close>

definition verify_batch :: "verifier \<Rightarrow> verify_item list \<Rightarrow> crypto_error + bool list" where
  "verify_batch v items =
     (if items = [] then Inr []
      else collect_results
             (map (\<lambda>i. v (item_pubkey i) (item_message i) (item_signature i)) items))"

definition verify_batch_all :: "verifier \<Rightarrow> verify_item list \<Rightarrow> crypto_error + unit" where
  "verify_batch_all v items =
     (case verify_batch v items of
        Inl e \<Rightarrow> Inl e
      | Inr results \<Rightarrow>
          (if list_all id results then Inr ()
           else Inl (BatchVerificationFailed (length results) (length (filter Not results)))))"

section \<open>The algorithm registry\<close>

datatype algorithm_status = AlgActive | AlgDeprecated | AlgPendingActivation

fun is_accepted :: "algorithm_status \<Rightarrow> bool" where
  "is_accepted AlgActive = True"
| "is_accepted _ = False"

record algorithm_spec =
  spec_verifier_hash :: "u8 list"
  spec_activation_height :: u64

record algorithm_entry =
  entry_algo :: signature_type
  entry_status :: algorithm_status
  entry_description :: string
  entry_spec :: "algorithm_spec option"

fun registry_description :: "signature_type \<Rightarrow> string" where
  "registry_description Dilithium3 =
     ''CRYSTALS-Dilithium3 (Round-3 pre-FIPS; active for legacy compatibility)''"
| "registry_description MlDsa65 =
     ''FIPS 204 ML-DSA-65 (NIST post-quantum standard; primary algorithm)''"
| "registry_description SphincsSha2256f =
     ''SPHINCS+-SHA2-256f-simple (stateless hash-based; high security margin)''"

type_synonym algorithm_registry = "algorithm_entry list"

definition from_allowlist :: algorithm_registry where
  "from_allowlist =
     map (\<lambda>algo. \<lparr>entry_algo = algo, entry_status = AlgActive,
             entry_description = registry_description algo, entry_spec = None\<rparr>)
       ALLOWED_ALGORITHMS"

fun upsert_status ::
  "algorithm_registry \<Rightarrow> signature_type \<Rightarrow> algorithm_status \<Rightarrow> algorithm_spec option \<Rightarrow>
     algorithm_registry" where
  "upsert_status [] algo status spec =
     [\<lparr>entry_algo = algo, entry_status = status, entry_description = registry_description algo,
       entry_spec = spec\<rparr>]"
| "upsert_status (e # es) algo status spec =
     (if entry_algo e = algo
      then e\<lparr>entry_status := status, entry_description := registry_description algo,
             entry_spec := (if spec \<noteq> None then spec else entry_spec e)\<rparr> # es
      else e # upsert_status es algo status spec)"

definition propose_activation :: "algorithm_registry \<Rightarrow> signature_type \<Rightarrow> algorithm_registry" where
  "propose_activation r algo = upsert_status r algo AlgPendingActivation None"

definition propose_activation_with_spec ::
  "algorithm_registry \<Rightarrow> signature_type \<Rightarrow> u64 \<Rightarrow> u8 list \<Rightarrow> algorithm_registry" where
  "propose_activation_with_spec r algo height vhash =
     upsert_status r algo AlgPendingActivation
       (Some \<lparr>spec_verifier_hash = vhash, spec_activation_height = height\<rparr>)"

definition activate :: "algorithm_registry \<Rightarrow> signature_type \<Rightarrow> algorithm_registry" where
  "activate r algo = upsert_status r algo AlgActive None"

definition deprecate :: "algorithm_registry \<Rightarrow> signature_type \<Rightarrow> algorithm_registry" where
  "deprecate r algo = upsert_status r algo AlgDeprecated None"

definition registry_is_allowed :: "algorithm_registry \<Rightarrow> signature_type \<Rightarrow> bool" where
  "registry_is_allowed r algo = list_ex (\<lambda>e. entry_algo e = algo \<and> is_accepted (entry_status e)) r"

text \<open>The process-global registry and the stack of overrides of the current thread.\<close>

record registry_env =
  env_global :: algorithm_registry
  env_overrides :: "algorithm_registry list"

definition registry_status :: "algorithm_registry \<Rightarrow> signature_type \<Rightarrow> algorithm_status option" where
  "registry_status r algo = map_option entry_status (find (\<lambda>e. entry_algo e = algo) r)"

text \<open>The overrides are a stack: \<open>last()\<close> of the vector is the head of the list.\<close>

definition current_registry :: "registry_env \<Rightarrow> algorithm_registry" where
  "current_registry env =
     (case env_overrides env of [] \<Rightarrow> env_global env | r # _ \<Rightarrow> r)"

definition algorithm_status :: "registry_env \<Rightarrow> signature_type \<Rightarrow> algorithm_status option" where
  "algorithm_status env algo =
     (case env_overrides env of
        r # _ \<Rightarrow> registry_status r algo
      | [] \<Rightarrow> registry_status (env_global env) algo)"

definition is_algorithm_allowed :: "registry_env \<Rightarrow> signature_type \<Rightarrow> bool" where
  "is_algorithm_allowed env algo =
     (case algorithm_status env algo of None \<Rightarrow> False | Some st \<Rightarrow> is_accepted st)"

definition with_algorithm_registry_mut ::
  "(algorithm_registry \<Rightarrow> 'a \<times> algorithm_registry) \<Rightarrow> registry_env \<Rightarrow> 'a \<times> registry_env" where
  "with_algorithm_registry_mut operation env =
     (case env_overrides env of
        r # rs \<Rightarrow> (let (res, r') = operation r in (res, env\<lparr>env_overrides := r' # rs\<rparr>))
      | [] \<Rightarrow> (let (res, r') = operation (env_global env) in (res, env\<lparr>env_global := r'\<rparr>)))"

definition with_algorithm_registry_override ::
  "algorithm_registry \<Rightarrow> (registry_env \<Rightarrow> 'a \<times> registry_env) \<Rightarrow> registry_env \<Rightarrow>
     'a \<times> registry_env" where
  "with_algorithm_registry_override r operation env =
     (let (res, env') = operation (env\<lparr>env_overrides := r # env_overrides env\<rparr>)
      in (res, env'\<lparr>env_overrides := tl (env_overrides env')\<rparr>))"

definition verify_signature ::
  "registry_env \<Rightarrow> pq_backend \<Rightarrow> signature_type \<Rightarrow> u8 list \<Rightarrow> u8 list \<Rightarrow> u8 list \<Rightarrow>
     crypto_error + bool" where
  "verify_signature env be st pubkey msg sig =
     (if \<not> is_algorithm_allowed env st then Inl (UnsupportedSignatureType st)
      else multi_verify be pubkey msg (pq_signature_new st sig))"

definition infer_signature_type_from_address ::
  "registry_env \<Rightarrow> (u8 list \<Rightarrow> shell_hash) \<Rightarrow> u8 list \<Rightarrow> address \<Rightarrow> signature_type option" where
  "infer_signature_type_from_address env blake3 pubkey addr =
     find (\<lambda>st. is_algorithm_allowed env st
              \<and> from_public_key blake3 pubkey (sig_type_as_u8 st) = addr)
       [MlDsa65, Dilithium3, SphincsSha2256f]"

section \<open>Facts\<close>

lemma sig_type_from_as_u8: "sig_type_from_u8 (sig_type_as_u8 t) = Some t"
  by (cases t) (simp_all add: sig_type_from_u8_def)

lemma collect_results_Inr_iff:
  "collect_results rs = Inr xs \<longleftrightarrow> rs = map Inr xs"
proof (induction rs arbitrary: xs rule: collect_results.induct)
  case (3 x rs)
  have "collect_results (Inr x # rs) = Inr xs \<longleftrightarrow>
          (\<exists>ys. collect_results rs = Inr ys \<and> xs = x # ys)"
    by (cases "collect_results rs") auto
  also have "\<dots> \<longleftrightarrow> Inr x # rs = map Inr xs"
    unfolding "3.IH" by (cases xs) auto
  finally show ?case .
qed auto

lemma all_Inr_True_iff:
  "(\<exists>xs. rs = map Inr xs \<and> list_all id xs) \<longleftrightarrow> (\<forall>r \<in> set rs. r = Inr True)"
proof (induction rs)
  case (Cons r rs)
  have "(\<exists>xs. r # rs = map Inr xs \<and> list_all id xs) \<longleftrightarrow>
          r = Inr True \<and> (\<exists>xs. rs = map Inr xs \<and> list_all id xs)"
    by (simp only: Cons_eq_map_conv) (rule iffI; fastforce)
  also have "\<dots> \<longleftrightarrow> (\<forall>r \<in> set (r # rs). r = Inr True)"
    unfolding Cons.IH by simp
  finally show ?case .
qed simp

text \<open>A batch passes exactly when every item verifies on its own.\<close>

lemma verify_batch_collect:
  "verify_batch v items =
     collect_results (map (\<lambda>i. v (item_pubkey i) (item_message i) (item_signature i)) items)"
  by (simp add: verify_batch_def)

lemma verify_batch_all_iff:
  "verify_batch_all v items = Inr () \<longleftrightarrow>
     (\<forall>i \<in> set items. v (item_pubkey i) (item_message i) (item_signature i) = Inr True)"
proof -
  have "verify_batch_all v items = Inr () \<longleftrightarrow>
          (\<exists>xs. verify_batch v items = Inr xs \<and> list_all id xs)"
    by (cases "verify_batch v items") (simp_all add: verify_batch_all_def)
  also have "\<dots> \<longleftrightarrow> (\<forall>i \<in> set items. v (item_pubkey i) (item_message i) (item_signature i) = Inr True)"
    by (simp only: verify_batch_collect collect_results_Inr_iff all_Inr_True_iff) simp
  finally show ?thesis .
qed

lemma registry_status_upsert:
  "registry_status (upsert_status r algo status spec) algo' =
     (if algo' = algo then Some status else registry_status r algo')"
  by (induction r) (auto simp: registry_status_def)

lemma upsert_status_algos:
  "map entry_algo (upsert_status r algo status spec) =
     (if algo \<in> set (map entry_algo r) then map entry_algo r else map entry_algo r @ [algo])"
  by (induction r) auto

lemma upsert_status_distinct:
  "distinct (map entry_algo r) \<Longrightarrow> distinct (map entry_algo (upsert_status r algo status spec))"
  by (simp only: upsert_status_algos) auto

lemma is_accepted_iff: "is_accepted s \<longleftrightarrow> s = AlgActive"
  by (cases s) auto

lemma registry_status_None_iff:
  "registry_status r algo = None \<longleftrightarrow> algo \<notin> set (map entry_algo r)"
  by (induction r) (auto simp: registry_status_def)

lemma registry_is_allowed_iff:
  assumes "distinct (map entry_algo r)"
  shows "registry_is_allowed r algo \<longleftrightarrow> registry_status r algo = Some AlgActive"
  using assms
proof (induction r)
  case Nil
  show ?case by (simp add: registry_is_allowed_def registry_status_def)
next
  case (Cons e r)
  show ?case
  proof (cases "entry_algo e = algo")
    case True
    then have "algo \<notin> set (map entry_algo r)" using Cons.prems by auto
    then have "\<not> registry_is_allowed r algo"
      by (auto simp: registry_is_allowed_def list_ex_iff)
    with True show ?thesis
      by (simp add: registry_is_allowed_def registry_status_def is_accepted_iff)
  next
    case False
    with Cons show ?thesis by (simp add: registry_is_allowed_def registry_status_def)
  qed
qed

lemma algorithm_status_current: "algorithm_status env algo = registry_status (current_registry env) algo"
  by (simp add: algorithm_status_def current_registry_def split: list.split)

lemma algorithm_mut_current:
  "current_registry (snd (with_algorithm_registry_mut f env)) = snd (f (current_registry env))"
  by (auto simp: with_algorithm_registry_mut_def current_registry_def split: list.split prod.split)

section \<open>Properties\<close>

datatype registry_op =
    ProposeActivation signature_type
  | ProposeActivationWithSpec signature_type u64 "u8 list"
  | Activate signature_type
  | Deprecate signature_type

fun registry_step :: "algorithm_registry \<Rightarrow> registry_op \<Rightarrow> algorithm_registry" where
  "registry_step r (ProposeActivation t) = propose_activation r t"
| "registry_step r (ProposeActivationWithSpec t height vhash) =
     propose_activation_with_spec r t height vhash"
| "registry_step r (Activate t) = activate r t"
| "registry_step r (Deprecate t) = deprecate r t"

fun op_algo :: "registry_op \<Rightarrow> signature_type" where
  "op_algo (ProposeActivation t) = t"
| "op_algo (ProposeActivationWithSpec t _ _) = t"
| "op_algo (Activate t) = t"
| "op_algo (Deprecate t) = t"

fun op_status :: "registry_op \<Rightarrow> algorithm_status" where
  "op_status (Activate t) = AlgActive"
| "op_status (Deprecate t) = AlgDeprecated"
| "op_status _ = AlgPendingActivation"

lemma registry_status_step:
  "registry_status (registry_step r op) t =
     (if op_algo op = t then Some (op_status op) else registry_status r t)"
  by (cases op)
    (auto simp: propose_activation_def propose_activation_with_spec_def activate_def deprecate_def
      registry_status_upsert)

lemma registry_step_distinct:
  "distinct (map entry_algo r) \<Longrightarrow> distinct (map entry_algo (registry_step r op))"
  by (cases op)
    (simp_all add: propose_activation_def propose_activation_with_spec_def activate_def
      deprecate_def upsert_status_distinct)

interpretation registry: invariant_machine registry_step "\<lambda>r. distinct (map entry_algo r)"
  by unfold_locales (rule registry_step_distinct)

lemma from_allowlist_distinct: "distinct (map entry_algo from_allowlist)"
  by (simp add: from_allowlist_def ALLOWED_ALGORITHMS_def)

lemma registry_status_run:
  "registry_status (foldl registry_step r ops) t =
     (let own = filter (\<lambda>op. op_algo op = t) ops
      in if own = [] then registry_status r t else Some (op_status (last own)))"
proof (induction ops rule: rev_induct)
  case (snoc op ops)
  then show ?case by (simp add: registry_status_step Let_def)
qed simp

lemma registry_status_allowlist: "registry_status from_allowlist t = Some AlgActive"
  by (cases t) (simp_all add: registry_status_def from_allowlist_def ALLOWED_ALGORITHMS_def)

text \<open>
  C38: the algorithm policy follows governance: after any sequence of registry operations on the
  compile-time allowlist an algorithm is accepted exactly when the last operation on it activated
  it, or when there was none; and the registry never holds two entries for an algorithm.
\<close>

theorem registry_follows_governance:
  "(registry_is_allowed (foldl registry_step from_allowlist ops) t \<longleftrightarrow>
     (let own = filter (\<lambda>op. op_algo op = t) ops
      in own = [] \<or> op_status (last own) = AlgActive))
   \<and> distinct (map entry_algo (foldl registry_step from_allowlist ops))"
  using registry.inv_run [OF from_allowlist_distinct, of ops]
  by (simp add: registry_is_allowed_iff registry_status_run registry_status_allowlist Let_def)

definition mutate_all ::
  "(algorithm_registry \<Rightarrow> unit \<times> algorithm_registry) list \<Rightarrow> registry_env \<Rightarrow> registry_env" where
  "mutate_all fs env = foldl (\<lambda>e f. snd (with_algorithm_registry_mut f e)) env fs"

lemma mutate_all_overridden:
  "env_overrides env = r # rs \<Longrightarrow>
     mutate_all fs env = env\<lparr>env_overrides := foldl (\<lambda>r f. snd (f r)) r fs # rs\<rparr>"
proof (induction fs arbitrary: env r)
  case (Cons f fs)
  let ?env = "env\<lparr>env_overrides := snd (f r) # rs\<rparr>"
  have "snd (with_algorithm_registry_mut f env) = ?env"
    using Cons.prems by (simp add: with_algorithm_registry_mut_def split: prod.split)
  then have "mutate_all (f # fs) env = mutate_all fs ?env" by (simp add: mutate_all_def)
  with Cons.IH [of ?env "snd (f r)"] show ?case by simp
qed (simp add: mutate_all_def)

text \<open>
  A registry override is confined: whatever registry updates run under it, the canonical
  registry and the enclosing overrides are afterwards what they were before, and the status that
  is read at the end of the run is that of the override with those updates.
\<close>

theorem registry_override_confined:
  "with_algorithm_registry_override r
     (\<lambda>env. let env' = mutate_all fs env in (algorithm_status env' t, env')) env =
   (registry_status (foldl (\<lambda>r f. snd (f r)) r fs) t, env)"
  by (simp add: with_algorithm_registry_override_def Let_def algorithm_status_def
      mutate_all_overridden [of _ r "env_overrides env"])

end
