(* ===== verification/Block_Header.thy ===== *)
theory Block_Header
  imports Crypto
begin

text \<open>
  Block headers and blocks of \<open>crates/core/src/block.rs\<close>: the header, its canonical
  fixed-width encoding, the block hash, and the block with its proposer seal. Transactions and
  system transactions are opaque to consensus and are type parameters of the block.
  \<open>blake3\<close> is a third-party function and a parameter of the encoding.
\<close>

record block_header =
  hdr_parent_hash :: shell_hash
  hdr_state_root :: shell_hash
  hdr_transactions_root :: shell_hash
  hdr_receipts_root :: shell_hash
  hdr_logs_bloom :: "u8 list"
  hdr_number :: u64
  hdr_gas_limit :: u64
  hdr_gas_used :: u64
  hdr_timestamp :: u64
  hdr_extra_data :: "u8 list"
  hdr_proposer :: address
  hdr_sig_aggregate_proof :: "u8 list option"
  hdr_base_fee_per_gas :: u64
  hdr_withdrawals_root :: shell_hash
  hdr_parent_beacon_block_root :: shell_hash
  hdr_blob_gas_used :: u64
  hdr_excess_blob_gas :: u64
  hdr_witness_root :: "shell_hash option"

text \<open>\<open>BlockHeader::default()\<close>.\<close>

definition header_default :: block_header where
  "header_default =
     \<lparr>hdr_parent_hash = hash_zero, hdr_state_root = hash_zero,
      hdr_transactions_root = hash_zero, hdr_receipts_root = hash_zero, hdr_logs_bloom = [],
      hdr_number = 0, hdr_gas_limit = 0, hdr_gas_used = 0, hdr_timestamp = 0,
      hdr_extra_data = [], hdr_proposer = address_zero, hdr_sig_aggregate_proof = None,
      hdr_base_fee_per_gas = 0, hdr_withdrawals_root = hash_zero,
      hdr_parent_beacon_block_root = hash_zero, hdr_blob_gas_used = 0,
      hdr_excess_blob_gas = 0, hdr_witness_root = None\<rparr>"

abbreviation (input) BLOCK_HASH_DOMAIN :: "u8 list" where
  "BLOCK_HASH_DOMAIN \<equiv> ascii ''SHELL_BLOCK_HDR'' @ [0]"

type_synonym hash_fn = "u8 list \<Rightarrow> shell_hash"

definition proof_hash :: "hash_fn \<Rightarrow> block_header \<Rightarrow> shell_hash" where
  "proof_hash blake3 h =
     (case hdr_sig_aggregate_proof h of Some p \<Rightarrow> blake3 p | None \<Rightarrow> hash_zero)"

abbreviation (input) witness_or_zero :: "block_header \<Rightarrow> shell_hash" where
  "witness_or_zero h \<equiv> (case hdr_witness_root h of Some w \<Rightarrow> w | None \<Rightarrow> hash_zero)"

definition canonical_encode :: "hash_fn \<Rightarrow> block_header \<Rightarrow> u8 list" where
  "canonical_encode blake3 h =
     BLOCK_HASH_DOMAIN
     @ hash_as_bytes (hdr_parent_hash h)
     @ hash_as_bytes (hdr_state_root h)
     @ hash_as_bytes (hdr_transactions_root h)
     @ hash_as_bytes (hdr_receipts_root h)
     @ hash_as_bytes (blake3 (hdr_logs_bloom h))
     @ le_bytes 8 (hdr_number h)
     @ le_bytes 8 (hdr_gas_limit h)
     @ le_bytes 8 (hdr_gas_used h)
     @ le_bytes 8 (hdr_timestamp h)
     @ hash_as_bytes (blake3 (hdr_extra_data h))
     @ address_as_bytes (hdr_proposer h)
     @ hash_as_bytes (proof_hash blake3 h)
     @ le_bytes 8 (hdr_base_fee_per_gas h)
     @ hash_as_bytes (hdr_withdrawals_root h)
     @ hash_as_bytes (hdr_parent_beacon_block_root h)
     @ le_bytes 8 (hdr_blob_gas_used h)
     @ le_bytes 8 (hdr_excess_blob_gas h)
     @ hash_as_bytes (witness_or_zero h)"

definition header_hash :: "hash_fn \<Rightarrow> block_header \<Rightarrow> shell_hash" where
  "header_hash blake3 h = blake3 (canonical_encode blake3 h)"

record ('tx, 'stx) block =
  blk_header :: block_header
  blk_transactions :: "'tx list"
  blk_system_transactions :: "'stx list"
  blk_proposer_seal :: "pq_signature option"

definition blk_hash :: "hash_fn \<Rightarrow> ('tx, 'stx) block \<Rightarrow> shell_hash" where
  "blk_hash blake3 b = header_hash blake3 (blk_header b)"

section \<open>The encoding binds the header\<close>

lemmas encoding_lengths =
  length_ascii length_hash_as_bytes length_address_as_bytes length_le_bytes

lemma canonical_encode_length: "length (canonical_encode blake3 h) = 424"
  by (simp add: canonical_encode_def encoding_lengths)

lemma canonical_encode_inject:
  "canonical_encode b h = canonical_encode b h' \<longleftrightarrow>
     hdr_parent_hash h = hdr_parent_hash h' \<and> hdr_state_root h = hdr_state_root h'
     \<and> hdr_transactions_root h = hdr_transactions_root h'
     \<and> hdr_receipts_root h = hdr_receipts_root h'
     \<and> b (hdr_logs_bloom h) = b (hdr_logs_bloom h')
     \<and> hdr_number h = hdr_number h' \<and> hdr_gas_limit h = hdr_gas_limit h'
     \<and> hdr_gas_used h = hdr_gas_used h' \<and> hdr_timestamp h = hdr_timestamp h'
     \<and> b (hdr_extra_data h) = b (hdr_extra_data h')
     \<and> hdr_proposer h = hdr_proposer h' \<and> proof_hash b h = proof_hash b h'
     \<and> hdr_base_fee_per_gas h = hdr_base_fee_per_gas h'
     \<and> hdr_withdrawals_root h = hdr_withdrawals_root h'
     \<and> hdr_parent_beacon_block_root h = hdr_parent_beacon_block_root h'
     \<and> hdr_blob_gas_used h = hdr_blob_gas_used h'
     \<and> hdr_excess_blob_gas h = hdr_excess_blob_gas h'
     \<and> witness_or_zero h = witness_or_zero h'"
  unfolding canonical_encode_def
  by (simp add: append_eq_append_conv encoding_lengths hash_as_bytes_inject
      address_as_bytes_inject le_bytes_u64_inject)

text \<open>The byte strings whose hashes enter the hash of a header.\<close>

definition hashed_inputs :: "hash_fn \<Rightarrow> block_header \<Rightarrow> u8 list set" where
  "hashed_inputs blake3 h =
     {canonical_encode blake3 h, hdr_logs_bloom h, hdr_extra_data h}
     \<union> set_option (hdr_sig_aggregate_proof h)"

definition header_collision_free :: "hash_fn \<Rightarrow> block_header \<Rightarrow> block_header \<Rightarrow> bool" where
  "header_collision_free blake3 h h' \<longleftrightarrow>
     inj_on blake3 (hashed_inputs blake3 h \<union> hashed_inputs blake3 h')
     \<and> hash_zero \<notin> blake3 ` (set_option (hdr_sig_aggregate_proof h)
                            \<union> set_option (hdr_sig_aggregate_proof h'))"

lemma option_hash_inject:
  assumes "inj_on f (set_option x \<union> set_option y)" and "z \<notin> f ` (set_option x \<union> set_option y)"
    and "(case x of Some p \<Rightarrow> f p | None \<Rightarrow> z) = (case y of Some p \<Rightarrow> f p | None \<Rightarrow> z)"
  shows "x = y"
  using assms by (cases x; cases y) (simp_all add: inj_on_eq_iff)

lemma header_hash_binding:
  assumes free: "header_collision_free blake3 h h'"
    and eq: "header_hash blake3 h = header_hash blake3 h'"
    and witness: "hdr_witness_root h \<noteq> Some hash_zero" "hdr_witness_root h' \<noteq> Some hash_zero"
  shows "h = h'"
proof -
  have inj: "inj_on blake3 (hashed_inputs blake3 h \<union> hashed_inputs blake3 h')"
    using free by (simp add: header_collision_free_def)
  have enc: "canonical_encode blake3 h = canonical_encode blake3 h'"
    by (rule inj_onD [OF inj]) (use eq in \<open>simp_all add: header_hash_def hashed_inputs_def\<close>)
  note fields = iffD1 [OF canonical_encode_inject enc]
  have "hdr_logs_bloom h = hdr_logs_bloom h'"
    by (rule inj_onD [OF inj]) (simp_all add: fields hashed_inputs_def)
  moreover have "hdr_extra_data h = hdr_extra_data h'"
    by (rule inj_onD [OF inj]) (simp_all add: fields hashed_inputs_def)
  moreover have "hdr_sig_aggregate_proof h = hdr_sig_aggregate_proof h'"
  proof (rule option_hash_inject)
    show "inj_on blake3 (set_option (hdr_sig_aggregate_proof h)
                           \<union> set_option (hdr_sig_aggregate_proof h'))"
      using inj by (rule inj_on_subset) (auto simp: hashed_inputs_def)
    show "hash_zero \<notin> blake3 ` (set_option (hdr_sig_aggregate_proof h)
                            \<union> set_option (hdr_sig_aggregate_proof h'))"
      using free by (simp add: header_collision_free_def)
  qed (use fields in \<open>simp add: proof_hash_def\<close>)
  moreover have "hdr_witness_root h = hdr_witness_root h'"
  proof -
    have "witness_or_zero h = witness_or_zero h'" using fields by blast
    then show ?thesis using witness by (auto split: option.splits)
  qed
  ultimately show ?thesis by (intro block_header.equality) (simp_all add: fields)
qed

end
