(* ===== verification/Consensus_Base.thy ===== *)
theory Consensus_Base
  imports Block_Header
begin

text \<open>
  What the modules of \<open>crates/consensus\<close> share: the error type (\<open>error.rs\<close>), the
  round-robin index (\<open>lib.rs\<close>), the types of the engine interface (\<open>engine.rs\<close>), and
  the specification of weighted proposer selection that the three selection loops of
  \<open>validator.rs\<close> and \<open>poa.rs\<close> implement.
\<close>

section \<open>Errors\<close>

text \<open>Where the code formats a message, the constructor keeps what the message reports.\<close>

datatype lifecycle_fault = NotActive address | WeightOutOfRange

datatype timestamp_fault =
    TooFarInFuture
  | TooSoonAfterParent
  | ParentCannotAdvance
  | NotParentPlusOne

datatype consensus_error =
    InvalidProposer address address
  | InvalidSignature
  | InvalidTimestamp timestamp_fault
  | UnknownProposer address
  | NotProposer u64
  | SealingFailed crypto_error
  | Internal string
  | Equivocation address shell_hash u64
  | UnknownBlock shell_hash
  | ReorgPastFinalized u64
  | SigningError crypto_error
  | NoSigner
  | AlreadyValidator address
  | LastValidator
  | InvalidLifecycleTransition lifecycle_fault

section \<open>Round robin\<close>

text \<open>On the 64-bit targets the two conversions cannot fail when the count fits in 64 bits.\<close>

definition round_robin_index :: "u64 \<Rightarrow> usize \<Rightarrow> usize option" where
  "round_robin_index block_number n =
     (if n = 0 then None else Some (unat block_number mod n))"

lemma round_robin_index_less: "round_robin_index b n = Some i \<Longrightarrow> i < n"
  by (auto simp: round_robin_index_def split: if_splits)

lemma round_robin_index_None [simp]: "round_robin_index b n = None \<longleftrightarrow> n = 0"
  by (simp add: round_robin_index_def)

section \<open>Types of the engine interface\<close>

record penalty_state =
  pen_slashed :: "address list"
  pen_reductions :: "(address \<times> u64) list"

section \<open>Weighted selection\<close>

text \<open>
  The specification: lay the entries end to end, each as long as its weight, and take the entry
  that covers the ticket.
\<close>

fun weighted_pick :: "nat \<Rightarrow> ('a \<times> nat) list \<Rightarrow> 'a option" where
  "weighted_pick t [] = None"
| "weighted_pick t ((a, w) # xs) = (if t < w then Some a else weighted_pick (t - w) xs)"

definition total_of :: "('a \<times> nat) list \<Rightarrow> nat" where
  "total_of xs = sum_list (map snd xs)"

lemma total_of_simps [simp]:
  "total_of [] = 0" "total_of ((a, w) # xs) = w + total_of xs"
  by (simp_all add: total_of_def)

lemma weighted_pick_Some: "t < total_of xs \<Longrightarrow> \<exists>a. weighted_pick t xs = Some a"
  by (induction t xs rule: weighted_pick.induct) auto

lemma weighted_pick_None: "total_of xs \<le> t \<Longrightarrow> weighted_pick t xs = None"
  by (induction t xs rule: weighted_pick.induct) auto

lemma weighted_pick_in: "weighted_pick t xs = Some a \<Longrightarrow> \<exists>w. (a, w) \<in> set xs \<and> 0 < w"
  by (induction t xs rule: weighted_pick.induct) (auto split: if_splits)

text \<open>Every entry is picked by exactly as many tickets as its weight says.\<close>

lemma weighted_pick_bound: "weighted_pick t xs = Some a \<Longrightarrow> t < total_of xs"
  using weighted_pick_None [of xs t] by (simp add: not_less [symmetric]) fastforce

lemma finite_pick_tickets [simp]: "finite {t. weighted_pick t xs = Some a}"
  by (rule finite_subset [of _ "{..< total_of xs}"]) (auto dest: weighted_pick_bound)

lemma shifted_set: "{t. w \<le> t \<and> P (t - w)} = (\<lambda>t. t + w) ` {t. P t}" for w :: nat
  by (force intro!: image_eqI [where x = "_ - w"])

lemma card_pick_tickets:
  "card {t. weighted_pick t xs = Some a} = total_of (filter (\<lambda>e. fst e = a) xs)"
proof (induction xs)
  case (Cons e xs)
  obtain b w where e: "e = (b, w)" by (cases e)
  let ?rest = "{t. weighted_pick t xs = Some a}"
  let ?here = "if a = b then {..< w} else {}"
  have "{t. weighted_pick t (e # xs) = Some a} =
          ?here \<union> {t. w \<le> t \<and> weighted_pick (t - w) xs = Some a}"
    by (auto simp: e split: if_splits)
  also have "\<dots> = ?here \<union> (\<lambda>t. t + w) ` ?rest" 
    by (simp only: shifted_set [of w "\<lambda>t. weighted_pick t xs = Some a"])
  finally have "card {t. weighted_pick t (e # xs) = Some a} =
                  card ?here + card ((\<lambda>t. t + w) ` ?rest)"
    by (simp only:) (rule card_Un_disjoint; auto)
  moreover have "card ((\<lambda>t. t + w) ` ?rest) = card ?rest"
    by (rule card_image) (simp add: inj_on_def)
  ultimately show ?case using Cons.IH by (auto simp: e)
qed simp

lemma total_of_own_entry:
  assumes "distinct (map fst xs)" "(a, w) \<in> set xs"
  shows "total_of (filter (\<lambda>e. fst e = a) xs) = w"
  using assms
proof (induction xs)
  case (Cons e xs)
  show ?case
  proof (cases "fst e = a")
    case True
    then have new: "a \<notin> fst ` set xs" using Cons.prems(1) by auto
    then have "filter (\<lambda>e. fst e = a) xs = []" by (force simp: filter_empty_conv)
    moreover have "e = (a, w)" using Cons.prems(2) new by force
    ultimately show ?thesis by simp
  next
    case False
    with Cons show ?thesis by auto
  qed
qed simp

section \<open>Engines with penalties\<close>

text \<open>
  The part of \<open>ConsensusEngine\<close> that deals with penalties: \<open>slash_authority\<close> lowers
  the effective weight of the offender and of nobody else, and \<open>penalty_state\<close> with
  \<open>restore_penalty_state\<close> carries all reductions to another engine with the same setup.
\<close>

locale penalised_engine =
  fixes weight :: "'e \<Rightarrow> address \<Rightarrow> u64 option"
    and slash :: "'e \<Rightarrow> address \<Rightarrow> 'e"
    and penalties :: "'e \<Rightarrow> penalty_state"
    and restore :: "'e \<Rightarrow> penalty_state \<Rightarrow> 'e"
    and same_setup :: "'e \<Rightarrow> 'e \<Rightarrow> bool"
  assumes slash_other: "a \<noteq> b \<Longrightarrow> weight (slash e a) b = weight e b"
    and slash_le: "weight e a = Some w \<Longrightarrow> \<exists>w'. weight (slash e a) a = Some w' \<and> w' \<le> w"
    and slash_setup: "same_setup (slash e a) e' = same_setup e e'"
    and restore_weight: "same_setup e e' \<Longrightarrow> weight (restore e' (penalties e)) = weight e"
begin

lemma weight_never_grows:
  "weight e a = Some w \<Longrightarrow> \<exists>w'. weight (foldl slash e offenders) a = Some w' \<and> w' \<le> w"
proof (induction offenders arbitrary: e w)
  case (Cons b offenders)
  obtain w1 where w1: "weight (slash e b) a = Some w1" "w1 \<le> w"
    using slash_le [OF Cons.prems] slash_other [of b a e] Cons.prems by (cases "a = b") auto
  from Cons.IH [OF w1(1)] w1(2) show ?case by (auto intro: order_trans)
qed simp

lemma weight_of_others: "a \<notin> set offenders \<Longrightarrow> weight (foldl slash e offenders) a = weight e a"
  by (induction offenders arbitrary: e) (auto simp: slash_other)

lemma setup_after_slashes: "same_setup (foldl slash e offenders) e' = same_setup e e'"
  by (induction offenders arbitrary: e) (auto simp: slash_setup)

lemma snapshot_restores:
  "same_setup e e' \<Longrightarrow>
     weight (restore e' (penalties (foldl slash e offenders))) = weight (foldl slash e offenders)"
  by (rule restore_weight) (simp add: setup_after_slashes)

end

end
