(* ===== verification/Validator.thy ===== *)
theory Validator
  imports Consensus_Base "HOL-Library.More_List"
begin

text \<open>
  \<open>crates/consensus/src/validator.rs\<close>: the validator lifecycle
  (Pending, Active, Exiting, Exited, Slashed) and the ordered, weighted validator set with its
  proposer selection, activation queue and exits.
\<close>

section \<open>Validators\<close>

datatype validator_status = Pending | Active | Exiting u64 | Exited | Slashed

fun status_is_active :: "validator_status \<Rightarrow> bool" where
  "status_is_active Active = True"
| "status_is_active _ = False"

record validator_info =
  vi_address :: address
  vi_weight :: u64
  vi_status :: validator_status
  vi_activation_epoch :: "u64 option"
  vi_exit_epoch :: "u64 option"

definition validator_info_new :: "address \<Rightarrow> validator_info" where
  "validator_info_new a =
     \<lparr>vi_address = a, vi_weight = 1, vi_status = Active, vi_activation_epoch = None,
      vi_exit_epoch = None\<rparr>"

definition validator_info_pending :: "address \<Rightarrow> validator_info" where
  "validator_info_pending a =
     \<lparr>vi_address = a, vi_weight = 1, vi_status = Pending, vi_activation_epoch = None,
      vi_exit_epoch = None\<rparr>"

section \<open>The validator set\<close>

record validator_set_config =
  max_activations_per_epoch :: u64
  exit_cooldown_epochs :: u64

definition validator_set_config_default :: validator_set_config where
  "validator_set_config_default =
     \<lparr>max_activations_per_epoch = 5, exit_cooldown_epochs = 2\<rparr>"

record validator_set =
  vs_validators :: "(address, validator_info) hashmap"
  vs_order :: "address list"
  vs_activation_queue :: "address list"
  vs_config :: validator_set_config

definition validator_set_new :: "validator_set_config \<Rightarrow> validator_set" where
  "validator_set_new config =
     \<lparr>vs_validators = hm_new, vs_order = [], vs_activation_queue = [], vs_config = config\<rparr>"

definition genesis_entry :: "validator_set \<Rightarrow> address \<times> u64 \<Rightarrow> validator_set" where
  "genesis_entry s e =
     (case e of (address, weight) \<Rightarrow>
        let info = (validator_info_new address)
                     \<lparr>vi_weight := clamp weight 1 MAX_VALIDATOR_WEIGHT,
                      vi_activation_epoch := Some 0\<rparr>
        in s\<lparr>vs_order := vs_order s @ [address],
               vs_validators := hm_insert (vs_validators s) address info\<rparr>)"

definition from_genesis :: "(address \<times> u64) list \<Rightarrow> validator_set_config \<Rightarrow> validator_set" where
  "from_genesis entries config = foldl genesis_entry (validator_set_new config) entries"

subsection \<open>Queries\<close>

definition active_validators :: "validator_set \<Rightarrow> validator_info list" where
  "active_validators s =
     List.map_filter
       (\<lambda>a. case hm_get (vs_validators s) a of
              None \<Rightarrow> None
            | Some v \<Rightarrow> if status_is_active (vi_status v) then Some v else None)
       (vs_order s)"

definition active_count :: "validator_set \<Rightarrow> usize" where
  "active_count s =
     length (filter (\<lambda>v. status_is_active (vi_status v))
               (List.map_filter (hm_get (vs_validators s)) (vs_order s)))"

definition vs_get :: "validator_set \<Rightarrow> address \<Rightarrow> validator_info option" where
  "vs_get s a = hm_get (vs_validators s) a"

definition vs_is_active :: "validator_set \<Rightarrow> address \<Rightarrow> bool" where
  "vs_is_active s a =
     (case hm_get (vs_validators s) a of
        None \<Rightarrow> False
      | Some v \<Rightarrow> status_is_active (vi_status v))"

subsection \<open>Weighted proposer selection\<close>

text \<open>The loop over the active validators, with \<open>?\<close> on the checked addition.\<close>

fun slot_walk :: "u64 \<Rightarrow> u64 \<Rightarrow> address option \<Rightarrow> validator_info list \<Rightarrow> address option" where
  "slot_walk slot cumulative latest [] = latest"
| "slot_walk slot cumulative latest (v # vs) =
     (case checked_add cumulative (vi_weight v) of
        None \<Rightarrow> None
      | Some c \<Rightarrow>
          (if slot < c then Some (vi_address v)
           else slot_walk slot c (Some (vi_address v)) vs))"

definition weighted_proposer :: "validator_set \<Rightarrow> u64 \<Rightarrow> address option" where
  "weighted_proposer s block_number =
     (let active = active_validators s in
      case checked_sum_from 0 (map vi_weight active) of
        None \<Rightarrow> None
      | Some tot \<Rightarrow>
          (if tot = 0 \<and> active = [] then None
           else if tot = 0 then
             (case round_robin_index block_number (length active) of
                None \<Rightarrow> None
              | Some idx \<Rightarrow>
                  (if idx < length active then Some (vi_address (active ! idx)) else None))
           else slot_walk (block_number mod tot) 0 None active))"

subsection \<open>Lifecycle\<close>

definition enqueue :: "validator_set \<Rightarrow> address \<Rightarrow> consensus_error + validator_set" where
  "enqueue s a =
     (if hm_contains (vs_validators s) a then Inl (AlreadyValidator a)
      else Inr (s\<lparr>vs_order := vs_order s @ [a],
                  vs_validators := hm_insert (vs_validators s) a (validator_info_pending a),
                  vs_activation_queue := vs_activation_queue s @ [a]\<rparr>))"

definition set_weight :: "validator_set \<Rightarrow> address \<Rightarrow> u64 \<Rightarrow> consensus_error + validator_set" where
  "set_weight s a weight =
     (case hm_get (vs_validators s) a of
        None \<Rightarrow> Inl (UnknownProposer a)
      | Some info \<Rightarrow>
          (if \<not> status_is_active (vi_status info)
           then Inl (InvalidLifecycleTransition (NotActive a))
           else if weight = 0 \<or> MAX_VALIDATOR_WEIGHT < weight
           then Inl (InvalidLifecycleTransition WeightOutOfRange)
           else Inr (s\<lparr>vs_validators :=
                         hm_insert (vs_validators s) a (info\<lparr>vi_weight := weight\<rparr>)\<rparr>)))"

fun activation_loop ::
  "u64 \<Rightarrow> u64 \<Rightarrow> u64 \<Rightarrow> address list \<Rightarrow> (address, validator_info) hashmap \<Rightarrow>
     address list \<times> (address, validator_info) hashmap" where
  "activation_loop limit epoch activated [] vals = ([], vals)"
| "activation_loop limit epoch activated (a # queue) vals =
     (if \<not> activated < limit then (a # queue, vals)
      else case hm_get vals a of
          None \<Rightarrow> activation_loop limit epoch activated queue vals
        | Some info \<Rightarrow>
            (if vi_status info = Pending
             then activation_loop limit epoch (activated + 1) queue
                    (hm_insert vals a
                       (info\<lparr>vi_status := Active, vi_activation_epoch := Some epoch\<rparr>))
             else activation_loop limit epoch activated queue vals))"

definition process_activations :: "validator_set \<Rightarrow> u64 \<Rightarrow> validator_set" where
  "process_activations s epoch =
     (case activation_loop (max_activations_per_epoch (vs_config s)) epoch 0
             (vs_activation_queue s) (vs_validators s) of
        (queue, vals) \<Rightarrow> s\<lparr>vs_activation_queue := queue, vs_validators := vals\<rparr>)"

definition finish_exit :: "u64 \<Rightarrow> validator_info \<Rightarrow> validator_info" where
  "finish_exit epoch info =
     (case vi_status info of
        Exiting exit_epoch \<Rightarrow>
          (if exit_epoch \<le> epoch then info\<lparr>vi_status := Exited, vi_exit_epoch := Some epoch\<rparr>
           else info)
      | _ \<Rightarrow> info)"

definition process_exits :: "validator_set \<Rightarrow> u64 \<Rightarrow> validator_set" where
  "process_exits s epoch =
     s\<lparr>vs_validators := hm_map (\<lambda>_ info. finish_exit epoch info) (vs_validators s)\<rparr>"

definition begin_exit :: "validator_set \<Rightarrow> address \<Rightarrow> u64 \<Rightarrow> consensus_error + validator_set" where
  "begin_exit s a current_epoch =
     (if active_count s \<le> 1 then Inl LastValidator
      else case hm_get (vs_validators s) a of
          None \<Rightarrow> Inl (UnknownProposer a)
        | Some info \<Rightarrow>
            (if \<not> status_is_active (vi_status info)
             then Inl (InvalidLifecycleTransition (NotActive a))
             else Inr (s\<lparr>vs_validators :=
                hm_insert (vs_validators s) a
                  (info\<lparr>vi_status :=
                     Exiting (sat_add current_epoch (exit_cooldown_epochs (vs_config s)))\<rparr>)\<rparr>)))"

definition slash :: "validator_set \<Rightarrow> address \<Rightarrow> u64 \<Rightarrow> consensus_error + validator_set" where
  "slash s a current_epoch =
     (case hm_get (vs_validators s) a of
        None \<Rightarrow> Inl (UnknownProposer a)
      | Some info \<Rightarrow>
          Inr (s\<lparr>vs_validators :=
            hm_insert (vs_validators s) a
              (info\<lparr>vi_status := Slashed, vi_exit_epoch := Some current_epoch\<rparr>)\<rparr>))"

section \<open>The set as a machine\<close>

datatype vs_op =
    Enqueue address
  | SetWeight address u64
  | ProcessActivations u64
  | ProcessExits u64
  | BeginExit address u64
  | Slash address u64

text \<open>An operation that fails leaves the set as it was.\<close>

definition or_unchanged :: "'s \<Rightarrow> 'e + 's \<Rightarrow> 's" where
  "or_unchanged s r = (case r of Inl _ \<Rightarrow> s | Inr s' \<Rightarrow> s')"

fun vs_step :: "validator_set \<Rightarrow> vs_op \<Rightarrow> validator_set" where
  "vs_step s (Enqueue a) = or_unchanged s (enqueue s a)"
| "vs_step s (SetWeight a w) = or_unchanged s (set_weight s a w)"
| "vs_step s (ProcessActivations e) = process_activations s e"
| "vs_step s (ProcessExits e) = process_exits s e"
| "vs_step s (BeginExit a e) = or_unchanged s (begin_exit s a e)"
| "vs_step s (Slash a e) = or_unchanged s (slash s a e)"

text \<open>
  The invariant: the order lists every tracked validator once, the entries carry their own
  address and a weight in range, and the queue holds every pending validator and nothing that
  was ever active.
\<close>

definition info_ok :: "address \<Rightarrow> validator_info \<Rightarrow> bool" where
  "info_ok a i \<longleftrightarrow> vi_address i = a \<and> 1 \<le> vi_weight i \<and> vi_weight i \<le> MAX_VALIDATOR_WEIGHT"

definition vs_inv :: "validator_set \<Rightarrow> bool" where
  "vs_inv s \<longleftrightarrow>
     distinct (vs_order s) \<and> set (vs_order s) = dom (hm_get (vs_validators s))
     \<and> (\<forall>a i. hm_get (vs_validators s) a = Some i \<longrightarrow> info_ok a i)
     \<and> distinct (vs_activation_queue s)
     \<and> (\<forall>a \<in> set (vs_activation_queue s). \<exists>i. hm_get (vs_validators s) a = Some i
            \<and> (vi_status i = Pending \<or> vi_status i = Slashed))
     \<and> (\<forall>a i. hm_get (vs_validators s) a = Some i \<longrightarrow> vi_status i = Pending
            \<longrightarrow> a \<in> set (vs_activation_queue s))"

text \<open>How far along its lifecycle a validator is; an address not tracked is at the start.\<close>

fun status_rank :: "validator_status \<Rightarrow> nat" where
  "status_rank Pending = 1"
| "status_rank Active = 2"
| "status_rank (Exiting e) = 3"
| "status_rank Exited = 4"
| "status_rank Slashed = 5"

definition rank_of :: "validator_set \<Rightarrow> address \<Rightarrow> nat" where
  "rank_of s a = (case hm_get (vs_validators s) a of None \<Rightarrow> 0 | Some i \<Rightarrow> status_rank (vi_status i))"

definition ranks_before :: "validator_set \<Rightarrow> validator_set \<Rightarrow> bool" where
  "ranks_before s t \<longleftrightarrow> (\<forall>a. rank_of s a \<le> rank_of t a)"


section \<open>Active validators\<close>

lemma status_is_active_iff: "status_is_active st \<longleftrightarrow> st = Active"
  by (cases st) auto

lemma vs_is_active_iff:
  "vs_is_active s a \<longleftrightarrow> (\<exists>i. hm_get (vs_validators s) a = Some i \<and> vi_status i = Active)"
  by (simp add: vs_is_active_def status_is_active_iff split: option.split)

lemma active_validators_alt:
  "active_validators s =
     filter (\<lambda>v. vi_status v = Active) (List.map_filter (hm_get (vs_validators s)) (vs_order s))"
proof -
  have "List.map_filter (\<lambda>a. case m a of None \<Rightarrow> None
            | Some v \<Rightarrow> if status_is_active (vi_status v) then Some v else None) xs =
        filter (\<lambda>v. vi_status v = Active) (List.map_filter m xs)"
    for m :: "address \<Rightarrow> validator_info option" and xs
    by (induction xs) (auto simp: map_filter_simps status_is_active_iff split: option.split)
  then show ?thesis by (simp add: active_validators_def)
qed

lemma active_count_eq: "active_count s = length (active_validators s)"
  by (simp add: active_count_def active_validators_alt status_is_active_iff)

lemma active_addresses:
  assumes "vs_inv s"
  shows "map vi_address (active_validators s) = filter (vs_is_active s) (vs_order s)"
proof -
  have "map vi_address (filter (\<lambda>v. vi_status v = Active) (List.map_filter m xs)) =
        filter (\<lambda>a. \<exists>i. m a = Some i \<and> vi_status i = Active) xs"
    if "\<And>a i. m a = Some i \<Longrightarrow> vi_address i = a" for m :: "address \<Rightarrow> validator_info option" and xs
    using that by (induction xs) (auto simp: map_filter_simps split: option.split)
  from this [of "hm_get (vs_validators s)"] assms show ?thesis
    by (simp add: active_validators_alt vs_is_active_iff [abs_def] vs_inv_def info_ok_def)
qed

lemma set_active_addresses:
  "vs_inv s \<Longrightarrow> set (map vi_address (active_validators s)) = {a. vs_is_active s a}"
  unfolding active_addresses by (auto simp: vs_inv_def vs_is_active_iff)

lemma distinct_active_addresses: "vs_inv s \<Longrightarrow> distinct (map vi_address (active_validators s))"
  unfolding active_addresses by (simp add: vs_inv_def)

lemma active_validators_get:
  assumes "vs_inv s" and "v \<in> set (active_validators s)"
  shows "hm_get (vs_validators s) (vi_address v) = Some v"
proof -
  obtain a where "hm_get (vs_validators s) a = Some v"
    using assms(2) by (auto simp: active_validators_alt map_filter_def)
  with assms(1) show ?thesis by (auto simp: vs_inv_def info_ok_def)
qed

section \<open>The activation queue\<close>

definition is_pending :: "(address, validator_info) hashmap \<Rightarrow> address \<Rightarrow> bool" where
  "is_pending vals a \<longleftrightarrow> (\<exists>i. hm_get vals a = Some i \<and> vi_status i = Pending)"

definition activated_info :: "u64 \<Rightarrow> validator_info \<Rightarrow> validator_info" where
  "activated_info epoch i = i\<lparr>vi_status := Active, vi_activation_epoch := Some epoch\<rparr>"

lemma is_pending_insert_other:
  "a \<noteq> b \<Longrightarrow> is_pending (hm_insert vals a i) b = is_pending vals b"
  by (simp add: is_pending_def hm_get_insert)

text \<open>
  What the loop achieves when it may still activate \<open>k\<close> validators: the first \<open>k\<close>
  pending ones of the queue are activated, and the queue loses the prefix that holds them.
\<close>

definition activation_post ::
  "u64 \<Rightarrow> nat \<Rightarrow> (address, validator_info) hashmap \<Rightarrow> address list \<Rightarrow>
     address list \<times> (address, validator_info) hashmap \<Rightarrow> bool" where
  "activation_post epoch k vals queue r \<longleftrightarrow>
     (\<forall>a. hm_get (snd r) a =
            (if a \<in> set (take k (filter (is_pending vals) queue))
             then map_option (activated_info epoch) (hm_get vals a) else hm_get vals a))
     \<and> (\<exists>p. queue = p @ fst r
            \<and> filter (is_pending vals) p = take k (filter (is_pending vals) queue))"

lemma activation_post_skip:
  assumes "\<not> is_pending vals a" and "activation_post epoch k vals queue r"
  shows "activation_post epoch k vals (a # queue) r"
proof -
  from assms(2) obtain p where "queue = p @ fst r"
    "filter (is_pending vals) p = take k (filter (is_pending vals) queue)"
    unfolding activation_post_def by blast
  with assms(1) have "a # queue = (a # p) @ fst r \<and>
      filter (is_pending vals) (a # p) = take k (filter (is_pending vals) (a # queue))"
    by (simp only: filter.simps if_False append_Cons simp_thms)
  moreover have "hm_get (snd r) b =
      (if b \<in> set (take k (filter (is_pending vals) (a # queue)))
       then map_option (activated_info epoch) (hm_get vals b) else hm_get vals b)" for b
    using assms by (simp add: activation_post_def)
  ultimately show ?thesis unfolding activation_post_def by blast
qed

lemma activation_post_take:
  assumes a: "a \<notin> set queue" "hm_get vals a = Some i" "vi_status i = Pending"
    and post: "activation_post epoch k (hm_insert vals a (activated_info epoch i)) queue r"
  shows "activation_post epoch (Suc k) vals (a # queue) r"
proof -
  let ?vals = "hm_insert vals a (activated_info epoch i)"
  have same: "filter (is_pending ?vals) xs = filter (is_pending vals) xs"
    if "set xs \<subseteq> set queue" for xs
    by (intro filter_cong refl is_pending_insert_other) (use that a(1) in auto)
  have pa: "is_pending vals a" using a by (simp add: is_pending_def)
  have out: "a \<notin> set (take k (filter (is_pending vals) queue))"
    using a(1) by (auto dest: in_set_takeD)
  from post obtain p where p: "queue = p @ fst r"
    "filter (is_pending ?vals) p = take k (filter (is_pending ?vals) queue)"
    unfolding activation_post_def by blast
  have "set p \<subseteq> set queue" using p(1) by simp
  with p have "a # queue = (a # p) @ fst r \<and>
      filter (is_pending vals) (a # p) = take (Suc k) (filter (is_pending vals) (a # queue))"
    by (simp only: same subset_refl filter.simps pa if_True append_Cons take_Suc_Cons simp_thms)
  moreover have "hm_get (snd r) b =
      (if b \<in> set (take (Suc k) (filter (is_pending vals) (a # queue)))
       then map_option (activated_info epoch) (hm_get vals b) else hm_get vals b)" for b
    using post a(2) out pa same [of queue]
    by (simp add: activation_post_def hm_get_insert)
  ultimately show ?thesis unfolding activation_post_def by blast
qed

lemma room_after_one:
  "activated < limit \<Longrightarrow>
     unat limit - unat activated = Suc (unat limit - unat (activated + 1))"
  for activated limit :: u64
proof -
  assume "activated < limit"
  then have less: "unat activated < unat limit" by (simp add: word_less_nat_alt)
  then have "unat activated < 18446744073709551615" using unat_u64_less [of limit] by linarith
  then have "unat (activated + 1) = unat activated + 1"
    using unat_plus_fits [of activated 1] by simp
  with less show ?thesis by simp
qed

lemma activation_loop_post:
  assumes "distinct queue"
  shows "activation_post epoch (unat limit - unat activated) vals queue
           (activation_loop limit epoch activated queue vals)"
  using assms
proof (induction queue arbitrary: activated vals)
  case Nil
  show ?case by (simp add: activation_post_def)
next
  case (Cons a queue)
  then have a: "a \<notin> set queue" "distinct queue" by auto
  consider (full) "\<not> activated < limit"
    | (skip) "activated < limit" "\<not> is_pending vals a"
    | (take) i where "activated < limit" "hm_get vals a = Some i" "vi_status i = Pending"
    by (auto simp: is_pending_def)
  then show ?case
  proof cases
    case full
    then have "unat limit \<le> unat activated" by (simp add: not_less word_le_nat_alt)
    with full show ?thesis by (simp add: activation_post_def)
  next
    case skip
    then have "activation_loop limit epoch activated (a # queue) vals =
                 activation_loop limit epoch activated queue vals"
      by (auto simp: is_pending_def split: option.split)
    with activation_post_skip [OF skip(2) Cons.IH [OF a(2)]] show ?thesis by simp
  next
    case take
    then have "activation_loop limit epoch activated (a # queue) vals =
        activation_loop limit epoch (activated + 1) queue
          (hm_insert vals a (activated_info epoch i))"
      by (simp add: activated_info_def)
    with activation_post_take [OF a(1) take(2,3) Cons.IH [OF a(2)]] room_after_one [OF take(1)]
    show ?thesis by simp
  qed
qed

lemma process_activations_post:
  assumes "distinct (vs_activation_queue s)"
  shows "activation_post epoch (unat (max_activations_per_epoch (vs_config s)))
           (vs_validators s) (vs_activation_queue s)
           (vs_activation_queue (process_activations s epoch),
            vs_validators (process_activations s epoch))"
  using activation_loop_post [OF assms, of epoch "max_activations_per_epoch (vs_config s)" 0
      "vs_validators s"]
  by (cases "activation_loop (max_activations_per_epoch (vs_config s)) epoch 0
               (vs_activation_queue s) (vs_validators s)")
    (simp add: process_activations_def)

lemma process_activations_get:
  assumes "distinct (vs_activation_queue s)"
  shows "hm_get (vs_validators (process_activations s epoch)) a =
     (if a \<in> set (take (unat (max_activations_per_epoch (vs_config s)))
                   (filter (is_pending (vs_validators s)) (vs_activation_queue s)))
      then map_option (activated_info epoch) (hm_get (vs_validators s) a)
      else hm_get (vs_validators s) a)"
  using process_activations_post [OF assms, of epoch] by (simp add: activation_post_def)

lemma process_activations_queue:
  assumes "distinct (vs_activation_queue s)"
  obtains p where "vs_activation_queue s = p @ vs_activation_queue (process_activations s epoch)"
    and "filter (is_pending (vs_validators s)) p =
           take (unat (max_activations_per_epoch (vs_config s)))
             (filter (is_pending (vs_validators s)) (vs_activation_queue s))"
  using process_activations_post [OF assms, of epoch] unfolding activation_post_def fst_conv
  by blast

lemma process_activations_other [simp]:
  "vs_order (process_activations s epoch) = vs_order s"
  "vs_config (process_activations s epoch) = vs_config s"
  by (simp_all add: process_activations_def split: prod.split)

section \<open>The invariant is kept\<close>

lemma vs_inv_get: "vs_inv s \<Longrightarrow> hm_get (vs_validators s) a = Some i \<Longrightarrow> info_ok a i"
  by (simp add: vs_inv_def)

lemma vs_inv_queue_distinct: "vs_inv s \<Longrightarrow> distinct (vs_activation_queue s)"
  by (simp add: vs_inv_def)

lemma vs_inv_queue:
  assumes "vs_inv s" "a \<in> set (vs_activation_queue s)" "hm_get (vs_validators s) a = Some i"
  shows "vi_status i = Pending \<or> vi_status i = Slashed"
  using assms unfolding vs_inv_def by fastforce

lemma vs_inv_update:
  assumes inv: "vs_inv s" and get: "hm_get (vs_validators s) a = Some i" and ok: "info_ok a j"
    and pending: "vi_status j = Pending \<longrightarrow> vi_status i = Pending"
    and queued: "a \<in> set (vs_activation_queue s) \<longrightarrow> vi_status j = Pending \<or> vi_status j = Slashed"
  shows "vs_inv (s\<lparr>vs_validators := hm_insert (vs_validators s) a j\<rparr>)"
proof -
  have "dom (hm_get (hm_insert (vs_validators s) a j)) = dom (hm_get (vs_validators s))"
    using get by (auto simp: hm_get_insert split: if_splits)
  with assms show ?thesis by (simp add: vs_inv_def hm_get_insert)
qed

lemma vs_inv_or_unchanged: "vs_inv s \<Longrightarrow> (\<And>t. r = Inr t \<Longrightarrow> vs_inv t) \<Longrightarrow> vs_inv (or_unchanged s r)"
  by (simp add: or_unchanged_def split: sum.split)

lemma pending_info [simp]:
  "info_ok a (validator_info_pending a)" "vi_status (validator_info_pending a) = Pending"
  by (simp_all add: info_ok_def validator_info_pending_def)

lemma enqueue_inv:
  assumes "vs_inv s" "enqueue s a = Inr t"
  shows "vs_inv t"
proof -
  have new: "hm_get (vs_validators s) a = None" and
    t: "t = s\<lparr>vs_order := vs_order s @ [a],
             vs_validators := hm_insert (vs_validators s) a (validator_info_pending a),
             vs_activation_queue := vs_activation_queue s @ [a]\<rparr>"
    using assms(2) by (auto simp: enqueue_def hm_contains_def split: if_splits)
  have dom: "dom (hm_get (hm_insert (vs_validators s) a (validator_info_pending a))) =
               insert a (dom (hm_get (vs_validators s)))"
    by (auto simp: hm_get_insert split: if_splits)
  have "a \<notin> set (vs_order s)" "a \<notin> set (vs_activation_queue s)"
    using assms(1) new by (force simp: vs_inv_def)+
  with assms(1) dom show ?thesis
    by (auto simp: t vs_inv_def hm_get_insert)
qed

lemma set_weight_inv:
  assumes "vs_inv s" "set_weight s a w = Inr t"
  shows "vs_inv t"
proof -
  obtain i where i: "hm_get (vs_validators s) a = Some i" "vi_status i = Active"
    and w: "w \<noteq> 0" "w \<le> MAX_VALIDATOR_WEIGHT"
    and t: "t = s\<lparr>vs_validators := hm_insert (vs_validators s) a (i\<lparr>vi_weight := w\<rparr>)\<rparr>"
    using assms(2)
    by (auto simp: set_weight_def status_is_active_iff split: option.splits if_splits)
  have "info_ok a (i\<lparr>vi_weight := w\<rparr>)"
    using vs_inv_get [OF assms(1) i(1)] w by (simp add: info_ok_def word_less_1 flip: not_less)
  then show ?thesis
    unfolding t using i vs_inv_queue [OF assms(1) _ i(1)] by (intro vs_inv_update [OF assms(1)]) auto
qed

lemma begin_exit_inv:
  assumes "vs_inv s" "begin_exit s a e = Inr t"
  shows "vs_inv t"
proof -
  obtain i x where i: "hm_get (vs_validators s) a = Some i" "vi_status i = Active"
    and t: "t = s\<lparr>vs_validators := hm_insert (vs_validators s) a (i\<lparr>vi_status := Exiting x\<rparr>)\<rparr>"
    using assms(2)
    by (auto simp: begin_exit_def status_is_active_iff split: option.splits if_splits)
  have "info_ok a (i\<lparr>vi_status := Exiting x\<rparr>)"
    using vs_inv_get [OF assms(1) i(1)] by (simp add: info_ok_def)
  then show ?thesis
    unfolding t using i vs_inv_queue [OF assms(1) _ i(1)] by (intro vs_inv_update [OF assms(1)]) auto
qed

lemma slash_inv:
  assumes "vs_inv s" "slash s a e = Inr t"
  shows "vs_inv t"
proof -
  obtain i where i: "hm_get (vs_validators s) a = Some i"
    and t: "t = s\<lparr>vs_validators := hm_insert (vs_validators s) a
                    (i\<lparr>vi_status := Slashed, vi_exit_epoch := Some e\<rparr>)\<rparr>"
    using assms(2) by (auto simp: slash_def split: option.splits)
  have "info_ok a (i\<lparr>vi_status := Slashed, vi_exit_epoch := Some e\<rparr>)"
    using vs_inv_get [OF assms(1) i] by (simp add: info_ok_def)
  then show ?thesis unfolding t using i by (intro vs_inv_update [OF assms(1)]) auto
qed

lemma finish_exit_status:
  "vi_status (finish_exit e i) = Pending \<longleftrightarrow> vi_status i = Pending"
  "vi_status (finish_exit e i) = Slashed \<longleftrightarrow> vi_status i = Slashed"
  "vi_status (finish_exit e i) = Active \<longleftrightarrow> vi_status i = Active"
  "info_ok a (finish_exit e i) \<longleftrightarrow> info_ok a i"
  by (auto simp: finish_exit_def info_ok_def split: validator_status.split)

lemma process_exits_inv: "vs_inv s \<Longrightarrow> vs_inv (process_exits s e)"
proof -
  assume inv: "vs_inv s"
  have get: "hm_get (vs_validators (process_exits s e)) a =
               map_option (finish_exit e) (hm_get (vs_validators s) a)" for a
    by (simp add: process_exits_def hm_get_map)
  have "dom (hm_get (vs_validators (process_exits s e))) = dom (hm_get (vs_validators s))"
    by (auto simp: get)
  moreover have "vs_order (process_exits s e) = vs_order s"
    "vs_activation_queue (process_exits s e) = vs_activation_queue s"
    by (simp_all add: process_exits_def)
  ultimately show ?thesis
    using inv unfolding vs_inv_def by (auto simp: get finish_exit_status)
qed

lemma process_activations_inv:
  assumes inv: "vs_inv s"
  shows "vs_inv (process_activations s e)"
proof -
  let ?t = "process_activations s e"
  define chosen where "chosen = take (unat (max_activations_per_epoch (vs_config s)))
    (filter (is_pending (vs_validators s)) (vs_activation_queue s))"
  note dq = vs_inv_queue_distinct [OF inv]
  from process_activations_queue [OF dq, of e] obtain p where
    q: "vs_activation_queue s = p @ vs_activation_queue ?t"
    and p: "filter (is_pending (vs_validators s)) p = chosen"
    unfolding chosen_def by blast
  have get: "hm_get (vs_validators ?t) a =
      (if a \<in> set chosen then map_option (activated_info e) (hm_get (vs_validators s) a)
       else hm_get (vs_validators s) a)" for a
    unfolding chosen_def by (rule process_activations_get [OF dq])
  have apart: "a \<notin> set chosen" if "a \<in> set (vs_activation_queue ?t)" for a
    using that dq unfolding p [symmetric] by (subst (asm) q) auto
  have "set (vs_order ?t) = dom (hm_get (vs_validators ?t))"
  proof -
    have "dom (hm_get (vs_validators ?t)) = dom (hm_get (vs_validators s))"
      by (auto simp: get split: if_splits)
    with inv show ?thesis by (simp add: vs_inv_def)
  qed
  moreover have "info_ok a i" if "hm_get (vs_validators ?t) a = Some i" for a i
    using that vs_inv_get [OF inv, of a]
    by (auto simp: get info_ok_def activated_info_def split: if_splits)
  moreover have "distinct (vs_activation_queue ?t)" using dq by (subst (asm) q) simp
  moreover have "\<exists>i. hm_get (vs_validators ?t) a = Some i
      \<and> (vi_status i = Pending \<or> vi_status i = Slashed)"
    if "a \<in> set (vs_activation_queue ?t)" for a
  proof -
    have "a \<in> set (vs_activation_queue s)" using that by (subst q) simp
    with inv apart [OF that] show ?thesis by (simp add: vs_inv_def get)
  qed
  moreover have "a \<in> set (vs_activation_queue ?t)"
    if a: "hm_get (vs_validators ?t) a = Some i" "vi_status i = Pending" for a i
  proof -
    have out: "a \<notin> set chosen" using a by (auto simp: get activated_info_def)
    then have pend: "is_pending (vs_validators s) a" using a by (auto simp: get is_pending_def)
    then have "a \<in> set (vs_activation_queue s)"
      using inv by (auto simp: vs_inv_def is_pending_def)
    moreover have "a \<notin> set p" using out pend unfolding p [symmetric] by simp
    ultimately show ?thesis by (subst (asm) q) simp
  qed
  ultimately show ?thesis using inv unfolding vs_inv_def by simp
qed

lemma vs_step_inv: "vs_inv s \<Longrightarrow> vs_inv (vs_step s op)"
  by (cases op)
    (auto intro!: vs_inv_or_unchanged process_activations_inv process_exits_inv
      dest: enqueue_inv set_weight_inv begin_exit_inv slash_inv)

lemma genesis_entry_inv:
  assumes "vs_inv s" "fst e \<notin> set (vs_order s)" "vs_activation_queue s = []"
  shows "vs_inv (genesis_entry s e)"
proof -
  obtain a w where e: "e = (a, w)" by (cases e)
  define info where "info = (validator_info_new a)\<lparr>vi_weight := clamp w 1 MAX_VALIDATOR_WEIGHT,
    vi_activation_epoch := Some 0\<rparr>"
  have info: "info_ok a info" "vi_status info = Active"
    using clamp_bounds [of 1 MAX_VALIDATOR_WEIGHT w]
    by (auto simp: info_def info_ok_def validator_info_new_def)
  have "dom (hm_get (hm_insert (vs_validators s) a info)) =
          insert a (dom (hm_get (vs_validators s)))"
    by (auto simp: hm_get_insert split: if_splits)
  with assms info show ?thesis
    unfolding vs_inv_def genesis_entry_def e prod.case Let_def info_def [symmetric]
    by (auto simp: hm_get_insert)
qed

lemma foldl_genesis_inv:
  assumes "vs_inv s" "vs_activation_queue s = []"
    "distinct (map fst es)" "set (map fst es) \<inter> set (vs_order s) = {}"
  shows "vs_inv (foldl genesis_entry s es)"
  using assms
proof (induction es arbitrary: s)
  case (Cons e es)
  have "vs_inv (genesis_entry s e)" using Cons.prems by (intro genesis_entry_inv) auto
  moreover have "vs_order (genesis_entry s e) = vs_order s @ [fst e]"
    "vs_activation_queue (genesis_entry s e) = vs_activation_queue s"
    by (auto simp: genesis_entry_def Let_def split: prod.split)
  ultimately show ?case using Cons.prems Cons.IH by simp
qed simp

lemma validator_set_new_inv: "vs_inv (validator_set_new config)"
  by (auto simp: vs_inv_def validator_set_new_def hm_get_new)

lemma from_genesis_inv: "distinct (map fst es) \<Longrightarrow> vs_inv (from_genesis es config)"
  unfolding from_genesis_def
  by (rule foldl_genesis_inv) (simp_all add: validator_set_new_inv, simp_all add: validator_set_new_def)

section \<open>Progress along the lifecycle\<close>

lemma rank_of_insert:
  "rank_of (s\<lparr>vs_validators := hm_insert (vs_validators s) a j\<rparr>) b =
     (if b = a then status_rank (vi_status j) else rank_of s b)"
  by (simp add: rank_of_def hm_get_insert)

lemma status_rank_le_5: "status_rank st \<le> 5"
  by (cases st) auto

lemma rank_of_Some: "hm_get (vs_validators s) a = Some i \<Longrightarrow> rank_of s a = status_rank (vi_status i)"
  by (simp add: rank_of_def)

lemma ranks_step: "vs_inv s \<Longrightarrow> ranks_before s (vs_step s op)"
proof (cases op)
  case (Enqueue a)
  then show ?thesis
    by (auto simp: ranks_before_def or_unchanged_def enqueue_def hm_contains_def rank_of_def
        hm_get_insert)
next
  case (SetWeight a w)
  then show ?thesis
    by (auto simp: ranks_before_def or_unchanged_def set_weight_def rank_of_insert rank_of_Some
        split: option.split)
next
  case (ProcessActivations e)
  assume "vs_inv s"
  note dq = vs_inv_queue_distinct [OF this]
  have "rank_of s a \<le> rank_of (process_activations s e) a" for a
  proof (cases "a \<in> set (take (unat (max_activations_per_epoch (vs_config s)))
      (filter (is_pending (vs_validators s)) (vs_activation_queue s)))")
    case True
    then have "is_pending (vs_validators s) a" by (auto dest: in_set_takeD)
    with True show ?thesis
      by (auto simp: rank_of_def process_activations_get [OF dq] is_pending_def activated_info_def)
  next
    case False
    then show ?thesis by (simp add: rank_of_def process_activations_get [OF dq])
  qed
  with ProcessActivations show ?thesis by (simp add: ranks_before_def)
next
  case (ProcessExits e)
  have "status_rank (vi_status i) \<le> status_rank (vi_status (finish_exit e i))" for i
    by (simp add: finish_exit_def split: validator_status.split)
  with ProcessExits show ?thesis
    by (simp add: ranks_before_def rank_of_def process_exits_def hm_get_map split: option.split)
next
  case (BeginExit a e)
  then show ?thesis
    by (auto simp: ranks_before_def or_unchanged_def begin_exit_def rank_of_insert rank_of_Some
        status_is_active_iff split: option.split)
next
  case (Slash a e)
  then show ?thesis
    by (auto simp: ranks_before_def or_unchanged_def slash_def rank_of_insert rank_of_Some
        status_rank_le_5 split: option.split)
qed

lemma ranks_before_refl: "ranks_before s s"
  by (simp add: ranks_before_def)

lemma ranks_before_trans: "ranks_before s t \<Longrightarrow> ranks_before t u \<Longrightarrow> ranks_before s u"
  unfolding ranks_before_def by (meson order_trans)

interpretation lifecycle: progress_machine vs_step vs_inv ranks_before
  by unfold_locales (fact vs_step_inv ranks_before_refl ranks_before_trans ranks_step)+

lemma active_rank: "vs_is_active s a \<Longrightarrow> rank_of s a = 2"
  by (auto simp: vs_is_active_iff rank_of_def)

section \<open>Proposer selection implements weighted selection\<close>

definition weight_entries :: "validator_set \<Rightarrow> (address \<times> nat) list" where
  "weight_entries s = map (\<lambda>v. (vi_address v, unat (vi_weight v))) (active_validators s)"

lemma slot_walk_pick:
  assumes "unat cum \<le> unat slot"
    and "unat slot < unat cum + sum_list (map (\<lambda>v. unat (vi_weight v)) vs)"
    and "unat cum + sum_list (map (\<lambda>v. unat (vi_weight v)) vs) < 2 ^ 64"
  shows "slot_walk slot cum latest vs =
           weighted_pick (unat slot - unat cum) (map (\<lambda>v. (vi_address v, unat (vi_weight v))) vs)"
  using assms
proof (induction vs arbitrary: cum latest)
  case (Cons v vs)
  have fits: "unat cum + unat (vi_weight v) < 2 ^ LENGTH(64)" using Cons.prems(3) by simp
  then have add: "checked_add cum (vi_weight v) = Some (cum + vi_weight v)"
    by (simp add: checked_add_Some_iff)
  have c: "unat (cum + vi_weight v) = unat cum + unat (vi_weight v)"
    using fits by (rule unat_plus_fits)
  show ?case
  proof (cases "slot < cum + vi_weight v")
    case True
    then have "unat slot - unat cum < unat (vi_weight v)"
      using Cons.prems(1) c by (simp add: word_less_nat_alt)
    with True add show ?thesis by simp
  next
    case False
    then have le: "unat cum + unat (vi_weight v) \<le> unat slot"
      using c by (simp add: word_less_nat_alt)
    then have "\<not> unat slot - unat cum < unat (vi_weight v)" by linarith
    with le False add Cons.IH [of "cum + vi_weight v"] Cons.prems c show ?thesis by simp
  qed
qed simp

definition total_active_weight :: "validator_set \<Rightarrow> nat" where
  "total_active_weight s = sum_list (map (\<lambda>v. unat (vi_weight v)) (active_validators s))"

lemma total_of_weight_entries: "total_of (weight_entries s) = total_active_weight s"
  by (simp add: total_of_def weight_entries_def total_active_weight_def o_def)

lemma total_active_weight_pos:
  assumes "vs_inv s" "active_validators s \<noteq> []"
  shows "0 < total_active_weight s"
proof -
  obtain v vs where v: "active_validators s = v # vs" using assms(2) by (cases "active_validators s") auto
  then have "hm_get (vs_validators s) (vi_address v) = Some v"
    using active_validators_get [OF assms(1), of v] by simp
  then have "1 \<le> vi_weight v" using vs_inv_get [OF assms(1)] by (auto simp: info_ok_def)
  then show ?thesis by (simp add: total_active_weight_def v word_le_nat_alt)
qed

lemma weighted_proposer_refines:
  assumes inv: "vs_inv s" and some: "active_validators s \<noteq> []" and fits: "total_active_weight s < 2 ^ 64"
  shows "weighted_proposer s n =
           weighted_pick (unat n mod total_active_weight s) (weight_entries s)"
proof -
  let ?ws = "map vi_weight (active_validators s)"
  have sum: "sum_list (map unat ?ws) = total_active_weight s"
    by (simp add: total_active_weight_def o_def)
  have un: "unat (of_nat (total_active_weight s) :: u64) = total_active_weight s"
    using fits by (simp add: unat_of_nat)
  have checked: "checked_sum_from 0 ?ws = Some (of_nat (total_active_weight s))"
    unfolding checked_sum_from_Some_iff un sum using fits by simp
  have pos: "0 < total_active_weight s" by (rule total_active_weight_pos [OF inv some])
  then have nz: "(of_nat (total_active_weight s) :: u64) \<noteq> 0" using un by auto
  let ?slot = "n mod of_nat (total_active_weight s)"
  have slot: "unat ?slot = unat n mod total_active_weight s" by (simp add: unat_mod un)
  have "weighted_proposer s n = slot_walk ?slot 0 None (active_validators s)"
    using checked nz by (simp add: weighted_proposer_def)
  also have "\<dots> = weighted_pick (unat ?slot - unat (0 :: u64)) (weight_entries s)"
    unfolding weight_entries_def
    by (rule slot_walk_pick)
      (use pos fits in \<open>simp_all add: slot total_active_weight_def [symmetric]\<close>)
  finally show ?thesis by (simp add: slot)
qed

text \<open>A window of as many consecutive numbers as the modulus meets every residue once.\<close>

lemma card_residue_window:
  fixes t b :: nat
  assumes "0 < t"
  shows "card {n. b \<le> n \<and> n < b + t \<and> P (n mod t)} = card {r. r < t \<and> P r}"
proof (induction b)
  case 0
  have "{n. 0 \<le> n \<and> n < 0 + t \<and> P (n mod t)} = {r. r < t \<and> P r}" by auto
  then show ?case by simp
next
  case (Suc b)
  let ?mid = "{n. b < n \<and> n < b + t \<and> P (n mod t)}"
  have fin: "finite ?mid" by simp
  have "{n. b \<le> n \<and> n < b + t \<and> P (n mod t)} = (if P (b mod t) then insert b ?mid else ?mid)"
    using assms by (auto simp: le_less)
  moreover have "{n. Suc b \<le> n \<and> n < Suc b + t \<and> P (n mod t)} =
                   (if P (b mod t) then insert (b + t) ?mid else ?mid)"
    using assms by (auto simp: less_Suc_eq Suc_le_eq)
  ultimately show ?case using Suc fin assms by (simp split: if_splits)
qed

section \<open>Leaving the active set\<close>

lemma active_count_card: "vs_inv s \<Longrightarrow> active_count s = card {a. vs_is_active s a}"
  using distinct_card [OF distinct_active_addresses, of s]
  by (simp add: set_active_addresses [symmetric] active_count_eq)

lemma finite_active: "vs_inv s \<Longrightarrow> finite {a. vs_is_active s a}"
  by (simp add: set_active_addresses [symmetric])

lemma begin_exit_active:
  assumes "begin_exit s a e = Inr t"
  shows "{b. vs_is_active t b} = {b. vs_is_active s b} - {a}" and "vs_is_active s a"
    and "1 < active_count s"
  using assms
  by (auto simp: begin_exit_def vs_is_active_iff status_is_active_iff hm_get_insert
      split: if_splits option.splits)

section \<open>Properties\<close>

text \<open>
  C30: starting from any genesis list of distinct addresses, every sequence of lifecycle
  operations, whether they succeed or fail, keeps the validator set well formed: the order lists
  every tracked validator exactly once, every weight lies between 1 and
  \<open>MAX_VALIDATOR_WEIGHT\<close>, and the activation queue holds every pending validator and no
  validator that was ever active.
\<close>

theorem validator_set_well_formed:
  assumes "distinct (map fst entries)"
  shows "vs_inv (foldl vs_step (from_genesis entries config) ops)"
  by (rule lifecycle.inv_run) (rule from_genesis_inv [OF assms])

theorem validator_set_well_formed_witness:
  "vs_inv (foldl vs_step (from_genesis [(Address 1, 5), (Address 2, 0)] validator_set_config_default)
             [Enqueue (Address 3), ProcessActivations 1, BeginExit (Address 1) 1, ProcessExits 3,
              Slash (Address 2) 4])"
  by (rule validator_set_well_formed) simp

text \<open>
  The lifecycle only moves forward: a validator that is exiting, has exited or was slashed
  is never active again, whatever operations follow.
\<close>

theorem retired_never_active_again:
  assumes "distinct (map fst entries)"
    and "s = foldl vs_step (from_genesis entries config) before"
    and "vs_get s a = Some i"
    and "vi_status i = Exited \<or> vi_status i = Slashed \<or> (\<exists>e. vi_status i = Exiting e)"
  shows "\<not> vs_is_active (foldl vs_step s after) a"
proof -
  have "vs_inv s" unfolding assms(2) by (intro lifecycle.inv_run from_genesis_inv assms(1))
  then have "rank_of s a \<le> rank_of (foldl vs_step s after) a"
    using lifecycle.before_run [of s after] by (simp add: ranks_before_def)
  moreover have "3 \<le> rank_of s a" using assms(3,4) by (auto simp: rank_of_def vs_get_def)
  ultimately show ?thesis using active_rank by fastforce
qed

theorem retired_never_active_again_witness:
  "\<not> vs_is_active
     (foldl vs_step
        (foldl vs_step (from_genesis [(Address 1, 5), (Address 2, 1)] validator_set_config_default)
           [Slash (Address 1) 1])
        [Enqueue (Address 1), ProcessActivations 2, SetWeight (Address 1) 7]) (Address 1)"
proof -
  let ?g = "from_genesis [(Address 1, 5), (Address 2, 1)] validator_set_config_default"
  have "\<exists>i. vs_get (foldl vs_step ?g [Slash (Address 1) 1]) (Address 1) = Some i
            \<and> vi_status i = Slashed"
    by (simp add: from_genesis_def genesis_entry_def validator_set_new_def slash_def vs_get_def
        or_unchanged_def hm_get_insert)
  then obtain i where
    i: "vs_get (foldl vs_step ?g [Slash (Address 1) 1]) (Address 1) = Some i" "vi_status i = Slashed"
    by blast
  show ?thesis by (rule retired_never_active_again [OF _ refl i(1)]) (simp_all add: i(2))
qed

text \<open>
  A successful exit request removes exactly the requesting validator from the active set, and
  at least one active validator is left.
\<close>

theorem begin_exit_leaves_a_validator:
  assumes "vs_inv s" and "begin_exit s a epoch = Inr t"
  shows "{b. vs_is_active t b} = {b. vs_is_active s b} - {a} \<and>
         active_count t + 1 = active_count s \<and> 1 \<le> active_count t"
proof -
  note act = begin_exit_active [OF assms(2)]
  have "vs_inv t" by (rule begin_exit_inv [OF assms])
  then have "active_count t + 1 = active_count s"
    using act(2) card_Suc_Diff1 [OF finite_active [OF assms(1)], of a]
    by (simp add: active_count_card assms(1) act(1))
  with act show ?thesis by simp
qed

lemmas vs_eval =
  from_genesis_def genesis_entry_def validator_set_new_def validator_set_config_default_def
  validator_info_new_def clamp_def active_count_def
  active_validators_def map_filter_simps hm_get_insert hm_get_new vs_get_def

theorem begin_exit_leaves_a_validator_witness:
  "\<exists>t. begin_exit (from_genesis [(Address 1, 5), (Address 2, 1)] validator_set_config_default)
          (Address 1) 7 = Inr t \<and> 1 \<le> active_count t"
proof -
  let ?s = "from_genesis [(Address 1, 5), (Address 2, 1)] validator_set_config_default"
  have "\<exists>t. begin_exit ?s (Address 1) 7 = Inr t" by (simp add: begin_exit_def vs_eval)
  then obtain t where t: "begin_exit ?s (Address 1) 7 = Inr t" by blast
  have "vs_inv ?s" by (rule from_genesis_inv) simp
  from begin_exit_leaves_a_validator [OF this t] t show ?thesis by blast
qed

text \<open>
  C29: weighted round robin is fair and total: in any window of as many consecutive block numbers
  as the active weights add up to, every active validator is the expected proposer of exactly as
  many blocks as its weight.
\<close>

theorem weighted_proposer_fair:
  assumes inv: "vs_inv s" and a: "vs_get s a = Some i" "vi_status i = Active"
    and window: "b + total_active_weight s < 2 ^ 64"
  shows "card {n. b \<le> n \<and> n < b + total_active_weight s \<and>
                  weighted_proposer s (of_nat n) = Some a} = unat (vi_weight i)"
proof -
  let ?W = "total_active_weight s"
  have act: "vs_is_active s a" using a by (simp add: vs_is_active_iff vs_get_def)
  then have "a \<in> set (map vi_address (active_validators s))"
    using set_active_addresses [OF inv] by simp
  then obtain v where v: "v \<in> set (active_validators s)" "vi_address v = a" by auto
  then have "v = i" using active_validators_get [OF inv v(1)] a(1) by (simp add: vs_get_def)
  with v have entry: "(a, unat (vi_weight i)) \<in> set (weight_entries s)"
    by (force simp: weight_entries_def)
  have some: "active_validators s \<noteq> []" using v by auto
  have pos: "0 < ?W" by (rule total_active_weight_pos [OF inv some])
  have "{n. b \<le> n \<and> n < b + ?W \<and> weighted_proposer s (of_nat n) = Some a} =
        {n. b \<le> n \<and> n < b + ?W \<and> weighted_pick (n mod ?W) (weight_entries s) = Some a}"
    using window by (auto simp: weighted_proposer_refines [OF inv some] unat_of_nat)
  also have "card \<dots> = card {r. r < ?W \<and> weighted_pick r (weight_entries s) = Some a}"
    using pos by (rule card_residue_window)
  also have "{r. r < ?W \<and> weighted_pick r (weight_entries s) = Some a} =
             {r. weighted_pick r (weight_entries s) = Some a}"
    using weighted_pick_bound [of _ "weight_entries s" a] by (auto simp: total_of_weight_entries)
  also have "card \<dots> = unat (vi_weight i)"
    unfolding card_pick_tickets
    by (rule total_of_own_entry [OF _ entry])
      (use distinct_active_addresses [OF inv] in \<open>simp add: weight_entries_def o_def\<close>)
  finally show ?thesis .
qed

theorem weighted_proposer_fair_witness:
  "card {n. 10 \<le> n \<and> n < 10 + 4 \<and>
     weighted_proposer (from_genesis [(Address 1, 3), (Address 2, 0)] validator_set_config_default)
       (of_nat n) = Some (Address 1)} = 3"
proof -
  let ?s = "from_genesis [(Address 1, 3), (Address 2, 0)] validator_set_config_default"
  have W: "total_active_weight ?s = 4" by (simp add: total_active_weight_def vs_eval)
  have inv: "vs_inv ?s" by (rule from_genesis_inv) simp
  obtain i where i: "vs_get ?s (Address 1) = Some i" "vi_status i = Active" "vi_weight i = 3"
    by (simp add: vs_eval)
  from weighted_proposer_fair [OF inv i(1,2), of 10] show ?thesis by (simp add: W i(3))
qed

text \<open>
  There is an expected proposer exactly when some validator is active, and it is an active
  validator.
\<close>

theorem weighted_proposer_is_active:
  assumes inv: "vs_inv s" and fits: "total_active_weight s < 2 ^ 64"
  shows "case weighted_proposer s n of
           None \<Rightarrow> active_count s = 0
         | Some a \<Rightarrow> 0 < active_count s \<and> vs_is_active s a"
proof (cases "active_validators s = []")
  case True
  then show ?thesis by (simp add: weighted_proposer_def active_count_eq)
next
  case False
  let ?slot = "unat n mod total_active_weight s"
  have "?slot < total_of (weight_entries s)"
    using total_active_weight_pos [OF inv False] by (simp add: total_of_weight_entries)
  then obtain a where pick: "weighted_pick ?slot (weight_entries s) = Some a"
    using weighted_pick_Some by blast
  then have "a \<in> set (map vi_address (active_validators s))"
    by (auto dest!: weighted_pick_in simp: weight_entries_def)
  then have "vs_is_active s a" using set_active_addresses [OF inv] by simp
  with pick False show ?thesis
    by (simp add: weighted_proposer_refines [OF inv False fits] active_count_eq)
qed

theorem weighted_proposer_is_active_witness:
  "case weighted_proposer
          (from_genesis [(Address 1, 3), (Address 2, 2)] validator_set_config_default) 8 of
     None \<Rightarrow> False | Some a \<Rightarrow>
       vs_is_active (from_genesis [(Address 1, 3), (Address 2, 2)] validator_set_config_default) a"
proof -
  let ?s = "from_genesis [(Address 1, 3), (Address 2, 2)] validator_set_config_default"
  have W: "total_active_weight ?s < 2 ^ 64" "active_count ?s \<noteq> 0"
    by (simp_all add: total_active_weight_def vs_eval)
  have "vs_inv ?s" by (rule from_genesis_inv) simp
  from weighted_proposer_is_active [OF this W(1), of 8] W(2) show ?thesis
    by (cases "weighted_proposer ?s 8") (simp_all only: option.case)
qed

text \<open>
  The activation queue is first in, first out and throttled: one call of
  \<open>process_activations\<close> activates exactly the first pending validators of the queue, at most
  \<open>max_activations_per_epoch\<close> of them, and changes nothing else of the active set.
\<close>

theorem process_activations_fifo:
  assumes "vs_inv s"
  shows "{a. vs_is_active (process_activations s epoch) a} =
           {a. vs_is_active s a} \<union>
           set (take (unat (max_activations_per_epoch (vs_config s)))
                  (filter (is_pending (vs_validators s)) (vs_activation_queue s)))
       \<and> vs_inv (process_activations s epoch)"
proof -
  let ?chosen = "take (unat (max_activations_per_epoch (vs_config s)))
    (filter (is_pending (vs_validators s)) (vs_activation_queue s))"
  note get = process_activations_get [OF vs_inv_queue_distinct [OF assms], of epoch]
  have "vs_is_active (process_activations s epoch) a \<longleftrightarrow> vs_is_active s a \<or> a \<in> set ?chosen" for a
  proof (cases "a \<in> set ?chosen")
    case True
    then have "is_pending (vs_validators s) a" by (auto dest: in_set_takeD)
    then obtain i where "hm_get (vs_validators s) a = Some i" by (auto simp: is_pending_def)
    with True show ?thesis by (simp add: vs_is_active_iff get activated_info_def)
  next
    case False
    then show ?thesis by (simp add: vs_is_active_iff get)
  qed
  with process_activations_inv [OF assms, of epoch] show ?thesis by blast
qed

theorem process_activations_fifo_witness:
  "vs_is_active
     (process_activations
        (foldl vs_step (from_genesis [(Address 1, 3)] validator_set_config_default)
           [Enqueue (Address 2)]) 4) (Address 2)"
proof -
  let ?s = "foldl vs_step (from_genesis [(Address 1, 3)] validator_set_config_default)
              [Enqueue (Address 2)]"
  have "vs_inv ?s" by (intro lifecycle.inv_run from_genesis_inv) simp
  moreover have "Address 2 \<in> set (take (unat (max_activations_per_epoch (vs_config ?s)))
      (filter (is_pending (vs_validators ?s)) (vs_activation_queue ?s)))"
    by (simp add: vs_eval enqueue_def or_unchanged_def hm_contains_def is_pending_def
        validator_info_pending_def)
  ultimately show ?thesis using process_activations_fifo [of ?s 4] by blast
qed

end
