(* ===== verification/Quorum.thy ===== *)
theory Quorum
  imports Shell_Prelude
begin

text \<open>
  Weighted quorums. Finality (\<open>FinalityState::strict_quorum_weight\<close>) and view changes
  (\<open>view_change_quorum_weight\<close>, \<open>configure_quorum\<close>) count the weight of the validators
  that agree and compare it with a threshold computed from the total weight. The locale states
  what such a threshold promises on the totals it is used for, and proves the overlap of two
  quorums, on which the agreement properties of the development rest.
\<close>

locale quorum_rule =
  fixes threshold :: "nat \<Rightarrow> nat"
    and capacity :: nat
  assumes two_thirds: "t < capacity \<Longrightarrow> 2 * t \<le> 3 * threshold t"
begin

lemma overlap_weight:
  assumes "finite V" "A \<subseteq> V" "B \<subseteq> V" and cap: "sum w V < capacity"
    and A: "threshold (sum w V) \<le> sum w A" and B: "threshold (sum w V) \<le> sum w B"
  shows "sum w V \<le> 3 * sum w (A \<inter> B)"
proof -
  have "finite A" "finite B" using assms(1-3) by (auto intro: finite_subset)
  then have "sum w (A \<union> B) + sum w (A \<inter> B) = sum w A + sum w B" by (rule sum.union_inter)
  moreover have "sum w (A \<union> B) \<le> sum w V" using assms(1-3) by (intro sum_mono2) auto
  ultimately show ?thesis using two_thirds [OF cap] A B by linarith
qed

end

locale strict_quorum_rule = quorum_rule +
  assumes more_than_two_thirds:
    "0 < t \<Longrightarrow> t < capacity \<Longrightarrow> 2 * t < 3 * threshold t"
begin

lemma overlap_exceeds_third:
  assumes "finite V" "A \<subseteq> V" "B \<subseteq> V" and pos: "0 < sum w V" and cap: "sum w V < capacity"
    and A: "threshold (sum w V) \<le> sum w A" and B: "threshold (sum w V) \<le> sum w B"
  shows "sum w V < 3 * sum w (A \<inter> B)"
proof -
  have "finite A" "finite B" using assms(1-3) by (auto intro: finite_subset)
  then have "sum w (A \<union> B) + sum w (A \<inter> B) = sum w A + sum w B" by (rule sum.union_inter)
  moreover have "sum w (A \<union> B) \<le> sum w V" using assms(1-3) by (intro sum_mono2) auto
  ultimately show ?thesis using more_than_two_thirds [OF pos cap] A B by linarith
qed

text \<open>With faulty weight of at most one third, two quorums share a validator that is not faulty.\<close>

lemma overlap_not_faulty:
  assumes "finite V" "A \<subseteq> V" "B \<subseteq> V" "0 < sum w V" "sum w V < capacity"
    and "threshold (sum w V) \<le> sum w A" "threshold (sum w V) \<le> sum w B"
    and faulty: "3 * sum w (F \<inter> V) \<le> sum w V"
  shows "\<exists>v \<in> A \<inter> B. v \<notin> F"
proof (rule ccontr)
  assume "\<not> (\<exists>v \<in> A \<inter> B. v \<notin> F)"
  then have "A \<inter> B \<subseteq> F \<inter> V" using assms(2) by blast
  then have "sum w (A \<inter> B) \<le> sum w (F \<inter> V)" using assms(1) by (intro sum_mono2) auto
  moreover have "sum w V < 3 * sum w (A \<inter> B)" using assms(1-7) by (rule overlap_exceeds_third)
  ultimately show False using faulty by linarith
qed

end

end
