(* ===== verification/Finality.thy ===== *)
theory Finality
  imports Consensus_Base Quorum
begin

text \<open>
  \<open>crates/consensus/src/finality.rs\<close>: attestations, their signing payload, and the finality
  state that collects them and advances the last finalized block when more than two thirds of the
  validator weight has attested. The count-based \<open>quorum_threshold\<close> and the count of all pending
  attestations, which only read, are left out.
\<close>

section \<open>Attestations\<close>

abbreviation (input) MAX_PENDING_ATTESTATION_BLOCKS :: usize where
  "MAX_PENDING_ATTESTATION_BLOCKS \<equiv> 512"

abbreviation (input) ATTESTATION_EPOCH_BLOCKS :: u64 where
  "ATTESTATION_EPOCH_BLOCKS \<equiv> 1000"

abbreviation (input) ATTEST_DOMAIN :: "u8 list" where
  "ATTEST_DOMAIN \<equiv> ascii ''SHELL_ATTEST_V1'' @ [0]"

record attestation =
  at_chain_id :: u64
  at_parent_hash :: shell_hash
  at_block_hash :: shell_hash
  at_block_number :: u64
  at_validator :: address
  at_round :: u64
  at_signature :: "u8 list"

definition attestation_new ::
  "u64 \<Rightarrow> shell_hash \<Rightarrow> shell_hash \<Rightarrow> u64 \<Rightarrow> address \<Rightarrow> u64 \<Rightarrow> u8 list \<Rightarrow> attestation" where
  "attestation_new chain_id parent_hash block_hash block_number validator rnd signature =
     \<lparr>at_chain_id = chain_id, at_parent_hash = parent_hash, at_block_hash = block_hash,
      at_block_number = block_number, at_validator = validator, at_round = rnd,
      at_signature = signature\<rparr>"

definition attestation_epoch_of :: "u64 \<Rightarrow> u64" where
  "attestation_epoch_of block_number = block_number div ATTESTATION_EPOCH_BLOCKS"

definition attestation_signing_message ::
  "u64 \<Rightarrow> shell_hash \<Rightarrow> shell_hash \<Rightarrow> u64 \<Rightarrow> u64 \<Rightarrow> u8 list" where
  "attestation_signing_message chain_id parent_hash block_hash block_number rnd =
     ATTEST_DOMAIN
     @ be_bytes 8 chain_id
     @ be_bytes 8 (attestation_epoch_of block_number)
     @ hash_as_bytes parent_hash
     @ hash_as_bytes block_hash
     @ be_bytes 8 block_number
     @ be_bytes 8 rnd"

definition attestation_own_signing_message :: "attestation \<Rightarrow> u8 list" where
  "attestation_own_signing_message a =
     attestation_signing_message (at_chain_id a) (at_parent_hash a) (at_block_hash a)
       (at_block_number a) (at_round a)"

section \<open>Finality state\<close>

record finality_state =
  last_finalized_number :: u64
  last_finalized_hash :: shell_hash
  pending_attestations :: "(shell_hash, address fset) hashmap"
  pending_attested_weight :: "(shell_hash, u64) hashmap"
  attestation_store :: "(shell_hash, attestation list) hashmap"
  attested_block_by_height :: "(u64 \<times> address, shell_hash) hashmap"

definition with_finalized :: "u64 \<Rightarrow> shell_hash \<Rightarrow> finality_state" where
  "with_finalized n h =
     \<lparr>last_finalized_number = n, last_finalized_hash = h,
      pending_attestations = hm_new, pending_attested_weight = hm_new,
      attestation_store = hm_new, attested_block_by_height = hm_new\<rparr>"

definition finality_state_new :: finality_state where
  "finality_state_new =
     \<lparr>last_finalized_number = 0, last_finalized_hash = hash_zero,
      pending_attestations = hm_new, pending_attested_weight = hm_new,
      attestation_store = hm_new, attested_block_by_height = hm_new\<rparr>"

text \<open>The first stored attestation of a block, against which later ones are compared.\<close>

definition first_attestation :: "finality_state \<Rightarrow> shell_hash \<Rightarrow> attestation option" where
  "first_attestation s h =
     (case hm_get (attestation_store s) h of
        None \<Rightarrow> None
      | Some [] \<Rightarrow> None
      | Some (a # _) \<Rightarrow> Some a)"

definition same_context :: "attestation \<Rightarrow> attestation \<Rightarrow> bool" where
  "same_context a b \<longleftrightarrow>
     at_chain_id a = at_chain_id b \<and> at_parent_hash a = at_parent_hash b
     \<and> at_block_number a = at_block_number b \<and> at_round a = at_round b"

definition record_attestation_weighted ::
  "finality_state \<Rightarrow> attestation \<Rightarrow> u64 \<Rightarrow> bool \<times> finality_state" where
  "record_attestation_weighted s att weight =
     (let h = at_block_hash att; v = at_validator att in
      if weight = 0 \<or> at_block_number att \<le> last_finalized_number s then (False, s)
      else if (case first_attestation s h of None \<Rightarrow> False | Some ex \<Rightarrow> \<not> same_context ex att)
      then (False, s)
      else if \<not> hm_contains (pending_attestations s) h
              \<and> MAX_PENDING_ATTESTATION_BLOCKS \<le> hm_len (pending_attestations s)
      then (False, s)
      else
        let validators = hm_get_or (pending_attestations s) h {||};
            is_new = (v |\<notin>| validators);
            s = s\<lparr>pending_attestations := hm_insert (pending_attestations s) h (finsert v validators)\<rparr>
        in if is_new
           then (True, s\<lparr>
             pending_attested_weight :=
               hm_insert (pending_attested_weight s) h
                 (case hm_get (pending_attested_weight s) h of
                    Some w \<Rightarrow> sat_add w weight
                  | None \<Rightarrow> weight),
             attestation_store :=
               hm_insert (attestation_store s) h (hm_get_or (attestation_store s) h [] @ [att]),
             attested_block_by_height :=
               hm_insert (attested_block_by_height s) (at_block_number att, v)
                 (hm_get_or (attested_block_by_height s) (at_block_number att, v) h)\<rparr>)
           else (False, s))"

definition record_attestation :: "finality_state \<Rightarrow> attestation \<Rightarrow> bool \<times> finality_state" where
  "record_attestation s att = record_attestation_weighted s att 1"

definition attested_weight :: "finality_state \<Rightarrow> shell_hash \<Rightarrow> u64" where
  "attested_weight s h = hm_get_or (pending_attested_weight s) h 0"

definition strict_quorum_weight :: "u64 \<Rightarrow> u64" where
  "strict_quorum_weight total_weight =
     (if total_weight = 0 then 0
      else u64_of_u128_or_max ((ucast total_weight :: u128) * 2 div 3 + 1))"

definition has_weighted_quorum :: "u64 \<Rightarrow> u64 \<Rightarrow> bool" where
  "has_weighted_quorum attested total_weight =
     (strict_quorum_weight total_weight \<le> attested \<and> 0 < total_weight)"

text \<open>On counts of at most \<open>2 ^ 64 - 1\<close> neither the 128-bit product nor the conversion saturates.\<close>

definition can_finalize_weighted :: "finality_state \<Rightarrow> shell_hash \<Rightarrow> u64 \<Rightarrow> u64 \<Rightarrow> bool" where
  "can_finalize_weighted s h n total_weight =
     (if (case first_attestation s h of None \<Rightarrow> True | Some a \<Rightarrow> at_block_number a \<noteq> n) then False
      else has_weighted_quorum (attested_weight s h) total_weight \<and> last_finalized_number s < n)"

definition stale_hashes :: "finality_state \<Rightarrow> u64 \<Rightarrow> shell_hash list" where
  "stale_hashes s n =
     map fst (filter (\<lambda>(h, atts). case atts of [] \<Rightarrow> False | a # _ \<Rightarrow> at_block_number a \<le> n)
                (hm_entries (attestation_store s)))"

definition remove_block :: "finality_state \<Rightarrow> shell_hash \<Rightarrow> finality_state" where
  "remove_block s h =
     s\<lparr>pending_attestations := hm_remove (pending_attestations s) h,
       pending_attested_weight := hm_remove (pending_attested_weight s) h,
       attestation_store := hm_remove (attestation_store s) h\<rparr>"

definition fs_prune_below :: "finality_state \<Rightarrow> u64 \<Rightarrow> finality_state" where
  "fs_prune_below s n =
     (let s' = foldl remove_block s (stale_hashes s n)
      in s'\<lparr>attested_block_by_height :=
              hm_retain (\<lambda>k _. n < fst k) (attested_block_by_height s')\<rparr>)"

definition check_finality_weighted ::
  "finality_state \<Rightarrow> shell_hash \<Rightarrow> u64 \<Rightarrow> u64 \<Rightarrow> bool \<times> finality_state" where
  "check_finality_weighted s h n total_weight =
     (if can_finalize_weighted s h n total_weight
      then (True, fs_prune_below (s\<lparr>last_finalized_number := n, last_finalized_hash := h\<rparr>) n)
      else (False, s))"

definition set_finalized_direct ::
  "finality_state \<Rightarrow> u64 \<Rightarrow> shell_hash \<Rightarrow> bool \<times> finality_state" where
  "set_finalized_direct s n h =
     (if last_finalized_number s < n
      then (True, fs_prune_below (s\<lparr>last_finalized_number := n, last_finalized_hash := h\<rparr>) n)
      else (False, s))"

definition attestation_count :: "finality_state \<Rightarrow> shell_hash \<Rightarrow> usize" where
  "attestation_count s h =
     (case hm_get (pending_attestations s) h of None \<Rightarrow> 0 | Some vs \<Rightarrow> fcard vs)"

definition get_attestations :: "finality_state \<Rightarrow> shell_hash \<Rightarrow> attestation list option" where
  "get_attestations s h = hm_get (attestation_store s) h"

definition has_attested :: "finality_state \<Rightarrow> shell_hash \<Rightarrow> address \<Rightarrow> bool" where
  "has_attested s h v =
     (case hm_get (pending_attestations s) h of None \<Rightarrow> False | Some vs \<Rightarrow> v |\<in>| vs)"

definition detect_equivocation ::
  "finality_state \<Rightarrow> shell_hash \<Rightarrow> u64 \<Rightarrow> address \<Rightarrow> shell_hash option" where
  "detect_equivocation s h n v =
     (case hm_get (attested_block_by_height s) (n, v) of
        None \<Rightarrow> None
      | Some h' \<Rightarrow> if h' \<noteq> h then Some h' else None)"

text \<open>\<open>batch_verify\<close> is the \<open>verify_batch\<close> of the batch verifier that the caller passes.\<close>

definition attestation_pq_signature ::
  "registry_env \<Rightarrow> hash_fn \<Rightarrow> (address, u8 list) hashmap \<Rightarrow> attestation \<Rightarrow>
     crypto_error + pq_signature" where
  "attestation_pq_signature env blake3 authorities att =
     (case hm_get authorities (at_validator att) of
        None \<Rightarrow> Inl VerificationFailed
      | Some pubkey \<Rightarrow>
          (case infer_signature_type_from_address env blake3 pubkey (at_validator att) of
             None \<Rightarrow> Inl VerificationFailed
           | Some st \<Rightarrow>
               (if \<not> is_algorithm_allowed env st then Inl (UnsupportedSignatureType st)
                else Inr (pq_signature_new st (at_signature att)))))"

definition attestation_item ::
  "(address, u8 list) hashmap \<Rightarrow> attestation \<times> pq_signature \<Rightarrow> crypto_error + verify_item" where
  "attestation_item authorities p =
     (case p of (att, sig) \<Rightarrow>
        (case hm_get authorities (at_validator att) of
           None \<Rightarrow> Inl VerificationFailed
         | Some pk \<Rightarrow> Inr \<lparr>item_pubkey = pk, item_message = attestation_own_signing_message att,
                          item_signature = sig\<rparr>))"

definition batch_verify_attestations ::
  "registry_env \<Rightarrow> hash_fn \<Rightarrow> (verify_item list \<Rightarrow> crypto_error + bool list) \<Rightarrow>
     finality_state \<Rightarrow> shell_hash \<Rightarrow> (address, u8 list) hashmap \<Rightarrow> crypto_error + bool list" where
  "batch_verify_attestations env blake3 batch_verify s h authorities =
     (case hm_get (attestation_store s) h of
        None \<Rightarrow> Inr []
      | Some atts \<Rightarrow>
          (case collect_results (map (attestation_pq_signature env blake3 authorities) atts) of
             Inl e \<Rightarrow> Inl e
           | Inr sigs \<Rightarrow>
               (case collect_results (map (attestation_item authorities) (zip atts sigs)) of
                  Inl e \<Rightarrow> Inl e
                | Inr items \<Rightarrow> batch_verify items)))"

section \<open>The state as a machine\<close>

datatype fin_op =
    RecordAttestation attestation
  | CheckFinality shell_hash u64 u64
  | SetFinalizedDirect u64 shell_hash

text \<open>
  The callers pass the weight that the validator set gives to the attester; \<open>wt\<close> is that
  assignment.
\<close>

fun fin_step :: "(address \<Rightarrow> u64) \<Rightarrow> finality_state \<Rightarrow> fin_op \<Rightarrow> finality_state" where
  "fin_step wt s (RecordAttestation att) =
     snd (record_attestation_weighted s att (wt (at_validator att)))"
| "fin_step wt s (CheckFinality h n total_weight) = snd (check_finality_weighted s h n total_weight)"
| "fin_step wt s (SetFinalizedDirect n h) = snd (set_finalized_direct s n h)"

section \<open>Invariant\<close>

definition block_ok :: "finality_state \<Rightarrow> shell_hash \<Rightarrow> attestation list \<Rightarrow> bool" where
  "block_ok s h atts \<longleftrightarrow>
     atts \<noteq> [] \<and> (\<forall>a \<in> set atts. at_block_hash a = h \<and> same_context (hd atts) a)
     \<and> distinct (map at_validator atts)
     \<and> hm_get (pending_attestations s) h = Some (fset_of_list (map at_validator atts))
     \<and> last_finalized_number s < at_block_number (hd atts)"

definition fin_inv :: "finality_state \<Rightarrow> bool" where
  "fin_inv s \<longleftrightarrow>
     (\<forall>h atts. hm_get (attestation_store s) h = Some atts \<longrightarrow> block_ok s h atts)
     \<and> dom (hm_get (pending_attestations s)) = dom (hm_get (attestation_store s))
     \<and> dom (hm_get (pending_attested_weight s)) = dom (hm_get (attestation_store s))
     \<and> (\<forall>h atts a. hm_get (attestation_store s) h = Some atts \<longrightarrow> a \<in> set atts \<longrightarrow>
          (at_block_number a, at_validator a) \<in> dom (hm_get (attested_block_by_height s)))
     \<and> (\<forall>n v h. hm_get (attested_block_by_height s) (n, v) = Some h \<longrightarrow>
          (\<exists>atts a. hm_get (attestation_store s) h = Some atts \<and> a \<in> set atts
             \<and> at_block_number a = n \<and> at_validator a = v))
     \<and> hm_len (pending_attestations s) \<le> MAX_PENDING_ATTESTATION_BLOCKS"

text \<open>The weight of a block is the weight of its attesters, up to saturation.\<close>

definition weight_inv :: "(address \<Rightarrow> u64) \<Rightarrow> finality_state \<Rightarrow> bool" where
  "weight_inv wt s \<longleftrightarrow>
     (\<forall>h w. hm_get (pending_attested_weight s) h = Some w \<longrightarrow>
        (\<exists>vs. hm_get (pending_attestations s) h = Some vs
            \<and> unat w = min (\<Sum>v \<in> fset vs. unat (wt v)) (2 ^ 64 - 1)))"

section \<open>What recording does\<close>

definition accepts_attestation :: "finality_state \<Rightarrow> attestation \<Rightarrow> u64 \<Rightarrow> bool" where
  "accepts_attestation s att weight \<longleftrightarrow>
     weight \<noteq> 0 \<and> last_finalized_number s < at_block_number att
     \<and> (\<forall>ex. first_attestation s (at_block_hash att) = Some ex \<longrightarrow> same_context ex att)
     \<and> (hm_contains (pending_attestations s) (at_block_hash att)
        \<or> hm_len (pending_attestations s) < MAX_PENDING_ATTESTATION_BLOCKS)
     \<and> \<not> has_attested s (at_block_hash att) (at_validator att)"

definition with_attestation :: "finality_state \<Rightarrow> attestation \<Rightarrow> u64 \<Rightarrow> finality_state" where
  "with_attestation s att weight =
     (let h = at_block_hash att; v = at_validator att in
      s\<lparr>pending_attestations :=
          hm_insert (pending_attestations s) h
            (finsert v (hm_get_or (pending_attestations s) h {||})),
        pending_attested_weight :=
          hm_insert (pending_attested_weight s) h (sat_add (attested_weight s h) weight),
        attestation_store :=
          hm_insert (attestation_store s) h (hm_get_or (attestation_store s) h [] @ [att]),
        attested_block_by_height :=
          hm_insert (attested_block_by_height s) (at_block_number att, v)
            (hm_get_or (attested_block_by_height s) (at_block_number att, v) h)\<rparr>)"

lemma record_attestation_weighted_cases:
  "record_attestation_weighted s att weight =
     (if accepts_attestation s att weight then (True, with_attestation s att weight)
      else (False, s))"
proof -
  let ?h = "at_block_hash att"
  have w: "(case hm_get (pending_attested_weight s) ?h of Some w \<Rightarrow> sat_add w weight | None \<Rightarrow> weight) =
             sat_add (attested_weight s ?h) weight"
    by (simp add: attested_weight_def hm_get_or_def sat_add_zero split: option.split)
  have att: "has_attested s ?h v \<longleftrightarrow> v |\<in>| hm_get_or (pending_attestations s) ?h {||}" for v
    by (simp add: has_attested_def hm_get_or_def split: option.split)
  have dup: "s\<lparr>pending_attestations := hm_insert (pending_attestations s) ?h
                 (finsert v (hm_get_or (pending_attestations s) ?h {||}))\<rparr> = s"
    if v: "has_attested s ?h v" for v
  proof -
    obtain vs where "hm_get (pending_attestations s) ?h = Some vs" "v |\<in>| vs"
      using v by (auto simp: has_attested_def split: option.splits)
    then show ?thesis by (simp add: hm_get_or_def finsert_absorb hm_insert_same)
  qed
  have ctx: "(case first_attestation s ?h of None \<Rightarrow> False | Some ex \<Rightarrow> \<not> same_context ex att) \<longleftrightarrow>
               \<not> (\<forall>ex. first_attestation s ?h = Some ex \<longrightarrow> same_context ex att)"
    by (simp split: option.split)
  show ?thesis
    unfolding record_attestation_weighted_def accepts_attestation_def with_attestation_def
    by (simp add: Let_def w ctx dup att [symmetric] not_le not_less del: not_all) 
qed

lemma fin_inv_store: "fin_inv s \<Longrightarrow> hm_get (attestation_store s) h = Some atts \<Longrightarrow> block_ok s h atts"
  by (simp add: fin_inv_def)

lemma fin_inv_pending_iff:
  "fin_inv s \<Longrightarrow> hm_get (pending_attestations s) h = None \<longleftrightarrow> hm_get (attestation_store s) h = None"
  by (metis fin_inv_def domIff)

lemma fin_inv_weight_iff:
  "fin_inv s \<Longrightarrow> hm_get (pending_attested_weight s) h = None \<longleftrightarrow> hm_get (attestation_store s) h = None"
  by (metis fin_inv_def domIff)

text \<open>Under the invariant the attesters of a block are those of its stored attestations.\<close>

lemma has_attested_iff:
  assumes "fin_inv s"
  shows "has_attested s h v \<longleftrightarrow>
    (\<exists>atts a. hm_get (attestation_store s) h = Some atts \<and> a \<in> set atts \<and> at_validator a = v)"
proof (cases "hm_get (attestation_store s) h")
  case None
  then show ?thesis using fin_inv_pending_iff [OF assms, of h] by (simp add: has_attested_def)
next
  case (Some atts)
  then show ?thesis using fin_inv_store [OF assms Some]
    by (auto simp: has_attested_def block_ok_def fset_of_list_elem)
qed

lemma first_attestation_hd:
  assumes "fin_inv s" "hm_get (attestation_store s) h = Some atts"
  shows "first_attestation s h = Some (hd atts)"
  using fin_inv_store [OF assms] assms(2)
  by (cases atts) (simp_all add: first_attestation_def block_ok_def)

lemma with_attestation_pending:
  "hm_get (pending_attestations (with_attestation s att w)) h =
     (if h = at_block_hash att
      then Some (finsert (at_validator att) (hm_get_or (pending_attestations s) h {||}))
      else hm_get (pending_attestations s) h)"
  by (simp add: with_attestation_def hm_get_insert Let_def)

lemma with_attestation_last [simp]:
  "last_finalized_number (with_attestation s att w) = last_finalized_number s"
  "last_finalized_hash (with_attestation s att w) = last_finalized_hash s"
  by (simp_all add: with_attestation_def Let_def)

lemma block_ok_extend:
  assumes inv: "fin_inv s" and acc: "accepts_attestation s att w"
  shows "block_ok (with_attestation s att w) (at_block_hash att)
           (hm_get_or (attestation_store s) (at_block_hash att) [] @ [att])"
proof (cases "hm_get (attestation_store s) (at_block_hash att)")
  case None
  then have "hm_get (pending_attestations s) (at_block_hash att) = None"
    using fin_inv_pending_iff [OF inv] by blast
  with None acc show ?thesis
    by (simp add: block_ok_def with_attestation_pending hm_get_or_def same_context_def
        accepts_attestation_def)
next
  case (Some atts)
  note ok = fin_inv_store [OF inv Some]
  have "same_context (hd atts) att"
    using acc first_attestation_hd [OF inv Some] by (simp add: accepts_attestation_def)
  moreover have "at_validator att \<notin> set (map at_validator atts)"
    using acc has_attested_iff [OF inv] Some by (auto simp: accepts_attestation_def)
  ultimately show ?thesis
    using ok Some
    by (auto simp: block_ok_def with_attestation_pending hm_get_or_def)
qed

lemma block_ok_other:
  "h \<noteq> at_block_hash att \<Longrightarrow> block_ok (with_attestation s att w) h atts = block_ok s h atts"
  by (simp add: block_ok_def with_attestation_pending)

lemma with_attestation_store:
  "hm_get (attestation_store (with_attestation s att w)) h =
     (if h = at_block_hash att then Some (hm_get_or (attestation_store s) h [] @ [att])
      else hm_get (attestation_store s) h)"
  by (simp add: with_attestation_def hm_get_insert Let_def)

lemma with_attestation_by_height:
  "hm_get (attested_block_by_height (with_attestation s att w)) k =
     (if k = (at_block_number att, at_validator att)
      then Some (hm_get_or (attested_block_by_height s) k (at_block_hash att))
      else hm_get (attested_block_by_height s) k)"
  by (simp add: with_attestation_def hm_get_insert Let_def)

lemma with_attestation_doms:
  "dom (hm_get (pending_attestations (with_attestation s att w))) =
     insert (at_block_hash att) (dom (hm_get (pending_attestations s)))"
  "dom (hm_get (pending_attested_weight (with_attestation s att w))) =
     insert (at_block_hash att) (dom (hm_get (pending_attested_weight s)))"
  "dom (hm_get (attestation_store (with_attestation s att w))) =
     insert (at_block_hash att) (dom (hm_get (attestation_store s)))"
  by (auto simp: with_attestation_def hm_get_insert Let_def split: if_splits)

lemma with_attestation_keeps_stored:
  assumes "hm_get (attestation_store s) h = Some atts" "a \<in> set atts"
  shows "\<exists>atts'. hm_get (attestation_store (with_attestation s att w)) h = Some atts' \<and> a \<in> set atts'"
  using assms by (auto simp: with_attestation_store hm_get_or_def)

lemma with_attestation_len:
  assumes "accepts_attestation s att w" "fin_inv s"
  shows "hm_len (pending_attestations (with_attestation s att w)) \<le> MAX_PENDING_ATTESTATION_BLOCKS"
  using assms
  by (auto simp: with_attestation_def Let_def hm_len_insert accepts_attestation_def fin_inv_def
      hm_contains_def)

lemma with_attestation_inv:
  assumes inv: "fin_inv s" and acc: "accepts_attestation s att w"
  shows "fin_inv (with_attestation s att w)"
proof -
  let ?s = "with_attestation s att w" and ?h = "at_block_hash att"
  have "block_ok ?s h atts" if "hm_get (attestation_store ?s) h = Some atts" for h atts
    using that block_ok_extend [OF inv acc] fin_inv_store [OF inv]
    by (auto simp: with_attestation_store block_ok_other split: if_splits)
  moreover have "(at_block_number a, at_validator a) \<in> dom (hm_get (attested_block_by_height ?s))"
    if "hm_get (attestation_store ?s) h = Some atts" "a \<in> set atts" for h atts a
  proof -
    have "a = att \<or> (\<exists>atts. hm_get (attestation_store s) h = Some atts \<and> a \<in> set atts)"
      using that
      by (auto simp: with_attestation_store hm_get_or_def split: if_splits option.splits)
    then show ?thesis
      using inv unfolding fin_inv_def by (auto simp: with_attestation_by_height dom_def)
  qed
  moreover have "\<exists>atts a. hm_get (attestation_store ?s) h = Some atts \<and> a \<in> set atts
      \<and> at_block_number a = n \<and> at_validator a = v"
    if "hm_get (attested_block_by_height ?s) (n, v) = Some h" for n v h
  proof (cases "hm_get (attested_block_by_height s) (n, v) = Some h")
    case True
    with inv obtain atts a where a: "hm_get (attestation_store s) h = Some atts" "a \<in> set atts"
      "at_block_number a = n" "at_validator a = v"
      unfolding fin_inv_def by blast
    from with_attestation_keeps_stored [OF a(1,2), of att w] a(3,4) show ?thesis by blast
  next
    case False
    with that have "(n, v) = (at_block_number att, at_validator att)" "h = ?h"
      by (auto simp: with_attestation_by_height hm_get_or_def split: if_splits option.splits)
    then show ?thesis by (auto simp: with_attestation_store)
  qed
  ultimately show ?thesis
    using inv with_attestation_len [OF acc inv]
    by (simp add: fin_inv_def with_attestation_doms)
qed

section \<open>What pruning does\<close>

lemma foldl_remove_block:
  "hm_get (pending_attestations (foldl remove_block s hs)) h =
     (if h \<in> set hs then None else hm_get (pending_attestations s) h)"
  "hm_get (pending_attested_weight (foldl remove_block s hs)) h =
     (if h \<in> set hs then None else hm_get (pending_attested_weight s) h)"
  "hm_get (attestation_store (foldl remove_block s hs)) h =
     (if h \<in> set hs then None else hm_get (attestation_store s) h)"
  "attested_block_by_height (foldl remove_block s hs) = attested_block_by_height s"
  "last_finalized_number (foldl remove_block s hs) = last_finalized_number s"
  "last_finalized_hash (foldl remove_block s hs) = last_finalized_hash s"
  by (induction hs arbitrary: s) (auto simp: remove_block_def hm_get_remove)

lemma foldl_remove_block_len:
  "hm_len (pending_attestations (foldl remove_block s hs)) \<le> hm_len (pending_attestations s)"
proof (induction hs arbitrary: s)
  case (Cons h hs)
  have "hm_len (pending_attestations (remove_block s h)) \<le> hm_len (pending_attestations s)"
    by (simp add: remove_block_def hm_len_remove_le)
  with Cons.IH [of "remove_block s h"] show ?case by simp
qed simp

lemma set_stale_hashes:
  "h \<in> set (stale_hashes s n) \<longleftrightarrow>
     (\<exists>a. first_attestation s h = Some a \<and> at_block_number a \<le> n)"
proof -
  have "h \<in> set (stale_hashes s n) \<longleftrightarrow>
      (\<exists>atts. hm_get (attestation_store s) h = Some atts
          \<and> (case atts of [] \<Rightarrow> False | a # _ \<Rightarrow> at_block_number a \<le> n))"
    by (force simp: stale_hashes_def hm_in_entries [symmetric])
  then show ?thesis
    by (auto simp: first_attestation_def split: option.splits list.splits)
qed

definition finalized :: "finality_state \<Rightarrow> u64 \<Rightarrow> shell_hash \<Rightarrow> finality_state" where
  "finalized s n h = fs_prune_below (s\<lparr>last_finalized_number := n, last_finalized_hash := h\<rparr>) n"

lemma first_attestation_finalized [simp]:
  "first_attestation (s\<lparr>last_finalized_number := n, last_finalized_hash := h\<rparr>) =
     first_attestation s"
  by (simp add: first_attestation_def fun_eq_iff)

definition survives :: "finality_state \<Rightarrow> u64 \<Rightarrow> shell_hash \<Rightarrow> bool" where
  "survives s n h \<longleftrightarrow> (\<forall>a. first_attestation s h = Some a \<longrightarrow> n < at_block_number a)"

lemma finalized_get:
  "hm_get (pending_attestations (finalized s n b)) h =
     (if survives s n h then hm_get (pending_attestations s) h else None)"
  "hm_get (pending_attested_weight (finalized s n b)) h =
     (if survives s n h then hm_get (pending_attested_weight s) h else None)"
  "hm_get (attestation_store (finalized s n b)) h =
     (if survives s n h then hm_get (attestation_store s) h else None)"
  "hm_get (attested_block_by_height (finalized s n b)) k =
     (if n < fst k then hm_get (attested_block_by_height s) k else None)"
  "last_finalized_number (finalized s n b) = n"
  "last_finalized_hash (finalized s n b) = b"
  by (auto simp: finalized_def fs_prune_below_def Let_def foldl_remove_block set_stale_hashes
      survives_def hm_get_retain not_le split: option.split)

lemma finalized_len:
  "hm_len (pending_attestations (finalized s n b)) \<le> hm_len (pending_attestations s)"
proof -
  let ?s = "s\<lparr>last_finalized_number := n, last_finalized_hash := b\<rparr>"
  have "hm_len (pending_attestations (foldl remove_block ?s (stale_hashes ?s n)))
          \<le> hm_len (pending_attestations ?s)"
    by (rule foldl_remove_block_len)
  then show ?thesis by (simp add: finalized_def fs_prune_below_def Let_def)
qed

lemma check_finality_weighted_finalized:
  "check_finality_weighted s h n t =
     (if can_finalize_weighted s h n t then (True, finalized s n h) else (False, s))"
  by (simp add: check_finality_weighted_def finalized_def)

lemma set_finalized_direct_finalized:
  "set_finalized_direct s n h =
     (if last_finalized_number s < n then (True, finalized s n h) else (False, s))"
  by (simp add: set_finalized_direct_def finalized_def)

lemma stored_survives:
  assumes "fin_inv s" "hm_get (attestation_store s) h = Some atts" "a \<in> set atts"
  shows "survives s n h \<longleftrightarrow> n < at_block_number a"
  using fin_inv_store [OF assms(1,2)] assms(3) first_attestation_hd [OF assms(1,2)]
  by (simp add: survives_def block_ok_def same_context_def)

lemma finalized_inv:
  assumes inv: "fin_inv s"
  shows "fin_inv (finalized s n b)"
proof -
  have "block_ok (finalized s n b) h atts"
    if "hm_get (attestation_store (finalized s n b)) h = Some atts" for h atts
  proof -
    have st: "survives s n h" "hm_get (attestation_store s) h = Some atts"
      using that by (auto simp: finalized_get split: if_splits)
    with fin_inv_store [OF inv st(2)] first_attestation_hd [OF inv st(2)] show ?thesis
      by (simp add: block_ok_def finalized_get survives_def)
  qed
  moreover have "dom (hm_get (pending_attestations (finalized s n b))) =
                   dom (hm_get (attestation_store (finalized s n b)))"
    "dom (hm_get (pending_attested_weight (finalized s n b))) =
       dom (hm_get (attestation_store (finalized s n b)))"
    using fin_inv_pending_iff [OF inv] fin_inv_weight_iff [OF inv]
    by (simp_all add: set_eq_iff domIff finalized_get del: not_None_eq)
  moreover have "(at_block_number a, at_validator a)
      \<in> dom (hm_get (attested_block_by_height (finalized s n b)))"
    if "hm_get (attestation_store (finalized s n b)) h = Some atts" "a \<in> set atts" for h atts a
  proof -
    have st: "survives s n h" "hm_get (attestation_store s) h = Some atts"
      using that by (auto simp: finalized_get split: if_splits)
    then have "n < at_block_number a" using stored_survives [OF inv st(2) that(2)] by blast
    moreover have "(at_block_number a, at_validator a) \<in> dom (hm_get (attested_block_by_height s))"
      using inv st(2) that(2) unfolding fin_inv_def by blast
    ultimately show ?thesis by (simp add: finalized_get dom_def)
  qed
  moreover have "\<exists>atts a. hm_get (attestation_store (finalized s n b)) h = Some atts
      \<and> a \<in> set atts \<and> at_block_number a = m \<and> at_validator a = v"
    if "hm_get (attested_block_by_height (finalized s n b)) (m, v) = Some h" for m v h
  proof -
    have m: "n < m" "hm_get (attested_block_by_height s) (m, v) = Some h"
      using that by (auto simp: finalized_get split: if_splits)
    with inv obtain atts a where a: "hm_get (attestation_store s) h = Some atts" "a \<in> set atts"
      "at_block_number a = m" "at_validator a = v"
      unfolding fin_inv_def by blast
    then have "survives s n h" using stored_survives [OF inv a(1,2)] m(1) by simp
    with a show ?thesis by (auto simp: finalized_get)
  qed
  moreover have "hm_len (pending_attestations (finalized s n b)) \<le> MAX_PENDING_ATTESTATION_BLOCKS"
    using inv finalized_len [of s n b] by (simp add: fin_inv_def)
  ultimately show ?thesis by (simp add: fin_inv_def)
qed

section \<open>The machine keeps the invariants and only moves finality forward\<close>

lemma finality_start_inv: "fin_inv (with_finalized n h)" "weight_inv wt (with_finalized n h)"
  by (auto simp: fin_inv_def weight_inv_def with_finalized_def hm_get_new hm_len_new)

lemma finality_state_new_eq: "finality_state_new = with_finalized 0 hash_zero"
  by (simp add: finality_state_new_def with_finalized_def)

lemma fin_step_cases:
  obtains (same) "fin_step wt s op = s"
  | (recorded) att where "op = RecordAttestation att"
      "accepts_attestation s att (wt (at_validator att))"
      "fin_step wt s op = with_attestation s att (wt (at_validator att))"
  | (advanced) n h where "last_finalized_number s < n" "fin_step wt s op = finalized s n h"
proof (cases op)
  case (RecordAttestation att)
  with that show ?thesis
    by (cases "accepts_attestation s att (wt (at_validator att))")
      (simp_all add: record_attestation_weighted_cases)
next
  case (CheckFinality h n t)
  with that show ?thesis
    by (cases "can_finalize_weighted s h n t")
      (auto simp: check_finality_weighted_finalized can_finalize_weighted_def split: if_splits)
next
  case (SetFinalizedDirect n h)
  with that show ?thesis
    by (cases "last_finalized_number s < n") (simp_all add: set_finalized_direct_finalized)
qed

lemma fin_step_inv: "fin_inv s \<Longrightarrow> fin_inv (fin_step wt s op)"
  by (cases rule: fin_step_cases [of wt s op])
    (simp_all add: with_attestation_inv finalized_inv)

definition finality_before :: "finality_state \<Rightarrow> finality_state \<Rightarrow> bool" where
  "finality_before s t \<longleftrightarrow>
     last_finalized_number s < last_finalized_number t
     \<or> last_finalized_number s = last_finalized_number t
       \<and> last_finalized_hash s = last_finalized_hash t"

lemma finality_before_step: "finality_before s (fin_step wt s op)"
  by (cases rule: fin_step_cases [of wt s op]) (simp_all add: finality_before_def finalized_get)

interpretation fin: progress_machine "fin_step wt" fin_inv finality_before for wt
proof unfold_locales
  show "fin_inv (fin_step wt s op)" if "fin_inv s" for s op using that by (rule fin_step_inv)
  show "finality_before s s" for s by (simp add: finality_before_def)
  show "finality_before s u" if "finality_before s t" "finality_before t u" for s t u
    using that by (auto simp: finality_before_def)
  show "finality_before s (fin_step wt s op)" for s op by (rule finality_before_step)
qed

lemma with_attestation_weight_inv:
  assumes inv: "fin_inv s" and wi: "weight_inv wt s"
    and acc: "accepts_attestation s att (wt (at_validator att))"
  shows "weight_inv wt (with_attestation s att (wt (at_validator att)))"
proof -
  let ?h = "at_block_hash att" and ?v = "at_validator att"
  let ?vs = "hm_get_or (pending_attestations s) ?h {||}"
  have new: "?v |\<notin>| ?vs"
    using acc by (auto simp: accepts_attestation_def has_attested_def hm_get_or_def split: option.splits)
  have "unat (attested_weight s ?h) = min (\<Sum>v \<in> fset ?vs. unat (wt v)) (2 ^ 64 - 1)"
  proof (cases "hm_get (pending_attested_weight s) ?h")
    case None
    then have "hm_get (pending_attestations s) ?h = None"
      using fin_inv_pending_iff [OF inv] fin_inv_weight_iff [OF inv] by blast
    with None show ?thesis by (simp add: attested_weight_def hm_get_or_def)
  next
    case (Some w)
    with wi obtain vs where "hm_get (pending_attestations s) ?h = Some vs"
      "unat w = min (\<Sum>v \<in> fset vs. unat (wt v)) (2 ^ 64 - 1)"
      unfolding weight_inv_def by blast
    with Some show ?thesis by (simp add: attested_weight_def hm_get_or_def)
  qed
  then have "unat (sat_add (attested_weight s ?h) (wt ?v)) =
               min (\<Sum>v \<in> fset (finsert ?v ?vs). unat (wt v)) (2 ^ 64 - 1)"
    using new by (simp add: unat_sat_add)
  with wi show ?thesis
    by (simp add: weight_inv_def with_attestation_def Let_def hm_get_insert)
qed

lemma fin_step_weight_inv:
  assumes "fin_inv s \<and> weight_inv wt s"
  shows "fin_inv (fin_step wt s op) \<and> weight_inv wt (fin_step wt s op)"
proof (cases rule: fin_step_cases [of wt s op])
  case (advanced n h)
  have "weight_inv wt (finalized s n h)"
    using assms by (simp add: weight_inv_def finalized_get)
  with advanced assms show ?thesis by (simp add: finalized_inv)
qed (use assms in \<open>simp_all add: with_attestation_inv with_attestation_weight_inv\<close>)

interpretation fin_weights: invariant_machine "fin_step wt" "\<lambda>s. fin_inv s \<and> weight_inv wt s" for wt
  by unfold_locales (rule fin_step_weight_inv)

lemma fin_run_inv:
  "fin_inv (foldl (fin_step wt) (with_finalized n h) ops)"
  "weight_inv wt (foldl (fin_step wt) (with_finalized n h) ops)"
  using fin_weights.inv_run [of "with_finalized n h" wt ops] finality_start_inv by blast+

section \<open>Quorums\<close>

lemma unat_strict_quorum_weight:
  "unat (strict_quorum_weight t) = (if t = 0 then 0 else 2 * unat t div 3 + 1)"
proof -
  have t: "unat t < 18446744073709551616" by (rule unat_u64_less)
  have "unat (ucast t * 2 div 3 + 1 :: u128) = 2 * unat t div 3 + 1"
  proof -
    have "unat ((ucast t :: u128) * 2) = unat t * 2"
      by (subst unat_mult_fits) (simp_all add: unat_ucast_u128, use t in linarith)
    then have d: "unat ((ucast t :: u128) * 2 div 3) = unat t * 2 div 3" by (simp add: unat_div)
    have "unat t * 2 div 3 + 1 < 340282366920938463463374607431768211456" using t by linarith
    then show ?thesis using unat_plus_fits [of "(ucast t :: u128) * 2 div 3" 1]
      by (simp add: d mult.commute)
  qed
  moreover have "2 * unat t div 3 + 1 \<le> 18446744073709551615" using t by linarith
  ultimately show ?thesis by (simp add: strict_quorum_weight_def unat_u64_of_u128_or_max)
qed

lemma has_weighted_quorum_iff:
  "has_weighted_quorum a t \<longleftrightarrow> 0 < unat t \<and> 2 * unat t < 3 * unat a"
proof (cases "t = 0")
  case False
  then have "0 < unat t" by (simp add: unat_gt_0)
  moreover have "2 * unat t div 3 + 1 \<le> unat a \<longleftrightarrow> 2 * unat t < 3 * unat a" by linarith
  ultimately show ?thesis
    using False
    by (simp add: has_weighted_quorum_def word_le_nat_alt unat_strict_quorum_weight
        word_less_nat_alt)
qed (simp add: has_weighted_quorum_def)

lemma strict_quorum_weight_nat:
  "t < 2 ^ 64 \<Longrightarrow>
     unat (strict_quorum_weight (of_nat t)) = (if t = 0 then 0 else 2 * t div 3 + 1)"
proof -
  assume "t < 2 ^ 64"
  then have t: "unat (of_nat t :: u64) = t" by (simp add: unat_of_nat)
  then have "(of_nat t :: u64) = 0 \<longleftrightarrow> t = 0" by auto
  with t show ?thesis by (simp add: unat_strict_quorum_weight)
qed

interpretation finality_quorum:
  strict_quorum_rule "\<lambda>t. unat (strict_quorum_weight (of_nat t))" "2 ^ 64"
proof unfold_locales
  have div: "2 * t < 3 * (2 * t div 3 + 1)" for t :: nat by presburger
  show "2 * t \<le> 3 * unat (strict_quorum_weight (of_nat t))" if "t < 2 ^ 64" for t
    using div [of t] by (cases "t = 0") (simp_all only: strict_quorum_weight_nat [OF that], simp_all)
  show "2 * t < 3 * unat (strict_quorum_weight (of_nat t))" if "0 < t" "t < 2 ^ 64" for t
    using div [of t] that(1) by (simp only: strict_quorum_weight_nat [OF that(2)]) simp
qed

lemma finalizable_quorum:
  assumes inv: "weight_inv wt s" and fin: "can_finalize_weighted s h n T"
    and V: "finite V" "\<And>v. v \<notin> V \<Longrightarrow> wt v = 0"
  shows "unat (strict_quorum_weight T) \<le> (\<Sum>v \<in> {v \<in> V. has_attested s h v}. unat (wt v))"
    and "0 < unat T"
proof -
  have q: "has_weighted_quorum (attested_weight s h) T"
    using fin by (auto simp: can_finalize_weighted_def split: if_splits)
  then show pos: "0 < unat T" by (simp add: has_weighted_quorum_iff)
  have le: "unat (strict_quorum_weight T) \<le> unat (attested_weight s h)"
    using q by (simp add: has_weighted_quorum_def word_le_nat_alt)
  have "0 < unat (strict_quorum_weight T)" using pos by (auto simp: unat_strict_quorum_weight)
  with le obtain w where w: "hm_get (pending_attested_weight s) h = Some w"
    by (auto simp: attested_weight_def hm_get_or_def split: option.splits)
  with inv obtain vs where vs: "hm_get (pending_attestations s) h = Some vs"
    "unat w = min (\<Sum>v \<in> fset vs. unat (wt v)) (2 ^ 64 - 1)"
    unfolding weight_inv_def by blast
  have in_V: "v \<in> V" if "0 < unat (wt v)" for v using V(2) [of v] that by fastforce
  have "(\<Sum>v \<in> {v \<in> V. has_attested s h v}. unat (wt v)) = (\<Sum>v \<in> fset vs. unat (wt v))"
    by (rule sum.mono_neutral_left) (auto simp: has_attested_def vs(1) intro: in_V)
  with le w vs(2) show "unat (strict_quorum_weight T)
      \<le> (\<Sum>v \<in> {v \<in> V. has_attested s h v}. unat (wt v))"
    by (simp add: attested_weight_def hm_get_or_def)
qed

lemma finalizable_evidence:
  assumes inv: "fin_inv s" and fin: "can_finalize_weighted s h n T" and v: "has_attested s h v"
  shows "\<exists>atts a. get_attestations s h = Some atts \<and> a \<in> set atts \<and> at_validator a = v
           \<and> at_block_number a = n \<and> at_block_hash a = h"
proof -
  obtain atts a where a: "hm_get (attestation_store s) h = Some atts" "a \<in> set atts"
    "at_validator a = v"
    using v has_attested_iff [OF inv] by blast
  have "at_block_number (hd atts) = n"
    using fin first_attestation_hd [OF inv a(1)]
    by (auto simp: can_finalize_weighted_def split: if_splits)
  with a fin_inv_store [OF inv a(1)] show ?thesis
    by (auto simp: block_ok_def same_context_def get_attestations_def)
qed

section \<open>Properties\<close>

text \<open>
  C1: agreement of finality across nodes. Take two nodes that weigh attesters alike and whose
  finality states were reached by any sequences of attestations, finality checks and direct
  finalizations. If one can finalize a block and the other a block at the same height, then the
  validators that attested to both hold more than a third of the total weight, and the two nodes
  store their attestations for the two blocks. When the blocks differ each of these validators
  has equivocated, so finality can only split if more than a third of the weight is faulty.
\<close>

theorem conflicting_finality_needs_equivocators:
  fixes wt :: "address \<Rightarrow> u64"
  assumes V: "finite V" "\<And>v. v \<notin> V \<Longrightarrow> wt v = 0"
    and tot: "unat T = (\<Sum>v \<in> V. unat (wt v))"
    and s1: "s1 = foldl (fin_step wt) (with_finalized n1 g1) ops1"
    and s2: "s2 = foldl (fin_step wt) (with_finalized n2 g2) ops2"
    and fin: "can_finalize_weighted s1 h1 n T" "can_finalize_weighted s2 h2 n T"
  shows "unat T < 3 * (\<Sum>v \<in> {v \<in> V. has_attested s1 h1 v \<and> has_attested s2 h2 v}. unat (wt v))
     \<and> (\<forall>v. has_attested s1 h1 v \<and> has_attested s2 h2 v \<longrightarrow>
          (\<exists>atts1 a1 atts2 a2.
             get_attestations s1 h1 = Some atts1 \<and> a1 \<in> set atts1 \<and>
             get_attestations s2 h2 = Some atts2 \<and> a2 \<in> set atts2 \<and>
             at_validator a1 = v \<and> at_validator a2 = v \<and>
             at_block_number a1 = n \<and> at_block_number a2 = n \<and>
             at_block_hash a1 = h1 \<and> at_block_hash a2 = h2))"
proof
  let ?w = "\<lambda>v. unat (wt v)"
  let ?A = "{v \<in> V. has_attested s1 h1 v}" and ?B = "{v \<in> V. has_attested s2 h2 v}"
  have inv1: "fin_inv s1" "weight_inv wt s1" and inv2: "fin_inv s2" "weight_inv wt s2"
    unfolding s1 s2 by (rule fin_run_inv)+
  have T: "of_nat (sum ?w V) = T" by (simp flip: tot)
  note q1 = finalizable_quorum [OF inv1(2) fin(1) V] and q2 = finalizable_quorum [OF inv2(2) fin(2) V]
  have "sum ?w V < 3 * sum ?w (?A \<inter> ?B)"
  proof (rule finality_quorum.overlap_exceeds_third)
    show "0 < sum ?w V" "sum ?w V < 2 ^ 64" using q1(2) unat_u64_less [of T] by (simp_all flip: tot)
    show "unat (strict_quorum_weight (of_nat (sum ?w V))) \<le> sum ?w ?A" using q1(1) T by simp
    show "unat (strict_quorum_weight (of_nat (sum ?w V))) \<le> sum ?w ?B" using q2(1) T by simp
  qed (use V(1) in auto)
  moreover have "?A \<inter> ?B = {v \<in> V. has_attested s1 h1 v \<and> has_attested s2 h2 v}" by auto
  ultimately show "unat T < 3 * (\<Sum>v \<in> {v \<in> V. has_attested s1 h1 v \<and> has_attested s2 h2 v}. ?w v)"
    by (simp add: tot)
  show "\<forall>v. has_attested s1 h1 v \<and> has_attested s2 h2 v \<longrightarrow>
          (\<exists>atts1 a1 atts2 a2.
             get_attestations s1 h1 = Some atts1 \<and> a1 \<in> set atts1 \<and>
             get_attestations s2 h2 = Some atts2 \<and> a2 \<in> set atts2 \<and>
             at_validator a1 = v \<and> at_validator a2 = v \<and>
             at_block_number a1 = n \<and> at_block_number a2 = n \<and>
             at_block_hash a1 = h1 \<and> at_block_hash a2 = h2)"
    using finalizable_evidence [OF inv1(1) fin(1)] finalizable_evidence [OF inv2(1) fin(2)] by blast
qed

definition sample_weight :: "address \<Rightarrow> u64" where
  "sample_weight v = (if v \<in> {Address 1, Address 2, Address 3} then 1 else 0)"

definition sample_attestation :: "shell_hash \<Rightarrow> address \<Rightarrow> attestation" where
  "sample_attestation h v = attestation_new 7 hash_zero h 5 v 0 []"

definition sample_ops :: "shell_hash \<Rightarrow> fin_op list" where
  "sample_ops h = map (\<lambda>v. RecordAttestation (sample_attestation h v)) [Address 1, Address 2, Address 3]"

theorem conflicting_finality_needs_equivocators_witness:
  "let s = (\<lambda>h. foldl (fin_step sample_weight) (with_finalized 0 hash_zero) (sample_ops h)) in
   3 < 3 * (\<Sum>v \<in> {v \<in> {Address 1, Address 2, Address 3}.
                has_attested (s (ShellHash 8)) (ShellHash 8) v \<and>
                has_attested (s (ShellHash 9)) (ShellHash 9) v}. unat (sample_weight v))"
proof -
  let ?s = "\<lambda>h. foldl (fin_step sample_weight) (with_finalized 0 hash_zero) (sample_ops h)"
  have fin: "can_finalize_weighted (?s (ShellHash 8)) (ShellHash 8) 5 3"
    "can_finalize_weighted (?s (ShellHash 9)) (ShellHash 9) 5 3"
    by code_simp+
  have out: "\<And>v. v \<notin> {Address 1, Address 2, Address 3} \<Longrightarrow> sample_weight v = 0"
    and tot: "unat (3 :: u64) = (\<Sum>v \<in> {Address 1, Address 2, Address 3}. unat (sample_weight v))"
    by (simp_all add: sample_weight_def)
  from conflicting_finality_needs_equivocators [OF _ out tot refl refl fin] show ?thesis
    by (simp add: Let_def)
qed

text \<open>
  C2: finality never reverts: however the operations go on, the last finalized number never
  decreases, and as long as it stays the finalized hash stays too.
\<close>

theorem finality_never_reverts:
  "let s = foldl (fin_step wt) (with_finalized n g) ops;
       t = foldl (fin_step wt) (with_finalized n g) (ops @ later)
   in last_finalized_number s < last_finalized_number t
      \<or> last_finalized_number s = last_finalized_number t
        \<and> last_finalized_hash s = last_finalized_hash t"
  using fin.before_later [OF finality_start_inv(1), of wt n g ops later]
  by (simp add: finality_before_def Let_def)

text \<open>
  Equivocation detection is sound and complete on every reachable state: it reports a block
  only if the validator attested to that other block at that height, and if the validator
  attested to some other block at that height and not yet to the given one, it reports one.
\<close>

theorem detect_equivocation_exact:
  assumes s: "s = foldl (fin_step wt) (with_finalized n0 g) ops"
  shows "(\<forall>h'. detect_equivocation s h n v = Some h' \<longrightarrow> h' \<noteq> h \<and>
            (\<exists>atts a. get_attestations s h' = Some atts \<and> a \<in> set atts
                \<and> at_validator a = v \<and> at_block_number a = n))
       \<and> (\<forall>h' atts a. get_attestations s h' = Some atts \<and> a \<in> set atts \<and> at_validator a = v
            \<and> at_block_number a = n \<and> h' \<noteq> h \<and> \<not> has_attested s h v
            \<longrightarrow> detect_equivocation s h n v \<noteq> None)"
proof (intro conjI allI impI)
  have inv: "fin_inv s" unfolding s by (rule fin_run_inv)
  fix h'
  assume "detect_equivocation s h n v = Some h'"
  then have h': "h' \<noteq> h" "hm_get (attested_block_by_height s) (n, v) = Some h'"
    by (auto simp: detect_equivocation_def split: option.splits if_splits)
  then show "h' \<noteq> h" by simp
  from inv h'(2) show "\<exists>atts a. get_attestations s h' = Some atts \<and> a \<in> set atts
      \<and> at_validator a = v \<and> at_block_number a = n"
    unfolding fin_inv_def get_attestations_def by blast
next
  have inv: "fin_inv s" unfolding s by (rule fin_run_inv)
  fix h' atts a
  assume a: "get_attestations s h' = Some atts \<and> a \<in> set atts \<and> at_validator a = v
    \<and> at_block_number a = n \<and> h' \<noteq> h \<and> \<not> has_attested s h v"
  then have "(n, v) \<in> dom (hm_get (attested_block_by_height s))"
    using inv unfolding fin_inv_def get_attestations_def by blast
  then obtain b where b: "hm_get (attested_block_by_height s) (n, v) = Some b" by blast
  with inv have "has_attested s b v" unfolding has_attested_iff [OF inv] fin_inv_def by blast
  with a b show "detect_equivocation s h n v \<noteq> None" by (auto simp: detect_equivocation_def)
qed

theorem detect_equivocation_exact_witness:
  "detect_equivocation
     (foldl (fin_step sample_weight) (with_finalized 0 hash_zero) (sample_ops (ShellHash 8)))
     (ShellHash 9) 5 (Address 2) \<noteq> None"
proof -
  let ?s = "foldl (fin_step sample_weight) (with_finalized 0 hash_zero) (sample_ops (ShellHash 8))"
  let ?atts = "map (sample_attestation (ShellHash 8)) [Address 1, Address 2, Address 3]"
  let ?a = "sample_attestation (ShellHash 8) (Address 2)"
  have "get_attestations ?s (ShellHash 8) = Some ?atts"
    and "\<not> has_attested ?s (ShellHash 9) (Address 2)"
    by code_simp+
  then have "get_attestations ?s (ShellHash 8) = Some ?atts \<and> ?a \<in> set ?atts
    \<and> at_validator ?a = Address 2 \<and> at_block_number ?a = 5 \<and> ShellHash 8 \<noteq> ShellHash 9
    \<and> \<not> has_attested ?s (ShellHash 9) (Address 2)"
    by (simp add: sample_attestation_def attestation_new_def)
  then show ?thesis using detect_equivocation_exact [OF refl] by blast
qed

text \<open>
  A block is finalizable exactly when its attesting weight is strictly more than two thirds
  of a positive total, for every 64-bit total: the threshold neither wraps nor saturates.
\<close>

theorem weighted_quorum_is_two_thirds:
  "has_weighted_quorum attested total_weight \<longleftrightarrow>
     0 < unat total_weight \<and> 2 * unat total_weight < 3 * unat attested"
  by (rule has_weighted_quorum_iff)

text \<open>
  The payload that an attester signs binds every field of the attestation: two payloads are
  equal only if chain, parent, block, height and round are, so a signature cannot be replayed on
  another chain, fork, block, height or round. The payload is 112 bytes long.
\<close>

theorem attestation_payload_binds_fields:
  "length (attestation_signing_message c p h n r) = 112 \<and>
   (attestation_signing_message c p h n r = attestation_signing_message c' p' h' n' r' \<longleftrightarrow>
      c = c' \<and> p = p' \<and> h = h' \<and> n = n' \<and> r = r')"
  unfolding attestation_signing_message_def by auto

text \<open>
  Memory stays bounded and clean on every reachable state: at most 512 blocks are tracked,
  every stored attestation is above the last finalized height and belongs to its block, each
  block counts a validator once, and the counter agrees with the stored attestations.
\<close>

theorem attestation_pool_bounded:
  assumes s: "s = foldl (fin_step wt) (with_finalized n0 g) ops"
  shows "hm_len (pending_attestations s) \<le> 512 \<and>
    (\<forall>h atts. get_attestations s h = Some atts \<longrightarrow>
       distinct (map at_validator atts) \<and> attestation_count s h = length atts \<and>
       (\<forall>a \<in> set atts. at_block_hash a = h \<and> last_finalized_number s < at_block_number a))"
proof -
  have inv: "fin_inv s" unfolding s by (rule fin_run_inv)
  have "distinct (map at_validator atts) \<and> attestation_count s h = length atts \<and>
      (\<forall>a \<in> set atts. at_block_hash a = h \<and> last_finalized_number s < at_block_number a)"
    if "get_attestations s h = Some atts" for h atts
  proof -
    have ok: "block_ok s h atts"
      using fin_inv_store [OF inv] that by (simp add: get_attestations_def)
    then have d: "distinct (map at_validator atts)" by (simp add: block_ok_def)
    have "fcard (fset_of_list (map at_validator atts)) = length atts"
      using distinct_card [OF d] by (simp add: fcard.rep_eq fset_of_list.rep_eq)
    with ok d show ?thesis by (auto simp: block_ok_def attestation_count_def same_context_def)
  qed
  with inv show ?thesis by (simp add: fin_inv_def)
qed

theorem attestation_pool_bounded_witness:
  "attestation_count
     (foldl (fin_step sample_weight) (with_finalized 0 hash_zero) (sample_ops (ShellHash 8)))
     (ShellHash 8) = 3"
proof -
  let ?s = "foldl (fin_step sample_weight) (with_finalized 0 hash_zero) (sample_ops (ShellHash 8))"
  have "get_attestations ?s (ShellHash 8) =
          Some (map (sample_attestation (ShellHash 8)) [Address 1, Address 2, Address 3])"
    by code_simp
  with attestation_pool_bounded [OF refl, of sample_weight 0 hash_zero "sample_ops (ShellHash 8)"]
  show ?thesis by auto
qed

section \<open>Batch verification of stored attestations\<close>

lemma verify_batch_all_verify_batch:
  "verify_batch_all v items = Inr () \<longleftrightarrow> (\<exists>rs. verify_batch v items = Inr rs \<and> list_all id rs)"
  by (cases "verify_batch v items") (simp_all add: verify_batch_all_def)

lemma collect_results_map_Inr: "collect_results (map (\<lambda>x. Inr (f x)) xs) = Inr (map f xs)"
  by (simp add: collect_results_Inr_iff)

text \<open>The item that the code builds for an attestation whose signature was assembled.\<close>

definition item_of ::
  "registry_env \<Rightarrow> hash_fn \<Rightarrow> (address, u8 list) hashmap \<Rightarrow> attestation \<Rightarrow> verify_item" where
  "item_of env blake3 authorities att =
     \<lparr>item_pubkey = hm_get_or authorities (at_validator att) [],
      item_message = attestation_own_signing_message att,
      item_signature = projr (attestation_pq_signature env blake3 authorities att)\<rparr>"

lemma attestation_pq_signature_Inr:
  "attestation_pq_signature env blake3 authorities att = Inr sig \<longleftrightarrow>
     (\<exists>pk st. hm_get authorities (at_validator att) = Some pk
        \<and> infer_signature_type_from_address env blake3 pk (at_validator att) = Some st
        \<and> is_algorithm_allowed env st \<and> sig = pq_signature_new st (at_signature att))"
  by (auto simp: attestation_pq_signature_def split: option.splits if_splits)

lemma attestation_items:
  assumes "map (attestation_pq_signature env blake3 authorities) atts = map Inr sigs"
  shows "map (attestation_item authorities) (zip atts sigs) =
           map (\<lambda>a. Inr (item_of env blake3 authorities a)) atts"
  using assms
proof (induction atts arbitrary: sigs)
  case (Cons a atts)
  then obtain sig sigs' where sigs: "sigs = sig # sigs'"
    and a: "attestation_pq_signature env blake3 authorities a = Inr sig"
    and rest: "map (attestation_pq_signature env blake3 authorities) atts = map Inr sigs'"
    by (cases sigs) auto
  from a obtain pk where "hm_get authorities (at_validator a) = Some pk"
    by (auto simp: attestation_pq_signature_Inr)
  with a have "attestation_item authorities (a, sig) = Inr (item_of env blake3 authorities a)"
    by (simp add: attestation_item_def item_of_def hm_get_or_def)
  with Cons.IH [OF rest] sigs show ?case by simp
qed simp

lemma batch_verify_items:
  assumes st: "hm_get (attestation_store s) h = Some atts"
    and sigs: "\<And>a. a \<in> set atts \<Longrightarrow> \<exists>sig. attestation_pq_signature env blake3 authorities a = Inr sig"
  shows "batch_verify_attestations env blake3 bv s h authorities =
           bv (map (item_of env blake3 authorities) atts)"
proof -
  let ?sig = "attestation_pq_signature env blake3 authorities"
  let ?sigs = "map (\<lambda>a. projr (?sig a)) atts"
  have "?sig a = Inr (projr (?sig a))" if "a \<in> set atts" for a using sigs [OF that] by auto
  then have map: "map ?sig atts = map Inr ?sigs" by simp
  then have "collect_results (map ?sig atts) = Inr ?sigs" by (simp only: collect_results_Inr_iff)
  with st attestation_items [OF map] show ?thesis
    by (simp add: batch_verify_attestations_def collect_results_map_Inr)
qed

lemma batch_verify_Inr_sigs:
  assumes st: "hm_get (attestation_store s) h = Some atts"
    and res: "batch_verify_attestations env blake3 bv s h authorities = Inr rs" and a: "a \<in> set atts"
  shows "\<exists>sig. attestation_pq_signature env blake3 authorities a = Inr sig"
proof -
  obtain sigs where "collect_results (map (attestation_pq_signature env blake3 authorities) atts) = Inr sigs"
    using st res by (auto simp: batch_verify_attestations_def split: sum.splits)
  then have "map (attestation_pq_signature env blake3 authorities) atts = map Inr sigs"
    by (simp only: collect_results_Inr_iff)
  moreover have "attestation_pq_signature env blake3 authorities a
      \<in> set (map (attestation_pq_signature env blake3 authorities) atts)" using a by simp
  ultimately show ?thesis by auto
qed

definition attestation_verifies ::
  "registry_env \<Rightarrow> hash_fn \<Rightarrow> verifier \<Rightarrow> (address, u8 list) hashmap \<Rightarrow> attestation \<Rightarrow> bool" where
  "attestation_verifies env blake3 v authorities a \<longleftrightarrow>
     (\<exists>pk st. hm_get authorities (at_validator a) = Some pk
        \<and> infer_signature_type_from_address env blake3 pk (at_validator a) = Some st
        \<and> is_algorithm_allowed env st
        \<and> v pk (attestation_own_signing_message a) (pq_signature_new st (at_signature a)) = Inr True)"

lemma attestation_verifies_item:
  "attestation_verifies env blake3 v authorities a \<longleftrightarrow>
     (\<exists>sig. attestation_pq_signature env blake3 authorities a = Inr sig)
     \<and> v (item_pubkey (item_of env blake3 authorities a))
         (item_message (item_of env blake3 authorities a))
         (item_signature (item_of env blake3 authorities a)) = Inr True"
proof (cases "attestation_pq_signature env blake3 authorities a")
  case (Inl e)
  then have none: "\<not> (\<exists>sig. attestation_pq_signature env blake3 authorities a = Inr sig)" by simp
  then have "\<not> attestation_verifies env blake3 v authorities a"
    unfolding attestation_pq_signature_Inr attestation_verifies_def by blast
  with none show ?thesis by blast
next
  case (Inr sig)
  then obtain pk st where "hm_get authorities (at_validator a) = Some pk"
    "infer_signature_type_from_address env blake3 pk (at_validator a) = Some st"
    "is_algorithm_allowed env st" "sig = pq_signature_new st (at_signature a)"
    by (auto simp: attestation_pq_signature_Inr)
  with Inr show ?thesis by (simp add: attestation_verifies_def item_of_def hm_get_or_def)
qed

text \<open>
  C33: batch verification of the attestations of a block accepts all of them exactly when every
  attester has a registered key whose address fixes an allowed signature algorithm, and the
  attester's signature verifies over the payload of the attestation's own fields.
\<close>

theorem batch_verification_exact:
  assumes atts: "get_attestations s h = Some atts"
  shows "(\<exists>rs. batch_verify_attestations env blake3 (verify_batch v) s h authorities = Inr rs
              \<and> list_all id rs) \<longleftrightarrow>
    (\<forall>a \<in> set atts. \<exists>pk st. hm_get authorities (at_validator a) = Some pk
        \<and> infer_signature_type_from_address env blake3 pk (at_validator a) = Some st
        \<and> is_algorithm_allowed env st
        \<and> v pk (attestation_own_signing_message a) (pq_signature_new st (at_signature a)) = Inr True)"
    (is "?batch \<longleftrightarrow> ?each")
proof -
  let ?sigs = "\<forall>a \<in> set atts. \<exists>sig. attestation_pq_signature env blake3 authorities a = Inr sig"
  note st = atts [unfolded get_attestations_def]
  have "?batch \<longleftrightarrow> ?sigs \<and> ?batch" using batch_verify_Inr_sigs [OF st] by blast
  also have "\<dots> \<longleftrightarrow> ?sigs \<and> verify_batch_all v (map (item_of env blake3 authorities) atts) = Inr ()"
    by (auto simp: batch_verify_items [OF st] verify_batch_all_verify_batch)
  also have "\<dots> \<longleftrightarrow> (\<forall>a \<in> set atts. attestation_verifies env blake3 v authorities a)"
    by (auto simp: verify_batch_all_iff attestation_verifies_item)
  finally show ?thesis unfolding attestation_verifies_def .
qed

theorem batch_verification_exact_witness:
  "let s = foldl (fin_step sample_weight) (with_finalized 0 hash_zero) (sample_ops (ShellHash 8));
       env = \<lparr>env_global = from_allowlist, env_overrides = []\<rparr>;
       keys = hm_from_list [(Address 1, [1]), (Address 2, [2]), (Address 3, [3])];
       blake3 = (\<lambda>bs. ShellHash (ucast (last bs)))
   in \<exists>rs. batch_verify_attestations env blake3 (verify_batch (\<lambda>pk msg sig. Inr True)) s (ShellHash 8) keys
             = Inr rs \<and> list_all id rs"
proof -
  let ?s = "foldl (fin_step sample_weight) (with_finalized 0 hash_zero) (sample_ops (ShellHash 8))"
  let ?atts = "map (sample_attestation (ShellHash 8)) [Address 1, Address 2, Address 3]"
  let ?env = "\<lparr>env_global = from_allowlist, env_overrides = []\<rparr>"
  let ?keys = "hm_from_list [(Address 1, [1]), (Address 2, [2]), (Address 3, [3])]"
  let ?blake3 = "\<lambda>bs :: u8 list. ShellHash (ucast (last bs))"
  have atts: "get_attestations ?s (ShellHash 8) = Some ?atts" by code_simp
  have keys: "hm_get ?keys (Address 1) = Some [1 :: u8]" "hm_get ?keys (Address 2) = Some [2 :: u8]"
    "hm_get ?keys (Address 3) = Some [3 :: u8]"
    by code_simp+
  have alg: "infer_signature_type_from_address ?env ?blake3 [1] (Address 1) = Some MlDsa65"
    "infer_signature_type_from_address ?env ?blake3 [2] (Address 2) = Some MlDsa65"
    "infer_signature_type_from_address ?env ?blake3 [3] (Address 3) = Some MlDsa65"
    "is_algorithm_allowed ?env MlDsa65"
    by code_simp+
  have "\<forall>a \<in> set ?atts. \<exists>pk st. hm_get ?keys (at_validator a) = Some pk
      \<and> infer_signature_type_from_address ?env ?blake3 pk (at_validator a) = Some st
      \<and> is_algorithm_allowed ?env st \<and> (Inr True :: crypto_error + bool) = Inr True"
    using keys alg by (simp add: sample_attestation_def attestation_new_def)
  then show ?thesis
    unfolding Let_def by (rule iffD2 [OF batch_verification_exact [OF atts]])
qed

end
