(* ===== verification/Fork_Choice.thy ===== *)
theory Fork_Choice
  imports Consensus_Base
begin

text \<open>
  \<open>crates/consensus/src/fork_choice.rs\<close>: the block tree, block scores, the choice of the
  canonical head, marking of finalized blocks, pruning and removal of invalid subtrees.
\<close>

section \<open>Scores\<close>

datatype block_score =
  BlockScore (bs_is_finalized: u8) (bs_attested_weight: u64) (bs_block_number: u64)
    (bs_block_hash: shell_hash)

text \<open>\<open>std::cmp::Ordering\<close>, \<open>Ord::cmp\<close> of a totally ordered field, and \<open>Ordering::then\<close>.\<close>

datatype ordering = OrdLess | OrdEqual | OrdGreater

definition cmp_fields :: "'a::linorder \<Rightarrow> 'a \<Rightarrow> ordering" where
  "cmp_fields a b = (if a < b then OrdLess else if a = b then OrdEqual else OrdGreater)"

definition then_cmp :: "ordering \<Rightarrow> ordering \<Rightarrow> ordering" where
  "then_cmp first_cmp next_cmp = (if first_cmp = OrdEqual then next_cmp else first_cmp)"

text \<open>\<open>Ord for BlockScore\<close>: field by field, with the hash comparison inverted.\<close>

definition block_score_cmp :: "block_score \<Rightarrow> block_score \<Rightarrow> ordering" where
  "block_score_cmp a b =
     then_cmp (then_cmp (then_cmp
       (cmp_fields (bs_is_finalized a) (bs_is_finalized b))
       (cmp_fields (bs_attested_weight a) (bs_attested_weight b)))
       (cmp_fields (bs_block_number a) (bs_block_number b)))
       (cmp_fields (bs_block_hash b) (bs_block_hash a))"

lemma block_score_cmp_less:
  "block_score_cmp a b = OrdLess \<longleftrightarrow>
     bs_is_finalized a < bs_is_finalized b \<or> bs_is_finalized a = bs_is_finalized b \<and>
     (bs_attested_weight a < bs_attested_weight b \<or> bs_attested_weight a = bs_attested_weight b \<and>
      (bs_block_number a < bs_block_number b \<or> bs_block_number a = bs_block_number b \<and>
       bs_block_hash b < bs_block_hash a))"
  by (auto simp: block_score_cmp_def then_cmp_def cmp_fields_def)

lemma block_score_cmp_equal: "block_score_cmp a b = OrdEqual \<longleftrightarrow> a = b"
  by (cases a; cases b) (auto simp: block_score_cmp_def then_cmp_def cmp_fields_def)

instantiation block_score :: linorder
begin

definition less_block_score :: "block_score \<Rightarrow> block_score \<Rightarrow> bool" where
  "less_block_score a b \<longleftrightarrow> block_score_cmp a b = OrdLess"

definition less_eq_block_score :: "block_score \<Rightarrow> block_score \<Rightarrow> bool" where
  "less_eq_block_score a b \<longleftrightarrow> block_score_cmp a b = OrdLess \<or> block_score_cmp a b = OrdEqual"

instance
proof
  fix x y z :: block_score
  note order = less_eq_block_score_def less_block_score_def block_score_cmp_less block_score_cmp_equal
  show "x < y \<longleftrightarrow> x \<le> y \<and> \<not> y \<le> x" by (auto simp: order)
  show "x \<le> x" by (simp add: order)
  show "x \<le> y \<Longrightarrow> y \<le> z \<Longrightarrow> x \<le> z" by (auto simp: order)
  show "x \<le> y \<Longrightarrow> y \<le> x \<Longrightarrow> x = y" by (auto simp: order)
  show "x \<le> y \<or> y \<le> x" by (cases x; cases y) (auto simp: order)
qed

end

lemmas block_score_order = less_eq_block_score_def less_block_score_def block_score_cmp_less block_score_cmp_equal

section \<open>The tree\<close>

record fork_choice =
  parent_map :: "(shell_hash, shell_hash) hashmap"
  scores :: "(shell_hash, block_score) hashmap"
  finalized_root :: "shell_hash option"
  fc_head :: shell_hash
  head_score :: block_score

definition fork_choice_new :: "shell_hash \<Rightarrow> fork_choice" where
  "fork_choice_new genesis_hash =
     (let score = BlockScore 0 0 0 genesis_hash in
      \<lparr>parent_map = hm_insert hm_new genesis_hash hash_zero,
       scores = hm_insert hm_new genesis_hash score,
       finalized_root = None, fc_head = genesis_hash, head_score = score\<rparr>)"

definition add_block ::
  "fork_choice \<Rightarrow> shell_hash \<Rightarrow> shell_hash \<Rightarrow> u64 \<Rightarrow> u64 \<Rightarrow> bool \<Rightarrow> bool \<times> fork_choice" where
  "add_block s block_hash parent_hash block_number attested_weight is_on_finalized_chain =
     (let is_finalized =
            (case finalized_root s of
               Some _ \<Rightarrow> (case hm_get (scores s) parent_hash of
                            None \<Rightarrow> False
                          | Some score \<Rightarrow> bs_is_finalized score = 1)
             | None \<Rightarrow> is_on_finalized_chain);
          score = BlockScore (if is_finalized then 1 else 0) attested_weight block_number block_hash;
          s = s\<lparr>parent_map := hm_insert (parent_map s) block_hash parent_hash,
                scores := hm_insert (scores s) block_hash score\<rparr>
      in if head_score s < score
         then (True, s\<lparr>fc_head := block_hash, head_score := score\<rparr>)
         else (False, s))"

definition with_weight :: "u64 \<Rightarrow> block_score \<Rightarrow> block_score" where
  "with_weight w sc = BlockScore (bs_is_finalized sc) w (bs_block_number sc) (bs_block_hash sc)"

definition update_attested_weight :: "fork_choice \<Rightarrow> shell_hash \<Rightarrow> u64 \<Rightarrow> bool \<times> fork_choice" where
  "update_attested_weight s block_hash new_weight =
     (case hm_get (scores s) block_hash of
        None \<Rightarrow> (False, s)
      | Some score \<Rightarrow>
          let updated_score = with_weight new_weight score;
              s = s\<lparr>scores := hm_insert (scores s) block_hash updated_score\<rparr>
          in if block_hash = fc_head s then (False, s\<lparr>head_score := updated_score\<rparr>)
             else if head_score s < updated_score
             then (True, s\<lparr>fc_head := block_hash, head_score := updated_score\<rparr>)
             else (False, s))"

text \<open>\<open>Iterator::max_by\<close>: the last of the greatest entries.\<close>

fun max_entry :: "('k \<times> 'v::linorder) \<Rightarrow> ('k \<times> 'v) list \<Rightarrow> 'k \<times> 'v" where
  "max_entry best [] = best"
| "max_entry best (e # es) = max_entry (if snd best \<le> snd e then e else best) es"

definition recalculate_head :: "fork_choice \<Rightarrow> fork_choice" where
  "recalculate_head s =
     (case hm_entries (scores s) of
        [] \<Rightarrow> s
      | e # es \<Rightarrow> (let (hash, score) = max_entry e es in s\<lparr>fc_head := hash, head_score := score\<rparr>))"

text \<open>The map from a block to its children, filled from the entries of the parent map.\<close>

definition children_of ::
  "(shell_hash, shell_hash) hashmap \<Rightarrow> (shell_hash, shell_hash list) hashmap" where
  "children_of pm =
     foldl (\<lambda>ch (child, parent). hm_insert ch parent (hm_get_or ch parent [] @ [child]))
       hm_new (hm_entries pm)"

definition all_children :: "(shell_hash, shell_hash list) hashmap \<Rightarrow> shell_hash set" where
  "all_children ch = (\<Union>cs \<in> set (hm_values ch). set cs)"

lemma finite_all_children [simp]: "finite (all_children ch)"
  by (simp add: all_children_def)

lemma children_in_all: "hm_get ch p = Some cs \<Longrightarrow> set cs \<subseteq> all_children ch"
  by (auto simp: all_children_def set_hm_values ran_def)

lemma children_list_in_all: "set (hm_get_or ch p []) \<subseteq> all_children ch"
  by (cases "hm_get ch p") (simp_all add: hm_get_or_def children_in_all)

text \<open>
  The depth-first loop of \<open>mark_finalized\<close> and \<open>remove_subtree\<close>. The stack is a list
  whose head is the last element of the vector, so \<open>extend\<close> puts the children on it in reverse.
\<close>

function mark_loop ::
  "(shell_hash, shell_hash list) hashmap \<Rightarrow> shell_hash list \<Rightarrow> shell_hash fset \<Rightarrow> shell_hash fset" where
  "mark_loop ch [] marked = marked"
| "mark_loop ch (parent # stack) marked =
     (if parent |\<in>| marked then mark_loop ch stack marked
      else mark_loop ch (rev (hm_get_or ch parent []) @ stack) (finsert parent marked))"
  by pat_completeness auto

termination
proof (relation "measures [\<lambda>(ch, stack, marked). card ((all_children ch \<union> set stack) - fset marked),
                           \<lambda>(ch, stack, marked). length stack]", goal_cases)
  case 1
  show ?case by simp
next
  case (2 ch parent stack marked)
  have "card (all_children ch \<union> set stack - fset marked)
          \<le> card (all_children ch \<union> set (parent # stack) - fset marked)"
    by (rule card_mono) auto
  then show ?case by auto
next
  case (3 ch parent stack marked)
  have "set (hm_get_or ch parent []) \<subseteq> all_children ch" by (rule children_list_in_all)
  then have "all_children ch \<union> set (rev (hm_get_or ch parent []) @ stack) - fset (finsert parent marked)
               \<subset> all_children ch \<union> set (parent # stack) - fset marked"
    using 3 by auto
  then have "card (all_children ch \<union> set (rev (hm_get_or ch parent []) @ stack)
                     - fset (finsert parent marked))
               < card (all_children ch \<union> set (parent # stack) - fset marked)"
    by (rule psubset_card_mono [rotated]) simp
  then show ?case by simp
qed

text \<open>The loop of \<open>prune_below\<close>, which marks a block when it is pushed.\<close>

fun push_new ::
  "shell_hash list \<Rightarrow> shell_hash fset \<Rightarrow> shell_hash list \<Rightarrow> shell_hash fset \<times> shell_hash list" where
  "push_new [] protected pending = (protected, pending)"
| "push_new (child # cs) protected pending =
     (if child |\<in>| protected then push_new cs protected pending
      else push_new cs (finsert child protected) (child # pending))"

lemma push_new_spec:
  "push_new cs protected pending = (protected', pending') \<Longrightarrow>
     fset protected' = fset protected \<union> set cs
     \<and> set pending' = set pending \<union> (set cs - fset protected)
     \<and> (set cs \<subseteq> fset protected \<longrightarrow> pending' = pending)"
proof (induction cs protected pending rule: push_new.induct)
  case (2 child cs protected pending)
  then show ?case by (cases "child |\<in>| protected") auto
qed simp

function protect_loop ::
  "(shell_hash, shell_hash list) hashmap \<Rightarrow> shell_hash list \<Rightarrow> shell_hash fset \<Rightarrow> shell_hash fset" where
  "protect_loop ch [] protected = protected"
| "protect_loop ch (parent # pending) protected =
     (case push_new (hm_get_or ch parent []) protected pending of
        (protected', pending') \<Rightarrow> protect_loop ch pending' protected')"
  by pat_completeness auto

termination
proof (relation "measures [\<lambda>(ch, pending, protected). card (all_children ch - fset protected),
                           \<lambda>(ch, pending, protected). length pending]", goal_cases)
  case 1
  show ?case by simp
next
  case (2 ch parent pending protected protected' pending')
  let ?cs = "hm_get_or ch parent []"
  have all: "set ?cs \<subseteq> all_children ch" by (rule children_list_in_all)
  have spec: "fset protected' = fset protected \<union> set ?cs"
    "set ?cs \<subseteq> fset protected \<longrightarrow> pending' = pending"
    using push_new_spec [of ?cs protected pending protected' pending'] 2 by auto
  show ?case
  proof (cases "set ?cs \<subseteq> fset protected")
    case True
    then have "fset protected' = fset protected" using spec(1) by auto
    with True spec(2) show ?thesis by simp
  next
    case False
    then have "all_children ch - fset protected' \<subset> all_children ch - fset protected"
      using all spec(1) by auto
    then have "card (all_children ch - fset protected') < card (all_children ch - fset protected)"
      by (rule psubset_card_mono [rotated]) simp
    then show ?thesis by simp
  qed
qed

text \<open>
  \<open>chain_between\<close>: the iteration bound of the loop is the fuel, and \<open>None\<close> of the
  parent map is the broken chain.
\<close>

fun chain_walk ::
  "(shell_hash, shell_hash) hashmap \<Rightarrow> shell_hash \<Rightarrow> nat \<Rightarrow> shell_hash \<Rightarrow> shell_hash list \<Rightarrow>
     shell_hash list" where
  "chain_walk pm to_hash fuel current chain =
     (if current = to_hash then rev chain
      else case fuel of
          0 \<Rightarrow> []
        | Suc fuel' \<Rightarrow>
            (case hm_get pm current of
               Some parent \<Rightarrow> chain_walk pm to_hash fuel' parent (chain @ [current])
             | None \<Rightarrow> []))"

definition chain_between :: "fork_choice \<Rightarrow> shell_hash \<Rightarrow> shell_hash \<Rightarrow> shell_hash list" where
  "chain_between s from_hash to_hash =
     chain_walk (parent_map s) to_hash (hm_len (parent_map s) + 1) from_hash []"

definition with_finalized_flag :: "u8 \<Rightarrow> block_score \<Rightarrow> block_score" where
  "with_finalized_flag f sc =
     BlockScore f (bs_attested_weight sc) (bs_block_number sc) (bs_block_hash sc)"

definition mark_finalized :: "fork_choice \<Rightarrow> shell_hash \<Rightarrow> bool \<times> fork_choice" where
  "mark_finalized s block_hash =
     (if \<not> hm_contains (scores s) block_hash then (False, s)
      else if (case finalized_root s of
                 None \<Rightarrow> False
               | Some root \<Rightarrow> root \<noteq> block_hash \<and> chain_between s block_hash root = [])
      then (False, s)
      else
        let old_head = fc_head s;
            children = children_of (parent_map s);
            cleared = hm_map (\<lambda>_ sc. with_finalized_flag 0 sc) (scores s);
            marked = mark_loop children [block_hash] {||};
            s = recalculate_head (s\<lparr>
                  scores := hm_map (\<lambda>h sc. if h |\<in>| marked then with_finalized_flag 1 sc else sc) cleared,
                  finalized_root := Some block_hash\<rparr>)
        in (fc_head s \<noteq> old_head, s))"

text \<open>\<open>Iterator::min_by\<close> on hashes.\<close>

fun min_hash :: "shell_hash list \<Rightarrow> shell_hash option" where
  "min_hash [] = None"
| "min_hash (h # hs) = Some (foldl min h hs)"

definition prune_below :: "fork_choice \<Rightarrow> u64 \<Rightarrow> fork_choice" where
  "prune_below s finalized_number =
     (case min_hash (map fst (filter (\<lambda>(_, sc). bs_is_finalized sc = 1
                                        \<and> bs_block_number sc = finalized_number)
                                (hm_entries (scores s)))) of
        None \<Rightarrow> s
      | Some finalized_hash \<Rightarrow>
          let children = children_of (parent_map s);
              protected = protect_loop children [finalized_hash] {|finalized_hash|}
          in recalculate_head (s\<lparr>
               scores := hm_map (\<lambda>_ sc. with_finalized_flag 1 sc)
                           (hm_retain (\<lambda>h _. h |\<in>| protected) (scores s)),
               parent_map := hm_insert (hm_retain (\<lambda>h _. h |\<in>| protected) (parent_map s))
                               finalized_hash hash_zero,
               finalized_root := Some finalized_hash\<rparr>))"

definition remove_subtree :: "fork_choice \<Rightarrow> shell_hash \<Rightarrow> bool \<times> fork_choice" where
  "remove_subtree s root =
     (if finalized_root s = Some root \<or> hm_get (parent_map s) root = Some hash_zero
         \<or> \<not> hm_contains (scores s) root
      then (False, s)
      else
        let removed = mark_loop (children_of (parent_map s)) [root] {||}
        in if (case finalized_root s of None \<Rightarrow> False | Some f \<Rightarrow> f |\<in>| removed) then (False, s)
           else (True, recalculate_head (s\<lparr>
                  scores := hm_retain (\<lambda>h _. h |\<notin>| removed) (scores s),
                  parent_map := hm_retain (\<lambda>h _. h |\<notin>| removed) (parent_map s)\<rparr>)))"

definition fc_score :: "fork_choice \<Rightarrow> shell_hash \<Rightarrow> block_score option" where
  "fc_score s h = hm_get (scores s) h"

definition fc_parent :: "fork_choice \<Rightarrow> shell_hash \<Rightarrow> shell_hash option" where
  "fc_parent s h = hm_get (parent_map s) h"

definition fc_contains :: "fork_choice \<Rightarrow> shell_hash \<Rightarrow> bool" where
  "fc_contains s h = hm_contains (scores s) h"

text \<open>
  The two loops of \<open>find_common_ancestor\<close> have no bound in the code; \<open>None\<close> of the
  outer option stands for a walk that never ends.
\<close>

partial_function (option) ancestors_loop ::
  "(shell_hash, shell_hash) hashmap \<Rightarrow> shell_hash \<Rightarrow> shell_hash fset \<Rightarrow> shell_hash fset option" where
  "ancestors_loop pm current ancestors =
     (case hm_get pm current of
        Some parent \<Rightarrow>
          (if parent \<noteq> hash_zero then ancestors_loop pm parent (finsert current ancestors)
           else Some (finsert current ancestors))
      | None \<Rightarrow> Some (finsert current ancestors))"

partial_function (option) common_loop ::
  "(shell_hash, shell_hash) hashmap \<Rightarrow> shell_hash fset \<Rightarrow> shell_hash \<Rightarrow> shell_hash option option" where
  "common_loop pm ancestors current =
     (if current |\<in>| ancestors then Some (Some current)
      else case hm_get pm current of
          Some parent \<Rightarrow>
            (if parent \<noteq> hash_zero then common_loop pm ancestors parent
             else if current |\<in>| ancestors then Some (Some current) else Some None)
        | None \<Rightarrow> Some None)"

definition find_common_ancestor ::
  "fork_choice \<Rightarrow> shell_hash \<Rightarrow> shell_hash \<Rightarrow> shell_hash option option" where
  "find_common_ancestor s hash_a hash_b =
     (case ancestors_loop (parent_map s) hash_a {||} of
        None \<Rightarrow> None
      | Some ancestors_a \<Rightarrow> common_loop (parent_map s) ancestors_a hash_b)"

section \<open>Descendants and the search loops\<close>

inductive descends :: "(shell_hash, shell_hash) hashmap \<Rightarrow> shell_hash \<Rightarrow> shell_hash \<Rightarrow> bool"
  for pm :: "(shell_hash, shell_hash) hashmap" and r :: shell_hash where
  descends_refl: "descends pm r r"
| descends_child: "descends pm r p \<Longrightarrow> hm_get pm c = Some p \<Longrightarrow> descends pm r c"

lemma descends_trans: "descends pm b c \<Longrightarrow> descends pm a b \<Longrightarrow> descends pm a c"
  by (induction rule: descends.induct) (auto intro: descends_child)

lemma descends_new_root:
  assumes "descends pm a c" "a \<noteq> c"
  shows "\<exists>p. hm_get pm c = Some p \<and> descends pm a p"
  using assms by (cases rule: descends.cases) auto

lemma descends_iff_parent:
  assumes "hm_get pm c = Some p" "a \<noteq> c"
  shows "descends pm a c \<longleftrightarrow> descends pm a p"
  using assms descends_new_root [of pm a c] by (auto intro: descends_child)

lemma foldl_children:
  "c \<in> set (hm_get_or (foldl (\<lambda>ch (child, parent).
        hm_insert ch parent (hm_get_or ch parent [] @ [child])) ch es) p []) \<longleftrightarrow>
     c \<in> set (hm_get_or ch p []) \<or> (c, p) \<in> set es"
proof (induction es arbitrary: ch)
  case (Cons e es)
  obtain a b where e: "e = (a, b)" by (cases e)
  show ?case
    unfolding e foldl_Cons prod.case Cons.IH by (cases "p = b") auto
qed simp

lemma children_of_iff: "c \<in> set (hm_get_or (children_of pm) p []) \<longleftrightarrow> hm_get pm c = Some p"
  unfolding children_of_def foldl_children by (simp add: hm_get_or_new hm_in_entries)

lemma mark_loop_mono: "fset marked \<union> set stack \<subseteq> fset (mark_loop ch stack marked)"
  by (induction ch stack marked rule: mark_loop.induct) auto

lemma mark_loop_closed:
  "(\<And>x. x |\<in>| marked \<Longrightarrow> set (hm_get_or ch x []) \<subseteq> fset marked \<union> set stack) \<Longrightarrow>
     x |\<in>| mark_loop ch stack marked \<Longrightarrow>
     set (hm_get_or ch x []) \<subseteq> fset (mark_loop ch stack marked)"
proof (induction ch stack marked rule: mark_loop.induct)
  case (2 ch parent stack marked)
  show ?case
  proof (cases "parent |\<in>| marked")
    case True
    have "set (hm_get_or ch y []) \<subseteq> fset marked \<union> set stack" if "y |\<in>| marked" for y
      using 2(3) [OF that] True by auto
    with 2(1) [OF True] 2(4) True show ?thesis by simp
  next
    case False
    have "set (hm_get_or ch y []) \<subseteq> fset (finsert parent marked) \<union>
            set (rev (hm_get_or ch parent []) @ stack)" if "y |\<in>| finsert parent marked" for y
      using that 2(3) [of y] by auto
    with 2(2) [OF False] 2(4) False show ?thesis by simp
  qed
qed auto

lemma mark_loop_bound:
  "(\<And>x. x \<in> set stack \<Longrightarrow> P x) \<Longrightarrow> (\<And>x c. P x \<Longrightarrow> c \<in> set (hm_get_or ch x []) \<Longrightarrow> P c) \<Longrightarrow>
     y |\<in>| mark_loop ch stack marked \<Longrightarrow> y |\<in>| marked \<or> P y"
proof (induction ch stack marked rule: mark_loop.induct)
  case (2 ch parent stack marked)
  show ?case
  proof (cases "parent |\<in>| marked")
    case True
    then show ?thesis using 2(1) [OF True] 2(3-5) by simp
  next
    case False
    have par: "P parent" using 2(3) by simp
    have stack: "P x" if "x \<in> set (rev (hm_get_or ch parent []) @ stack)" for x
      using that 2(3) 2(4) [OF par] by auto
    have "y |\<in>| finsert parent marked \<or> P y"
      using 2(5) False by (intro 2(2) [OF False stack 2(4)]) simp_all
    with par show ?thesis by auto
  qed
qed auto

lemma mark_loop_descendants:
  "x |\<in>| mark_loop (children_of pm) [r] {||} \<longleftrightarrow> descends pm r x"
proof
  let ?R = "mark_loop (children_of pm) [r] {||}"
  show "descends pm r x" if "x |\<in>| ?R"
    using mark_loop_bound [of "[r]" "descends pm r" "children_of pm" x "{||}"] that
    by (auto simp: children_of_iff intro: descends.intros)
  show "x |\<in>| ?R" if "descends pm r x"
    using that
  proof induction
    case descends_refl
    show ?case using mark_loop_mono [of "{||}" "[r]" "children_of pm"] by simp
  next
    case (descends_child p c)
    have "set (hm_get_or (children_of pm) p []) \<subseteq> fset ?R"
      using descends_child.IH by (intro mark_loop_closed) auto
    then show ?case using descends_child.hyps(2) children_of_iff [of c pm p] by auto
  qed
qed

lemma protect_loop_mono: "fset protected \<subseteq> fset (protect_loop ch pending protected)"
proof (induction ch pending protected rule: protect_loop.induct)
  case (2 ch parent pending protected)
  obtain protected' pending' where push:
    "push_new (hm_get_or ch parent []) protected pending = (protected', pending')"
    by (cases "push_new (hm_get_or ch parent []) protected pending") auto
  have "fset protected \<subseteq> fset protected'" using push_new_spec [OF push] by blast
  with 2 [OF push [symmetric]] push show ?case by simp
qed simp

lemma protect_loop_closed:
  "(\<And>x. x |\<in>| protected \<Longrightarrow> x \<in> set pending \<or> set (hm_get_or ch x []) \<subseteq> fset protected) \<Longrightarrow>
     x |\<in>| protect_loop ch pending protected \<Longrightarrow>
     set (hm_get_or ch x []) \<subseteq> fset (protect_loop ch pending protected)"
proof (induction ch pending protected rule: protect_loop.induct)
  case (1 ch protected)
  then show ?case by auto
next
  case (2 ch parent pending protected)
  obtain protected' pending' where push:
    "push_new (hm_get_or ch parent []) protected pending = (protected', pending')"
    by (cases "push_new (hm_get_or ch parent []) protected pending") auto
  note spec = push_new_spec [OF push]
  have "y \<in> set pending' \<or> set (hm_get_or ch y []) \<subseteq> fset protected'" if "y |\<in>| protected'" for y
    using that spec 2(2) [of y] by auto
  with 2(1) [OF push [symmetric]] 2(3) push show ?case by simp
qed

lemma protect_loop_bound:
  "(\<And>x. x \<in> set pending \<Longrightarrow> P x) \<Longrightarrow> (\<And>x c. P x \<Longrightarrow> c \<in> set (hm_get_or ch x []) \<Longrightarrow> P c) \<Longrightarrow>
     y |\<in>| protect_loop ch pending protected \<Longrightarrow> y |\<in>| protected \<or> P y"
proof (induction ch pending protected rule: protect_loop.induct)
  case (2 ch parent pending protected)
  obtain protected' pending' where push:
    "push_new (hm_get_or ch parent []) protected pending = (protected', pending')"
    by (cases "push_new (hm_get_or ch parent []) protected pending") auto
  note spec = push_new_spec [OF push]
  have cs: "P c" if "c \<in> set (hm_get_or ch parent [])" for c
    using 2(3) [of parent c] 2(2) [of parent] that by simp
  have stack: "P x" if "x \<in> set pending'" for x
    using that spec 2(2) cs by auto
  have "y |\<in>| protected' \<or> P y"
    using 2(4) push by (intro 2(1) [OF push [symmetric] stack 2(3)]) simp_all
  with spec cs show ?case by auto
qed auto

lemma protect_loop_descendants:
  "x |\<in>| protect_loop (children_of pm) [r] {|r|} \<longleftrightarrow> descends pm r x"
proof
  let ?R = "protect_loop (children_of pm) [r] {|r|}"
  show "descends pm r x" if "x |\<in>| ?R"
    using protect_loop_bound [of "[r]" "descends pm r" "children_of pm" x "{|r|}"] that
    by (auto simp: children_of_iff intro: descends.intros)
  show "x |\<in>| ?R" if "descends pm r x"
    using that
  proof induction
    case descends_refl
    show ?case using protect_loop_mono [of "{|r|}" "children_of pm" "[r]"] by simp
  next
    case (descends_child p c)
    have "set (hm_get_or (children_of pm) p []) \<subseteq> fset ?R"
      using descends_child.IH by (intro protect_loop_closed) auto
    then show ?case using descends_child.hyps(2) children_of_iff [of c pm p] by auto
  qed
qed

declare mark_loop.simps [simp del] protect_loop.simps [simp del] chain_walk.simps [simp del]

section \<open>The head\<close>

definition head_ok :: "fork_choice \<Rightarrow> bool" where
  "head_ok s \<longleftrightarrow>
     hm_get (scores s) (fc_head s) = Some (head_score s)
     \<and> (\<forall>h sc. hm_get (scores s) h = Some sc \<longrightarrow> sc \<le> head_score s)"

lemma max_entry_spec:
  "max_entry e es \<in> set (e # es) \<and> (\<forall>x \<in> set (e # es). snd x \<le> snd (max_entry e es))"
proof (induction e es rule: max_entry.induct)
  case (2 best e es)
  let ?m = "if snd best \<le> snd e then e else best"
  have "snd best \<le> snd ?m" "snd e \<le> snd ?m" by auto
  moreover have "snd ?m \<le> snd (max_entry ?m es)" using 2 by simp
  ultimately have "snd best \<le> snd (max_entry ?m es)" "snd e \<le> snd (max_entry ?m es)"
    by (meson order_trans)+
  with 2 show ?case by (auto split: if_splits)
qed simp

lemma recalculate_head_ok:
  assumes "hm_get (scores s) h = Some sc"
  shows "head_ok (recalculate_head s)"
proof -
  from assms have "hm_entries (scores s) \<noteq> []" by (auto simp: hm_in_entries [symmetric])
  then obtain e es where es: "hm_entries (scores s) = e # es" by (cases "hm_entries (scores s)") auto
  obtain k v where kv: "max_entry e es = (k, v)" by (cases "max_entry e es")
  have "(k, v) \<in> set (hm_entries (scores s))" "\<forall>x \<in> set (hm_entries (scores s)). snd x \<le> v"
    using max_entry_spec [of e es] by (simp_all add: es kv)
  then show ?thesis
    by (force simp: head_ok_def recalculate_head_def es kv hm_in_entries [symmetric])
qed

lemma recalculate_head_fields [simp]:
  "parent_map (recalculate_head s) = parent_map s"
  "scores (recalculate_head s) = scores s"
  "finalized_root (recalculate_head s) = finalized_root s"
  by (simp_all add: recalculate_head_def split: list.split prod.split)

section \<open>Invariants\<close>

text \<open>What holds of every tree, whatever is done to it.\<close>

definition tracked_ok :: "fork_choice \<Rightarrow> bool" where
  "tracked_ok s \<longleftrightarrow>
     (\<forall>h. (\<exists>p. hm_get (parent_map s) h = Some p) \<longleftrightarrow> (\<exists>sc. hm_get (scores s) h = Some sc))
     \<and> (\<forall>h sc. hm_get (scores s) h = Some sc \<longrightarrow> bs_block_hash sc = h \<and> bs_is_finalized sc \<in> {0, 1})
     \<and> fc_head s = bs_block_hash (head_score s)"

definition flagged :: "fork_choice \<Rightarrow> shell_hash \<Rightarrow> bool" where
  "flagged s h = (case hm_get (scores s) h of None \<Rightarrow> False | Some sc \<Rightarrow> bs_is_finalized sc = 1)"

lemma flagged_iff: "flagged s h \<longleftrightarrow> (\<exists>sc. hm_get (scores s) h = Some sc \<and> bs_is_finalized sc = 1)"
  by (simp add: flagged_def split: option.split)

text \<open>
  The flags below a finalized root: the root has one, a block with one descends from the root and so
  does its parent, with a flag of its own, and the head has one.
\<close>

definition flags_ok :: "fork_choice \<Rightarrow> bool" where
  "flags_ok s \<longleftrightarrow>
     (\<forall>r. finalized_root s = Some r \<longrightarrow>
        flagged s r \<and> flagged s (fc_head s) \<and> bs_is_finalized (head_score s) = 1
        \<and> (\<forall>h. flagged s h \<longrightarrow> descends (parent_map s) r h)
        \<and> (\<forall>h. flagged s h \<longrightarrow> h \<noteq> r \<longrightarrow> (\<exists>p. hm_get (parent_map s) h = Some p \<and> flagged s p)))"

lemma descends_mono:
  assumes "\<And>x p. hm_get pm x = Some p \<Longrightarrow> hm_get pm' x = Some p" and "descends pm r x"
  shows "descends pm' r x"
  using assms(2) by induction (auto intro: descends.intros assms(1))

text \<open>Two parent maps that agree on a set closed under parents have the same descendants in it.\<close>

lemma descends_agree:
  assumes "\<And>x. Q x \<Longrightarrow> hm_get pm' x = hm_get pm x"
    and "\<And>x p. Q x \<Longrightarrow> hm_get pm x = Some p \<Longrightarrow> Q p"
    and "descends pm r x" "Q x"
  shows "descends pm' r x"
  using assms(3,4)
proof induction
  case (descends_child p c)
  then have "Q p" "hm_get pm' c = Some p" using assms(1,2) by auto
  with descends_child.IH show ?case by (auto intro: descends.descends_child)
qed (rule descends_refl)

lemma descends_tracked:
  assumes "tracked_ok s" "hm_get (scores s) r = Some sc" "descends (parent_map s) r h"
  shows "\<exists>sc. hm_get (scores s) h = Some sc"
  using assms(3) by cases (use assms in \<open>auto simp: tracked_ok_def\<close>)

lemma tracked_both: "tracked_ok s \<Longrightarrow> hm_get (parent_map s) h = None \<longleftrightarrow> hm_get (scores s) h = None"
  unfolding tracked_ok_def by (metis not_None_eq)

lemma head_ok_flagged:
  assumes "tracked_ok s" "head_ok s" "flagged s r"
  shows "flagged s (fc_head s) \<and> bs_is_finalized (head_score s) = 1"
proof -
  obtain sc where sc: "hm_get (scores s) r = Some sc" "bs_is_finalized sc = 1" using assms(3) by (auto simp: flagged_iff)
  then have "sc \<le> head_score s" using assms(2) by (auto simp: head_ok_def)
  moreover have head: "hm_get (scores s) (fc_head s) = Some (head_score s)" using assms(2) by (simp add: head_ok_def)
  moreover from head have "bs_is_finalized (head_score s) \<in> {0, 1}" using assms(1) unfolding tracked_ok_def by blast
  ultimately have "bs_is_finalized (head_score s) = 1" using sc(2) by (auto simp: block_score_order)
  with head show ?thesis by (simp add: flagged_iff)
qed

text \<open>A recomputed head carries the hash of its score.\<close>

lemma recalculate_tracked:
  assumes "\<And>h. (\<exists>p. hm_get (parent_map s) h = Some p) \<longleftrightarrow> (\<exists>sc. hm_get (scores s) h = Some sc)"
    and "\<And>h sc. hm_get (scores s) h = Some sc \<Longrightarrow> bs_block_hash sc = h \<and> bs_is_finalized sc \<in> {0, 1}"
    and "fc_head s = bs_block_hash (head_score s)"
  shows "tracked_ok (recalculate_head s)"
proof (cases "hm_entries (scores s)")
  case Nil
  then have "recalculate_head s = s" by (simp add: recalculate_head_def)
  then show ?thesis using assms by (simp add: tracked_ok_def)
next
  case (Cons e es)
  then have "hm_get (scores s) (fst e) = Some (snd e)" by (simp add: hm_in_entries [symmetric])
  then have "head_ok (recalculate_head s)" by (rule recalculate_head_ok)
  then show ?thesis using assms(1,2) by (auto simp: tracked_ok_def head_ok_def)
qed

subsection \<open>Adding a block and weighing it\<close>

text \<open>The score that \<open>add_block\<close> gives a block.\<close>

definition entry_score :: "fork_choice \<Rightarrow> shell_hash \<Rightarrow> shell_hash \<Rightarrow> u64 \<Rightarrow> u64 \<Rightarrow> bool \<Rightarrow> block_score" where
  "entry_score s h p n w flag =
     BlockScore (if (if finalized_root s = None then flag else flagged s p) then 1 else 0) w n h"

lemma entry_score_fields [simp]:
  "bs_block_hash (entry_score s h p n w flag) = h"
  "bs_is_finalized (entry_score s h p n w flag)
   = (if (if finalized_root s = None then flag else flagged s p) then 1 else 0)"
  by (simp_all add: entry_score_def)

lemma add_block_eq:
  "snd (add_block s h p n w flag) =
     (let sc = entry_score s h p n w flag;
          t = s\<lparr>parent_map := hm_insert (parent_map s) h p, scores := hm_insert (scores s) h sc\<rparr>
      in if head_score s < sc then t\<lparr>fc_head := h, head_score := sc\<rparr> else t)"
proof -
  have "(case finalized_root s of
           Some _ \<Rightarrow> (case hm_get (scores s) p of None \<Rightarrow> False | Some score \<Rightarrow> bs_is_finalized score = 1)
         | None \<Rightarrow> flag) = (if finalized_root s = None then flag else flagged s p)"
    by (simp add: flagged_def split: option.split)
  then show ?thesis by (simp add: add_block_def entry_score_def Let_def)
qed

lemma add_block_fields [simp]:
  "parent_map (snd (add_block s h p n w flag)) = hm_insert (parent_map s) h p"
  "scores (snd (add_block s h p n w flag)) = hm_insert (scores s) h (entry_score s h p n w flag)"
  "finalized_root (snd (add_block s h p n w flag)) = finalized_root s"
  by (simp_all add: add_block_eq Let_def)

lemma add_block_head:
  "head_score (snd (add_block s h p n w flag)) =
     (if head_score s < entry_score s h p n w flag then entry_score s h p n w flag else head_score s)"
  "fc_head (snd (add_block s h p n w flag)) = (if head_score s < entry_score s h p n w flag then h else fc_head s)"
  by (simp_all add: add_block_eq Let_def)

lemma add_block_tracked: "tracked_ok s \<Longrightarrow> tracked_ok (snd (add_block s h p n w flag))"
  by (auto simp: tracked_ok_def add_block_head hm_get_insert)

lemma add_block_flagged:
  "flagged (snd (add_block s h p n w flag)) x \<longleftrightarrow>
     (if x = h then (if finalized_root s = None then flag else flagged s p) else flagged s x)"
  by (simp add: flagged_iff hm_get_insert)

lemma add_block_flags:
  assumes tr: "tracked_ok s" and fl: "flags_ok s"
    and same: "\<And>r. finalized_root s = Some r \<Longrightarrow> h \<noteq> r \<and> (\<forall>q. hm_get (parent_map s) h = Some q \<longrightarrow> q = p)"
  shows "flags_ok (snd (add_block s h p n w flag))"
  unfolding flags_ok_def
proof (intro allI impI)
  fix r
  let ?t = "snd (add_block s h p n w flag)" and ?sc = "entry_score s h p n w flag"
  assume "finalized_root ?t = Some r"
  then have r: "finalized_root s = Some r" by simp
  note old = fl [unfolded flags_ok_def, rule_format, OF r] and hr = same [OF r]
  have fl': "flagged ?t x \<longleftrightarrow> (if x = h then flagged s p else flagged s x)" for x by (simp add: add_block_flagged r)
  have keep: "flagged ?t x" if "flagged s x" for x
    using that hr old by (auto simp: fl')
  have grow: "hm_get (parent_map ?t) x = Some q" if "hm_get (parent_map s) x = Some q" for x q
    using that hr by (auto simp: hm_get_insert)
  have down: "descends (parent_map ?t) r x" if "flagged s x" for x
    using descends_mono [OF grow] old that by blast
  have new: "flagged s p" if "head_score s < ?sc"
    using that old r by (auto simp: block_score_order split: if_splits)
  have "bs_is_finalized (head_score ?t) = 1" using old new r by (simp add: add_block_head)
  moreover have "flagged ?t (fc_head ?t)" using old new keep by (auto simp: add_block_head fl')
  moreover have "flagged ?t r" using old keep by blast
  moreover have "descends (parent_map ?t) r x" if "flagged ?t x" for x
  proof (cases "x = h")
    case True
    then have "descends (parent_map ?t) r p" using that down by (simp add: fl')
    then show ?thesis unfolding True by (rule descends_child) (simp add: hm_get_insert)
  qed (use that down in \<open>simp add: fl'\<close>)
  moreover have "\<exists>q. hm_get (parent_map ?t) x = Some q \<and> flagged ?t q" if "flagged ?t x" "x \<noteq> r" for x
  proof (cases "x = h")
    case False
    then have "\<exists>q. hm_get (parent_map s) x = Some q \<and> flagged s q" using that old by (simp add: fl')
    then show ?thesis using grow keep by blast
  qed (use that keep in \<open>auto simp: fl' hm_get_insert\<close>)
  ultimately show "flagged ?t r \<and> flagged ?t (fc_head ?t) \<and> bs_is_finalized (head_score ?t) = 1
      \<and> (\<forall>x. flagged ?t x \<longrightarrow> descends (parent_map ?t) r x)
      \<and> (\<forall>x. flagged ?t x \<longrightarrow> x \<noteq> r \<longrightarrow> (\<exists>q. hm_get (parent_map ?t) x = Some q \<and> flagged ?t q))"
    by blast
qed

lemma with_weight_fields [simp]:
  "bs_is_finalized (with_weight w sc) = bs_is_finalized sc"
  "bs_block_hash (with_weight w sc) = bs_block_hash sc"
  by (simp_all add: with_weight_def)

lemma update_weight_fields [simp]:
  "parent_map (snd (update_attested_weight s h w)) = parent_map s"
  "finalized_root (snd (update_attested_weight s h w)) = finalized_root s"
  "hm_get (scores (snd (update_attested_weight s h w))) x =
     (if x = h then map_option (with_weight w) (hm_get (scores s) h) else hm_get (scores s) x)"
  by (auto simp: update_attested_weight_def Let_def hm_get_insert split: option.split)

lemma update_weight_head:
  "fc_head (snd (update_attested_weight s h w)) =
     (case hm_get (scores s) h of
        None \<Rightarrow> fc_head s
      | Some sc \<Rightarrow> if h \<noteq> fc_head s \<and> head_score s < with_weight w sc then h else fc_head s)"
  "head_score (snd (update_attested_weight s h w)) =
     (case hm_get (scores s) h of
        None \<Rightarrow> head_score s
      | Some sc \<Rightarrow> if h = fc_head s \<or> head_score s < with_weight w sc then with_weight w sc else head_score s)"
  by (auto simp: update_attested_weight_def Let_def split: option.split)

lemma update_weight_tracked: "tracked_ok s \<Longrightarrow> tracked_ok (snd (update_attested_weight s h w))"
  by (auto simp: tracked_ok_def update_weight_head split: option.splits if_splits)

lemma update_weight_flagged: "flagged (snd (update_attested_weight s h w)) x = flagged s x"
  by (auto simp: flagged_iff)

lemma update_weight_flags:
  assumes "tracked_ok s" "flags_ok s"
  shows "flags_ok (snd (update_attested_weight s h w))"
proof (cases "hm_get (scores s) h")
  case None
  then show ?thesis using assms by (simp add: update_attested_weight_def)
next
  case (Some sc)
  have flag: "bs_is_finalized sc \<in> {0, 1}" using assms(1) Some unfolding tracked_ok_def by blast
  have "flagged s h" if "bs_is_finalized (head_score s) = 1" "head_score s < with_weight w sc"
    using that flag Some by (auto simp: flagged_iff block_score_order)
  moreover have "bs_is_finalized sc = 1" if "flagged s h" using that Some by (simp add: flagged_iff)
  ultimately show ?thesis
    using assms(2) Some unfolding flags_ok_def update_weight_flagged update_weight_fields update_weight_head by auto
qed

subsection \<open>Finalizing, pruning and removing\<close>

lemma with_finalized_flag_fields [simp]:
  "bs_is_finalized (with_finalized_flag f sc) = f"
  "bs_block_hash (with_finalized_flag f sc) = bs_block_hash sc"
  "bs_block_number (with_finalized_flag f sc) = bs_block_number sc"
  by (simp_all add: with_finalized_flag_def)

definition marked_tree :: "fork_choice \<Rightarrow> shell_hash \<Rightarrow> fork_choice" where
  "marked_tree s h =
     recalculate_head (s\<lparr>
       scores := hm_map (\<lambda>x sc. if x |\<in>| mark_loop (children_of (parent_map s)) [h] {||}
                               then with_finalized_flag 1 sc else sc)
                   (hm_map (\<lambda>_ sc. with_finalized_flag 0 sc) (scores s)),
       finalized_root := Some h\<rparr>)"

definition may_finalize :: "fork_choice \<Rightarrow> shell_hash \<Rightarrow> bool" where
  "may_finalize s h \<longleftrightarrow>
     fc_contains s h \<and>
     (\<forall>r. finalized_root s = Some r \<longrightarrow> r = h \<or> chain_between s h r \<noteq> [])"

lemma mark_finalized_cases:
  "mark_finalized s h =
     (if may_finalize s h then (fc_head (marked_tree s h) \<noteq> fc_head s, marked_tree s h) else (False, s))"
  by (auto simp: mark_finalized_def may_finalize_def marked_tree_def fc_contains_def Let_def
      split: option.splits)

lemma marked_tree_score:
  "hm_get (scores (marked_tree s h)) x =
     map_option (with_finalized_flag (if descends (parent_map s) h x then 1 else 0))
       (hm_get (scores s) x)"
  by (cases "hm_get (scores s) x")
    (simp_all add: marked_tree_def hm_get_map mark_loop_descendants with_finalized_flag_def)

lemma marked_tree_fields [simp]:
  "parent_map (marked_tree s h) = parent_map s" "finalized_root (marked_tree s h) = Some h"
  by (simp_all add: marked_tree_def)

lemma marked_tree_tracked: "tracked_ok s \<Longrightarrow> tracked_ok (marked_tree s h)"
  unfolding marked_tree_def
  by (rule recalculate_tracked) (auto simp: tracked_ok_def hm_get_map)

lemma marked_tree_flagged:
  "flagged (marked_tree s h) x \<longleftrightarrow> fc_contains s x \<and> descends (parent_map s) h x"
  by (auto simp: flagged_iff marked_tree_score fc_contains_def hm_contains_def)

lemma marked_tree_head:
  assumes "fc_contains s h"
  shows "head_ok (marked_tree s h)"
proof -
  obtain sc where "hm_get (scores (marked_tree s h)) h = Some sc"
    using assms by (auto simp: marked_tree_score fc_contains_def hm_contains_def)
  then show ?thesis unfolding marked_tree_def by (intro recalculate_head_ok) simp
qed

lemma marked_tree_flags:
  assumes tr: "tracked_ok s" and h: "fc_contains s h"
  shows "flags_ok (marked_tree s h)"
proof -
  obtain sc where sc: "hm_get (scores s) h = Some sc" using h by (auto simp: fc_contains_def hm_contains_def)
  have root: "flagged (marked_tree s h) h" using h by (simp add: marked_tree_flagged descends_refl)
  have "\<exists>p. hm_get (parent_map s) x = Some p \<and> flagged (marked_tree s h) p" if "descends (parent_map s) h x" "x \<noteq> h" for x
    using descends_new_root [OF that(1)] that(2) descends_tracked [OF tr sc]
    by (auto simp: marked_tree_flagged fc_contains_def hm_contains_def)
  then show ?thesis
    using root head_ok_flagged [OF marked_tree_tracked [OF tr] marked_tree_head [OF h] root]
    by (auto simp: flags_ok_def marked_tree_flagged)
qed

definition pruned_tree :: "fork_choice \<Rightarrow> shell_hash \<Rightarrow> fork_choice" where
  "pruned_tree s f =
     recalculate_head (s\<lparr>
       scores := hm_map (\<lambda>_ sc. with_finalized_flag 1 sc)
                   (hm_retain (\<lambda>h _. h |\<in>| protect_loop (children_of (parent_map s)) [f] {|f|}) (scores s)),
       parent_map := hm_insert
                   (hm_retain (\<lambda>h _. h |\<in>| protect_loop (children_of (parent_map s)) [f] {|f|}) (parent_map s))
                   f hash_zero,
       finalized_root := Some f\<rparr>)"

lemma foldl_min_hash_in: "foldl min h hs \<in> set (h # hs)" for h :: shell_hash
  by (induction hs arbitrary: h) (auto simp: min_def split: if_splits)

lemma prune_below_cases:
  obtains (none) "prune_below s n = s"
  | (pruned) f sc where "hm_get (scores s) f = Some sc" "bs_is_finalized sc = 1"
      "bs_block_number sc = n" "prune_below s n = pruned_tree s f"
proof (cases "min_hash (map fst (filter (\<lambda>(_, sc). bs_is_finalized sc = 1 \<and> bs_block_number sc = n)
    (hm_entries (scores s))))")
  case None
  then show ?thesis by (intro none) (simp add: prune_below_def)
next
  case (Some f)
  then obtain h hs where hs: "map fst (filter (\<lambda>(_, sc). bs_is_finalized sc = 1 \<and> bs_block_number sc = n)
    (hm_entries (scores s))) = h # hs" "f = foldl min h hs"
    by (elim min_hash.elims) auto
  then have "f \<in> set (map fst (filter (\<lambda>(_, sc). bs_is_finalized sc = 1 \<and> bs_block_number sc = n)
    (hm_entries (scores s))))"
    using foldl_min_hash_in [of h hs] by simp
  then obtain sc where sc: "hm_get (scores s) f = Some sc" "bs_is_finalized sc = 1" "bs_block_number sc = n"
    by (auto simp: hm_in_entries)
  show ?thesis by (rule pruned [OF sc]) (simp add: prune_below_def Some pruned_tree_def Let_def)
qed

lemma pruned_tree_get:
  "hm_get (scores (pruned_tree s f)) x =
     (if descends (parent_map s) f x then map_option (with_finalized_flag 1) (hm_get (scores s) x)
      else None)"
  "hm_get (parent_map (pruned_tree s f)) x =
     (if x = f then Some hash_zero
      else if descends (parent_map s) f x then hm_get (parent_map s) x else None)"
  "finalized_root (pruned_tree s f) = Some f"
  by (auto simp: pruned_tree_def hm_get_map hm_get_retain hm_get_insert protect_loop_descendants
      split: option.split)

lemma pruned_tree_descends:
  "descends (parent_map s) f x \<Longrightarrow> descends (parent_map (pruned_tree s f)) f x"
proof (induction rule: descends.induct)
  case (descends_child p c)
  show ?case
  proof (cases "c = f")
    case False
    then have "hm_get (parent_map (pruned_tree s f)) c = Some p"
      using descends_child.hyps by (auto simp: pruned_tree_get intro: descends.descends_child)
    with descends_child.IH show ?thesis by (rule descends.descends_child)
  qed (simp add: descends_refl)
qed (rule descends_refl)

lemma pruned_tree_tracked:
  assumes tr: "tracked_ok s" and f: "hm_get (scores s) f = Some sc"
  shows "tracked_ok (pruned_tree s f)"
  unfolding pruned_tree_def
  by (rule recalculate_tracked)
    (use tr tracked_both [OF tr] f in \<open>auto simp: tracked_ok_def hm_get_map hm_get_retain hm_get_insert protect_loop_descendants
      descends_refl split: if_splits option.splits\<close>)

lemma pruned_tree_flagged:
  "flagged (pruned_tree s f) x \<longleftrightarrow> fc_contains s x \<and> descends (parent_map s) f x"
  by (auto simp: flagged_iff pruned_tree_get fc_contains_def hm_contains_def split: if_splits)

lemma pruned_tree_head:
  assumes "hm_get (scores s) f = Some sc"
  shows "head_ok (pruned_tree s f)"
proof -
  have "hm_get (scores (pruned_tree s f)) f = Some (with_finalized_flag 1 sc)"
    by (simp add: pruned_tree_get assms descends_refl)
  then show ?thesis unfolding pruned_tree_def by (intro recalculate_head_ok) simp
qed

lemma pruned_tree_flags:
  assumes tr: "tracked_ok s" and f: "hm_get (scores s) f = Some sc"
  shows "flags_ok (pruned_tree s f)"
proof -
  have root: "flagged (pruned_tree s f) f" using f by (simp add: pruned_tree_flagged descends_refl fc_contains_def hm_contains_def)
  have "\<exists>p. hm_get (parent_map (pruned_tree s f)) x = Some p \<and> flagged (pruned_tree s f) p"
    if "descends (parent_map s) f x" "x \<noteq> f" for x
    using descends_new_root [OF that(1)] that descends_tracked [OF tr f]
    by (auto simp: pruned_tree_flagged pruned_tree_get fc_contains_def hm_contains_def)
  then show ?thesis
    using root head_ok_flagged [OF pruned_tree_tracked [OF assms] pruned_tree_head [OF f] root]
    by (auto simp: flags_ok_def pruned_tree_flagged pruned_tree_get(3) intro: pruned_tree_descends)
qed

definition without_subtree :: "fork_choice \<Rightarrow> shell_hash \<Rightarrow> fork_choice" where
  "without_subtree s root =
     recalculate_head (s\<lparr>
       scores := hm_retain (\<lambda>h _. h |\<notin>| mark_loop (children_of (parent_map s)) [root] {||}) (scores s),
       parent_map :=
         hm_retain (\<lambda>h _. h |\<notin>| mark_loop (children_of (parent_map s)) [root] {||}) (parent_map s)\<rparr>)"

definition may_remove :: "fork_choice \<Rightarrow> shell_hash \<Rightarrow> bool" where
  "may_remove s root \<longleftrightarrow>
     hm_get (parent_map s) root \<noteq> Some hash_zero \<and> fc_contains s root
     \<and> (\<forall>f. finalized_root s = Some f \<longrightarrow> \<not> descends (parent_map s) root f)"

lemma remove_subtree_cases:
  "remove_subtree s root =
     (if may_remove s root then (True, without_subtree s root) else (False, s))"
  using descends_refl [of "parent_map s" root]
  by (auto simp: remove_subtree_def may_remove_def without_subtree_def fc_contains_def Let_def
      mark_loop_descendants split: option.splits)

lemma without_subtree_get:
  "hm_get (scores (without_subtree s root)) x =
     (if descends (parent_map s) root x then None else hm_get (scores s) x)"
  "hm_get (parent_map (without_subtree s root)) x =
     (if descends (parent_map s) root x then None else hm_get (parent_map s) x)"
  "finalized_root (without_subtree s root) = finalized_root s"
  by (auto simp: without_subtree_def hm_get_retain mark_loop_descendants split: option.split)

lemma without_subtree_tracked:
  assumes "tracked_ok s"
  shows "tracked_ok (without_subtree s root)"
  unfolding without_subtree_def
  by (rule recalculate_tracked)
    (use assms tracked_both [OF assms] in \<open>auto simp: tracked_ok_def hm_get_retain split: option.splits if_splits\<close>)

lemma without_subtree_flagged:
  "flagged (without_subtree s root) x \<longleftrightarrow> flagged s x \<and> \<not> descends (parent_map s) root x"
  by (auto simp: flagged_iff without_subtree_get)

lemma without_subtree_head:
  assumes "hm_get (scores (without_subtree s root)) h = Some sc"
  shows "head_ok (without_subtree s root)"
  using assms unfolding without_subtree_def by (intro recalculate_head_ok) simp

lemma without_subtree_flags:
  assumes tr: "tracked_ok s" and fl: "flags_ok s" and may: "may_remove s root"
  shows "flags_ok (without_subtree s root)"
  unfolding flags_ok_def
proof (intro allI impI)
  fix r
  let ?t = "without_subtree s root" and ?gone = "descends (parent_map s) root"
  assume "finalized_root ?t = Some r"
  then have r: "finalized_root s = Some r" by (simp add: without_subtree_get)
  note old = fl [unfolded flags_ok_def, rule_format, OF r]
  have root: "flagged ?t r" using old may r by (simp add: without_subtree_flagged may_remove_def)
  have up: "\<not> ?gone p" if "\<not> ?gone x" "hm_get (parent_map s) x = Some p" for x p
    using that by (auto intro: descends_child)
  have "descends (parent_map ?t) r x" if "flagged ?t x" for x
    by (rule descends_agree [of "\<lambda>x. \<not> ?gone x", OF _ up])
      (use that old in \<open>auto simp: without_subtree_get without_subtree_flagged\<close>)
  moreover have "\<exists>p. hm_get (parent_map ?t) x = Some p \<and> flagged ?t p" if "flagged ?t x" "x \<noteq> r" for x
    using that old up by (simp add: without_subtree_flagged without_subtree_get) blast
  moreover obtain sc where "hm_get (scores ?t) r = Some sc" using root by (auto simp: flagged_iff)
  ultimately show "flagged ?t r \<and> flagged ?t (fc_head ?t) \<and> bs_is_finalized (head_score ?t) = 1
      \<and> (\<forall>x. flagged ?t x \<longrightarrow> descends (parent_map ?t) r x)
      \<and> (\<forall>x. flagged ?t x \<longrightarrow> x \<noteq> r \<longrightarrow> (\<exists>p. hm_get (parent_map ?t) x = Some p \<and> flagged ?t p))"
    using root head_ok_flagged [OF without_subtree_tracked [OF tr] without_subtree_head root] by blast
qed

subsection \<open>Reachable trees\<close>

datatype fc_op =
    AddBlock shell_hash shell_hash u64 u64 bool
  | UpdateWeight shell_hash u64
  | MarkFinalized shell_hash
  | PruneBelow u64
  | RemoveSubtree shell_hash

fun fc_step :: "fork_choice \<Rightarrow> fc_op \<Rightarrow> fork_choice" where
  "fc_step s (AddBlock h p n w flag) = snd (add_block s h p n w flag)"
| "fc_step s (UpdateWeight h w) = snd (update_attested_weight s h w)"
| "fc_step s (MarkFinalized h) = snd (mark_finalized s h)"
| "fc_step s (PruneBelow n) = prune_below s n"
| "fc_step s (RemoveSubtree h) = snd (remove_subtree s h)"

text \<open>The trees reached by operations that each meet a condition on the tree they are applied to.\<close>

inductive fc_reach :: "(fork_choice \<Rightarrow> fc_op \<Rightarrow> bool) \<Rightarrow> shell_hash \<Rightarrow> fork_choice \<Rightarrow> bool" for allowed g where
  fc_reach_new: "fc_reach allowed g (fork_choice_new g)"
| fc_reach_step: "fc_reach allowed g s \<Longrightarrow> allowed s op \<Longrightarrow> fc_reach allowed g (fc_step s op)"

text \<open>
  The operation leaves the head's own score as good as it was. The other operations recompute the
  head, which needs a block to choose.
\<close>

fun keeps_head :: "fork_choice \<Rightarrow> fc_op \<Rightarrow> bool" where
  "keeps_head s (AddBlock h p n w flag) \<longleftrightarrow> (h = fc_head s \<longrightarrow> head_score s \<le> entry_score s h p n w flag)"
| "keeps_head s (UpdateWeight h w) \<longleftrightarrow> (h = fc_head s \<longrightarrow> bs_attested_weight (head_score s) \<le> w)"
| "keeps_head s (RemoveSubtree h) \<longleftrightarrow> hm_entries (scores (snd (remove_subtree s h))) \<noteq> []"
| "keeps_head s _ \<longleftrightarrow> True"

text \<open>
  Once a block is finalized, that block is not added again, and a tracked block is added again only
  with the parent it has. The hash of a block determines its parent.
\<close>

fun keeps_parent :: "fork_choice \<Rightarrow> fc_op \<Rightarrow> bool" where
  "keeps_parent s (AddBlock h p n w flag) \<longleftrightarrow>
     (case finalized_root s of None \<Rightarrow> True | Some r \<Rightarrow>
        h \<noteq> r \<and> (case fc_parent s h of None \<Rightarrow> True | Some q \<Rightarrow> q = p))"
| "keeps_parent s _ \<longleftrightarrow> True"

lemma fork_choice_new_ok:
  "tracked_ok (fork_choice_new g)" "flags_ok (fork_choice_new g)" "head_ok (fork_choice_new g)"
  by (auto simp: tracked_ok_def flags_ok_def head_ok_def fork_choice_new_def Let_def hm_get_insert hm_get_new
      split: if_splits)

lemma fc_step_tracked: "tracked_ok s \<Longrightarrow> tracked_ok (fc_step s op)"
proof (cases op)
  case (PruneBelow n)
  then show "tracked_ok s \<Longrightarrow> tracked_ok (fc_step s op)"
    by (cases rule: prune_below_cases [of s n]) (simp_all add: pruned_tree_tracked)
qed (simp_all add: add_block_tracked update_weight_tracked mark_finalized_cases marked_tree_tracked
    remove_subtree_cases without_subtree_tracked)

interpretation fc_tracked: invariant_machine fc_step tracked_ok
  by unfold_locales (rule fc_step_tracked)

lemma fc_reach_tracked: "fc_reach allowed g s \<Longrightarrow> tracked_ok s"
  by (induction rule: fc_reach.induct) (auto intro: fork_choice_new_ok fc_step_tracked)

lemma fc_step_flags: "tracked_ok s \<Longrightarrow> flags_ok s \<Longrightarrow> keeps_parent s op \<Longrightarrow> flags_ok (fc_step s op)"
proof (cases op)
  case (PruneBelow n)
  then show "tracked_ok s \<Longrightarrow> flags_ok s \<Longrightarrow> flags_ok (fc_step s op)"
    by (cases rule: prune_below_cases [of s n]) (simp_all add: pruned_tree_flags)
qed (auto simp: fc_parent_def split: option.splits intro!: add_block_flags, simp_all add: update_weight_flags mark_finalized_cases may_finalize_def
    marked_tree_flags remove_subtree_cases without_subtree_flags)

lemma fc_reach_flags: "fc_reach keeps_parent g s \<Longrightarrow> flags_ok s"
  by (induction rule: fc_reach.induct) (auto intro: fork_choice_new_ok fc_step_flags dest: fc_reach_tracked)

lemma add_block_head_ok:
  assumes "head_ok s" "keeps_head s (AddBlock h p n w flag)"
  shows "head_ok (snd (add_block s h p n w flag))"
  using assms unfolding head_ok_def add_block_head add_block_fields
  by (auto simp: hm_get_insert not_less split: if_splits) (meson less_imp_le order_trans)+

lemma with_weight_mono: "bs_attested_weight sc \<le> w \<Longrightarrow> sc \<le> with_weight w sc"
  by (cases sc) (auto simp: with_weight_def block_score_order)

lemma update_weight_head_ok:
  assumes "head_ok s" "keeps_head s (UpdateWeight h w)"
  shows "head_ok (snd (update_attested_weight s h w))"
proof (cases "hm_get (scores s) h")
  case None
  then show ?thesis using assms by (simp add: update_attested_weight_def)
next
  case (Some sc)
  have head: "hm_get (scores s) (fc_head s) = Some (head_score s)"
    "\<And>k x. hm_get (scores s) k = Some x \<Longrightarrow> x \<le> head_score s"
    using assms(1) by (simp_all add: head_ok_def)
  have "head_score s \<le> with_weight w sc" if "h = fc_head s"
    using that assms(2) Some head(1) with_weight_mono by simp
  then show ?thesis
    using Some head order_trans [OF head(2)] unfolding head_ok_def update_weight_head update_weight_fields
    by (auto simp: not_less less_imp_le split: if_splits)
qed

lemma fc_step_head: "head_ok s \<Longrightarrow> keeps_head s op \<Longrightarrow> head_ok (fc_step s op)"
proof (cases op)
  case (PruneBelow n)
  then show "head_ok s \<Longrightarrow> head_ok (fc_step s op)"
    by (cases rule: prune_below_cases [of s n]) (simp_all add: pruned_tree_head)
next
  case (RemoveSubtree h)
  assume "head_ok s" and k: "keeps_head s op"
  show ?thesis
  proof (cases "may_remove s h")
    case True
    then obtain e es where "hm_entries (scores (without_subtree s h)) = e # es"
      using k RemoveSubtree by (cases "hm_entries (scores (without_subtree s h))") (auto simp: remove_subtree_cases)
    then have "hm_get (scores (without_subtree s h)) (fst e) = Some (snd e)" by (simp add: hm_in_entries [symmetric])
    then show ?thesis using True RemoveSubtree by (simp add: remove_subtree_cases without_subtree_head)
  qed (use RemoveSubtree \<open>head_ok s\<close> in \<open>simp add: remove_subtree_cases\<close>)
qed (simp_all add: add_block_head_ok update_weight_head_ok mark_finalized_cases may_finalize_def marked_tree_head
    del: keeps_head.simps(1,2))

lemma fc_reach_head: "fc_reach keeps_head g s \<Longrightarrow> head_ok s"
  by (induction rule: fc_reach.induct) (auto intro: fork_choice_new_ok fc_step_head)

section \<open>Walking up the tree\<close>

fun up :: "(shell_hash, shell_hash) hashmap \<Rightarrow> nat \<Rightarrow> shell_hash \<Rightarrow> shell_hash option" where
  "up pm 0 x = Some x"
| "up pm (Suc k) x = (case hm_get pm x of None \<Rightarrow> None | Some p \<Rightarrow> up pm k p)"

lemma up_add: "up pm (i + j) x = (case up pm i x of None \<Rightarrow> None | Some y \<Rightarrow> up pm j y)"
  by (induction i arbitrary: x) (auto split: option.split)

lemma up_descends: "up pm k x = Some r \<Longrightarrow> descends pm r x"
  by (induction k arbitrary: x) (auto split: option.splits intro: descends.intros)

lemma descends_up: "descends pm r x \<Longrightarrow> \<exists>k. up pm k x = Some r"
proof (induction rule: descends.induct)
  case descends_refl
  show ?case by (rule exI [of _ 0]) simp
next
  case (descends_child p c)
  then obtain k where "up pm k p = Some r" by blast
  with descends_child show ?case by (intro exI [of _ "Suc k"]) simp
qed

lemma descends_least_up:
  assumes "descends pm r x"
  obtains k where "up pm k x = Some r" "\<And>j. j < k \<Longrightarrow> up pm j x \<noteq> Some r"
  using descends_up [OF assms] unfolding exists_least_iff [of "\<lambda>k. up pm k x = Some r"]
  by (blast intro: that)

lemma up_defined:
  assumes "up pm k x = Some r" "j < k"
  shows "\<exists>y p. up pm j x = Some y \<and> hm_get pm y = Some p \<and> up pm (Suc j) x = Some p"
proof -
  have "up pm (j + Suc (k - Suc j)) x = Some r" using assms by simp
  then obtain y where y: "up pm j x = Some y" "up pm (Suc (k - Suc j)) y = Some r"
    unfolding up_add by (auto split: option.splits)
  then obtain p where "hm_get pm y = Some p" by (auto split: option.splits)
  with y show ?thesis using up_add [of pm j 1 x] by simp
qed

text \<open>A shortest walk meets no block twice, so the bound on the iterations is never the reason to stop.\<close>

lemma least_up_bound:
  assumes k: "up pm k x = Some r" and least: "\<And>j. j < k \<Longrightarrow> up pm j x \<noteq> Some r"
  shows "k \<le> hm_len pm"
proof -
  have inj: "inj_on (\<lambda>j. the (up pm j x)) {..< k}"
  proof (rule linorder_inj_onI')
    fix i j assume i: "i \<in> {..< k}" and j: "j \<in> {..< k}" and less: "i < j"
    show "the (up pm i x) \<noteq> the (up pm j x)"
    proof
      assume "the (up pm i x) = the (up pm j x)"
      moreover obtain y where y: "up pm j x = Some y" using up_defined [OF k] j by blast
      moreover obtain z where "up pm i x = Some z" using up_defined [OF k] i by blast
      ultimately have eq: "up pm i x = up pm j x" by simp
      have "up pm (j + (k - j)) x = Some r" using k j by simp
      then have "up pm (i + (k - j)) x = Some r" unfolding up_add eq .
      moreover have "i + (k - j) < k" using less j by auto
      ultimately show False using least by blast
    qed
  qed
  have "(\<lambda>j. the (up pm j x)) ` {..< k} \<subseteq> dom (hm_get pm)"
    using up_defined [OF k] by fastforce
  then have "card ((\<lambda>j. the (up pm j x)) ` {..< k}) \<le> card (dom (hm_get pm))"
    by (rule card_mono [OF finite_hm_dom])
  then show ?thesis by (simp add: card_image [OF inj] hm_len_card)
qed

lemma chain_walk_found:
  assumes "up pm k cur = Some to_hash" "\<And>j. j < k \<Longrightarrow> up pm j cur \<noteq> Some to_hash" "k \<le> fuel"
  shows "chain_walk pm to_hash fuel cur chain = rev (chain @ map (\<lambda>j. the (up pm j cur)) [0..<k])"
  using assms
proof (induction k arbitrary: cur fuel chain)
  case 0
  then show ?case by (simp add: chain_walk.simps)
next
  case (Suc k)
  then obtain p fuel' where p: "hm_get pm cur = Some p" and f: "fuel = Suc fuel'"
    by (cases fuel) (auto split: option.splits)
  have "cur \<noteq> to_hash" using Suc.prems(2) [of 0] by simp
  then have step: "chain_walk pm to_hash fuel cur chain =
      chain_walk pm to_hash fuel' p (chain @ [cur])"
    by (subst chain_walk.simps) (simp add: p f)
  have "up pm j p \<noteq> Some to_hash" if "j < k" for j
    using Suc.prems(2) [of "Suc j"] that p by simp
  then have "chain_walk pm to_hash fuel' p (chain @ [cur]) =
      rev ((chain @ [cur]) @ map (\<lambda>j. the (up pm j p)) [0..<k])"
    using Suc.prems(1,3) p f by (intro Suc.IH) simp_all
  moreover have "map (\<lambda>j. the (up pm j cur)) [0..<Suc k] = cur # map (\<lambda>j. the (up pm j p)) [0..<k]"
    by (simp add: upt_conv_Cons map_Suc_upt [symmetric] p o_def del: upt_Suc)
  ultimately show ?case using step by simp
qed

lemma chain_walk_lost:
  "\<not> descends pm to_hash cur \<Longrightarrow> chain_walk pm to_hash fuel cur chain = []"
proof (induction fuel arbitrary: cur chain)
  case 0
  then show ?case by (subst chain_walk.simps) (auto intro: descends_refl)
next
  case (Suc fuel)
  have "cur \<noteq> to_hash" using Suc.prems by (auto intro: descends_refl)
  with Suc show ?case
    by (subst chain_walk.simps) (auto split: option.split intro: descends_child)
qed

lemma chain_between_found:
  assumes "up (parent_map s) k from_hash = Some to_hash"
    and "\<And>j. j < k \<Longrightarrow> up (parent_map s) j from_hash \<noteq> Some to_hash"
  shows "chain_between s from_hash to_hash = rev (map (\<lambda>j. the (up (parent_map s) j from_hash)) [0..<k])"
  unfolding chain_between_def
  using chain_walk_found [OF assms, of "hm_len (parent_map s) + 1" "[]"] least_up_bound [OF assms] by simp

lemma chain_between_nonempty_iff:
  "chain_between s from_hash to_hash \<noteq> [] \<longleftrightarrow>
     from_hash \<noteq> to_hash \<and> descends (parent_map s) to_hash from_hash"
proof (cases "descends (parent_map s) to_hash from_hash")
  case True
  then obtain k where k: "up (parent_map s) k from_hash = Some to_hash"
    "\<And>j. j < k \<Longrightarrow> up (parent_map s) j from_hash \<noteq> Some to_hash"
    by (rule descends_least_up) blast
  have "k = 0 \<longleftrightarrow> from_hash = to_hash" using k(1) k(2) [of 0] by (cases k) auto
  with True show ?thesis by (simp add: chain_between_found [OF k])
next
  case False
  then show ?thesis by (simp add: chain_between_def chain_walk_lost)
qed

section \<open>Common ancestors\<close>

text \<open>The walks end when parents rank below their children, as block numbers do.\<close>

definition ranked :: "(shell_hash, shell_hash) hashmap \<Rightarrow> (shell_hash \<Rightarrow> nat) \<Rightarrow> bool" where
  "ranked pm rank \<longleftrightarrow>
     (\<forall>c p. hm_get pm c = Some p \<longrightarrow> p \<noteq> hash_zero \<longrightarrow> rank p < rank c)"

text \<open>Ancestors as the code sees them: the zero hash is not a block.\<close>

inductive ancestor :: "(shell_hash, shell_hash) hashmap \<Rightarrow> shell_hash \<Rightarrow> shell_hash \<Rightarrow> bool"
  for pm :: "(shell_hash, shell_hash) hashmap" where
  ancestor_refl: "ancestor pm x x"
| ancestor_parent: "hm_get pm x = Some p \<Longrightarrow> p \<noteq> hash_zero \<Longrightarrow> ancestor pm p y \<Longrightarrow> ancestor pm x y"

inductive_simps ancestor_unfold: "ancestor pm x y"

lemma ancestors_loop_total:
  assumes "ranked pm rank"
  shows "\<exists>R. ancestors_loop pm cur acc = Some R \<and> (\<forall>x. x |\<in>| R \<longleftrightarrow> x |\<in>| acc \<or> ancestor pm cur x)"
proof (induction "rank cur" arbitrary: cur acc rule: less_induct)
  case less
  show ?case
  proof (cases "\<exists>p. hm_get pm cur = Some p \<and> p \<noteq> hash_zero")
    case True
    then obtain p where p: "hm_get pm cur = Some p" "p \<noteq> hash_zero" by blast
    then have "rank p < rank cur" using assms by (simp add: ranked_def)
    from less [OF this, of "finsert cur acc"] obtain R where
      R: "ancestors_loop pm p (finsert cur acc) = Some R"
      "\<forall>x. x |\<in>| R \<longleftrightarrow> x |\<in>| finsert cur acc \<or> ancestor pm p x" by blast
    have anc: "ancestor pm cur x \<longleftrightarrow> x = cur \<or> ancestor pm p x" for x
      using p by (subst ancestor_unfold) auto
    from R p anc show ?thesis by (subst ancestors_loop.simps) auto
  next
    case False
    then have "ancestors_loop pm cur acc = Some (finsert cur acc)"
      by (subst ancestors_loop.simps) (auto split: option.split)
    moreover have "ancestor pm cur x \<longleftrightarrow> x = cur" for x
      using False by (subst ancestor_unfold) auto
    ultimately show ?thesis by auto
  qed
qed

lemma common_loop_total:
  assumes "ranked pm rank"
  shows "\<exists>r. common_loop pm A cur = Some r \<and>
    (case r of
       None \<Rightarrow> \<forall>x. ancestor pm cur x \<longrightarrow> x |\<notin>| A
     | Some y \<Rightarrow> ancestor pm cur y \<and> y |\<in>| A
         \<and> (\<forall>x. ancestor pm cur x \<and> x |\<in>| A \<longrightarrow> ancestor pm y x))"
proof (induction "rank cur" arbitrary: cur rule: less_induct)
  case less
  consider (hit) "cur |\<in>| A"
    | (walk) p where "cur |\<notin>| A" "hm_get pm cur = Some p" "p \<noteq> hash_zero"
    | (stop) "cur |\<notin>| A" "\<not> (\<exists>p. hm_get pm cur = Some p \<and> p \<noteq> hash_zero)"
    by blast
  then show ?case
  proof cases
    case hit
    then show ?thesis by (subst common_loop.simps) (auto intro: ancestor_refl)
  next
    case walk
    then have "rank p < rank cur" using assms by (simp add: ranked_def)
    from less [OF this] obtain r where r: "common_loop pm A p = Some r"
      "case r of None \<Rightarrow> \<forall>x. ancestor pm p x \<longrightarrow> x |\<notin>| A
         | Some y \<Rightarrow> ancestor pm p y \<and> y |\<in>| A \<and> (\<forall>x. ancestor pm p x \<and> x |\<in>| A \<longrightarrow> ancestor pm y x)"
      by blast
    have anc: "ancestor pm cur x \<longleftrightarrow> x = cur \<or> ancestor pm p x" for x
      using walk by (subst ancestor_unfold) auto
    have "common_loop pm A cur = Some r"
      using walk r(1) by (subst common_loop.simps) simp
    with r(2) anc walk(1) show ?thesis by (cases r) auto
  next
    case stop
    then have "common_loop pm A cur = Some None"
      by (subst common_loop.simps) (auto split: option.split)
    moreover have "ancestor pm cur x \<longleftrightarrow> x = cur" for x
      using stop by (subst ancestor_unfold) auto
    ultimately show ?thesis using stop(1) by auto
  qed
qed

section \<open>Arrival order\<close>

type_synonym new_block = "shell_hash \<times> shell_hash \<times> u64 \<times> u64 \<times> bool"

definition add_all :: "fork_choice \<Rightarrow> new_block list \<Rightarrow> fork_choice" where
  "add_all s bs = foldl (\<lambda>s (h, p, n, w, flag). snd (add_block s h p n w flag)) s bs"

text \<open>Blocks that are new to the tree, each added once, and none before its parent.\<close>

fun parents_first :: "fork_choice \<Rightarrow> new_block list \<Rightarrow> bool" where
  "parents_first s [] \<longleftrightarrow> True"
| "parents_first s ((h, p, n, w, flag) # bs) \<longleftrightarrow>
     \<not> fc_contains s h \<and> h \<noteq> p \<and> h \<notin> fst ` set bs \<and> p \<notin> fst ` set bs \<and> parents_first s bs"

lemma add_all_simps [simp]:
  "add_all s [] = s" "add_all s ((h, p, n, w, flag) # bs) = add_all (snd (add_block s h p n w flag)) bs"
  by (simp_all add: add_all_def)

lemma add_all_root [simp]: "finalized_root (add_all s bs) = finalized_root s"
  by (induction bs arbitrary: s) auto

lemma add_all_outside: "x \<notin> fst ` set bs \<Longrightarrow> hm_get (scores (add_all s bs)) x = hm_get (scores s) x"
  by (induction bs arbitrary: s) (auto simp: hm_get_insert)

lemma parents_first_outside: "parents_first s bs \<Longrightarrow> h \<notin> fst ` set bs \<Longrightarrow> parents_first (snd (add_block s h p n w flag)) bs"
  by (induction bs) (auto simp: fc_contains_def hm_contains_def hm_get_insert)

text \<open>The final score of an added block depends on its parent's final flag only.\<close>

lemma add_all_scores:
  assumes "parents_first s bs" and "(h, p, n, w, flag) \<in> set bs"
  shows "hm_get (scores (add_all s bs)) h = Some (entry_score (add_all s bs) h p n w flag)"
  using assms
proof (induction bs arbitrary: s)
  case (Cons b bs)
  obtain h' p' n' w' flag' where b: "b = (h', p', n', w', flag')" by (metis prod_cases5)
  let ?t = "snd (add_block s h' p' n' w' flag')"
  have pf: "parents_first s bs" "h' \<notin> fst ` set bs" "p' \<notin> fst ` set bs" "h' \<noteq> p'" using Cons.prems(1) by (simp_all add: b)
  show ?case
  proof (cases "(h, p, n, w, flag) \<in> set bs")
    case True
    then show ?thesis using Cons.IH [OF parents_first_outside [OF pf(1,2)]] by (simp add: b)
  next
    case False
    then have same: "h = h'" "p = p'" "n = n'" "w = w'" "flag = flag'" using Cons.prems(2) by (auto simp: b)
    have "flagged (add_all ?t bs) p' = flagged s p'"
      using pf by (simp add: flagged_iff add_all_outside hm_get_insert)
    then show ?thesis using pf by (simp add: b same add_all_outside entry_score_def hm_get_insert)
  qed
qed simp

lemma add_all_same_scores:
  assumes "parents_first s bs" and "finalized_root t = finalized_root u"
    and "\<And>h p n w flag. (h, p, n, w, flag) \<in> set bs \<Longrightarrow>
      hm_get (scores t) h = Some (entry_score t h p n w flag) \<and> hm_get (scores u) h = Some (entry_score u h p n w flag)"
    and "\<And>x. x \<notin> fst ` set bs \<Longrightarrow> hm_get (scores t) x = hm_get (scores u) x"
  shows "hm_get (scores t) x = hm_get (scores u) x"
  using assms
proof (induction bs)
  case (Cons b bs)
  obtain h p n w flag where b: "b = (h, p, n, w, flag)" by (metis prod_cases5)
  have "hm_get (scores t) p = hm_get (scores u) p"
    using Cons.prems(1) by (intro Cons.prems(4)) (auto simp: b)
  then have "flagged t p = flagged u p" by (simp add: flagged_iff)
  then have "hm_get (scores t) h = hm_get (scores u) h"
    using Cons.prems(3) [of h p n w flag] Cons.prems(2) by (simp add: b entry_score_def)
  then have "hm_get (scores t) y = hm_get (scores u) y" if "y \<notin> fst ` set bs" for y
    using Cons.prems(4) [of y] that by (cases "y = h") (auto simp: b)
  with Cons.IH Cons.prems(1-3) show ?case by (simp add: b)
qed simp

text \<open>The head is the best of the old head and the added blocks.\<close>

lemma add_all_names:
  "fc_head s = bs_block_hash (head_score s) \<Longrightarrow> fc_head (add_all s bs) = bs_block_hash (head_score (add_all s bs))"
proof (induction bs arbitrary: s)
  case (Cons b bs)
  obtain h p n w flag where b: "b = (h, p, n, w, flag)" by (metis prod_cases5)
  show ?case
    using Cons.prems by (simp add: b) (rule Cons.IH, simp add: add_block_head)
qed simp

lemma add_block_head_max:
  "head_score (snd (add_block s h p n w flag)) = max (head_score s) (entry_score s h p n w flag)"
  by (auto simp: add_block_head max_def)

lemma add_all_head_open:
  "finalized_root s = None \<Longrightarrow> head_score (add_all s bs)
   = foldl max (head_score s) (map (\<lambda>(h, p, n, w, flag). BlockScore (if flag then 1 else 0) w n h) bs)"
  by (induction bs arbitrary: s) (auto simp: add_block_head_max entry_score_def)

lemma add_all_head:
  "parents_first s bs \<Longrightarrow> head_score (add_all s bs)
   = foldl max (head_score s) (map (\<lambda>b. the (hm_get (scores (add_all s bs)) (fst b))) bs)"
proof (induction bs arbitrary: s)
  case (Cons b bs)
  obtain h p n w flag where b: "b = (h, p, n, w, flag)" by (metis prod_cases5)
  have pf: "parents_first s bs" "h \<notin> fst ` set bs" using Cons.prems by (simp_all add: b)
  have "hm_get (scores (add_all (snd (add_block s h p n w flag)) bs)) h = Some (entry_score s h p n w flag)"
    using pf(2) by (simp add: add_all_outside hm_get_insert)
  then show ?case using Cons.IH [OF parents_first_outside [OF pf]] by (simp add: b add_block_head_max)
qed simp

lemma foldl_max_eq: "foldl max x xs = Max (insert x (set xs))" for x :: "'a::linorder"
proof (induction xs arbitrary: x)
  case (Cons y ys)
  then show ?case by (cases "ys = []") (simp_all add: Max_insert max.assoc insert_commute)
qed simp

lemma add_all_order:
  assumes "set bs = set bs'" and "parents_first s bs" "parents_first s bs'"
  shows "head_score (add_all s bs) = head_score (add_all s bs')"
proof -
  have "hm_get (scores (add_all s bs)) x = hm_get (scores (add_all s bs')) x" for x
    by (rule add_all_same_scores [OF assms(2)])
      (use assms(1) add_all_scores [OF assms(2)] add_all_scores [OF assms(3)] in \<open>simp_all add: add_all_outside\<close>)
  then show ?thesis using assms(1) by (simp add: add_all_head [OF assms(2)] add_all_head [OF assms(3)] foldl_max_eq)
qed

section \<open>A sample tree\<close>

fun run_allowed :: "(fork_choice \<Rightarrow> fc_op \<Rightarrow> bool) \<Rightarrow> fork_choice \<Rightarrow> fc_op list \<Rightarrow> bool" where
  "run_allowed allowed s [] = True"
| "run_allowed allowed s (op # ops) = (allowed s op \<and> run_allowed allowed (fc_step s op) ops)"

lemma fc_reach_run: "fc_reach allowed g s \<Longrightarrow> run_allowed allowed s ops \<Longrightarrow> fc_reach allowed g (foldl fc_step s ops)"
  by (induction ops arbitrary: s) (auto intro: fc_reach_step)

text \<open>A block with a lower weight, added again with less, and a block whose parent is not tracked.\<close>

definition sample_ops :: "fc_op list" where
  "sample_ops =
     [AddBlock (ShellHash 2) (ShellHash 1) 1 5 False, AddBlock (ShellHash 3) (ShellHash 1) 1 9 False,
      AddBlock (ShellHash 2) (ShellHash 1) 1 4 False, MarkFinalized (ShellHash 2),
      AddBlock (ShellHash 4) (ShellHash 2) 2 0 False, AddBlock (ShellHash 6) (ShellHash 5) 3 8 False]"

definition sample_tree :: fork_choice where
  "sample_tree = foldl fc_step (fork_choice_new (ShellHash 1)) sample_ops"

lemma sample_tree_reach:
  "fc_reach keeps_head (ShellHash 1) sample_tree" "fc_reach keeps_parent (ShellHash 1) sample_tree"
proof -
  have "run_allowed keeps_head (fork_choice_new (ShellHash 1)) sample_ops" by code_simp
  then show "fc_reach keeps_head (ShellHash 1) sample_tree"
    unfolding sample_tree_def by (intro fc_reach_run fc_reach_new)
  have "run_allowed keeps_parent (fork_choice_new (ShellHash 1)) sample_ops" by code_simp
  then show "fc_reach keeps_parent (ShellHash 1) sample_tree"
    unfolding sample_tree_def by (intro fc_reach_run fc_reach_new)
qed

lemma sample_tree_facts:
  "finalized_root sample_tree = Some (ShellHash 2)"
  "hm_get (parent_map sample_tree) (ShellHash 4) = Some (ShellHash 2)"
  "hm_get (parent_map sample_tree) (ShellHash 3) = Some (ShellHash 1)"
  "fc_head sample_tree = ShellHash 2"
  "map_option (\<lambda>sc. with_weight 0 (head_score sample_tree) < sc) (fc_score sample_tree (ShellHash 4)) = Some True"
  by code_simp+

section \<open>Properties\<close>

text \<open>
  C5: the head is the best block as long as no operation lowers the score of the head itself.
  Operations are otherwise free: blocks may be added again, in any order and without their parents,
  and the weights of other blocks may fall; only the last block must not be removed. Then the head is
  tracked with its current score, and no tracked block has a greater one. The condition is needed: the
  code does not look for a better block when the attested weight of the head falls, so a head whose
  weight falls below another block stays the head.
\<close>

theorem head_has_best_score:
  assumes "fc_reach keeps_head g s"
  shows "fc_score s (fc_head s) = Some (head_score s)
       \<and> (\<forall>h sc. fc_score s h = Some sc \<longrightarrow> sc \<le> head_score s)
       \<and> (\<forall>h sc w. fc_score s h = Some sc \<longrightarrow> h \<noteq> fc_head s \<longrightarrow> with_weight w (head_score s) < sc \<longrightarrow>
            (let t = fc_step s (UpdateWeight (fc_head s) w)
             in fc_head t = fc_head s \<and> fc_score t h = Some sc \<and> head_score t < sc))"
  using fc_reach_head [OF assms] by (auto simp: head_ok_def fc_score_def Let_def update_weight_head)

theorem head_has_best_score_witness:
  "fc_score sample_tree (ShellHash 2) = Some (head_score sample_tree)
   \<and> (\<exists>sc. fc_score sample_tree (ShellHash 4) = Some sc \<and> sc \<le> head_score sample_tree
       \<and> (let t = fc_step sample_tree (UpdateWeight (ShellHash 2) 0)
          in fc_head t = ShellHash 2 \<and> fc_score t (ShellHash 4) = Some sc \<and> head_score t < sc))"
proof -
  obtain sc where "fc_score sample_tree (ShellHash 4) = Some sc" "with_weight 0 (head_score sample_tree) < sc"
    using sample_tree_facts(5) by auto
  then show ?thesis
    using head_has_best_score [OF sample_tree_reach(1)] by (simp add: sample_tree_facts(4) Let_def)
qed

text \<open>
  C6: once a block is finalized the head descends from it: no score, weight or later operation moves
  the canonical chain off the finalized block. Weights may rise and fall and blocks may arrive before
  their parents. The finalized block itself must not be added again, and a tracked block must be added
  again only with the parent it has; a parent is part of what the hash of a block commits to.
\<close>

theorem head_extends_finalized:
  assumes "fc_reach keeps_parent g s" and r: "finalized_root s = Some r"
  shows "fc_contains s r \<and> fc_contains s (fc_head s) \<and> descends (parent_map s) r (fc_head s)"
  using fc_reach_flags [OF assms(1)] r
  by (auto simp: flags_ok_def flagged_iff fc_contains_def hm_contains_def)

theorem head_extends_finalized_witness:
  "descends (parent_map sample_tree) (ShellHash 2) (fc_head sample_tree)"
  using head_extends_finalized [OF sample_tree_reach(2) sample_tree_facts(1)] by blast

text \<open>
  The finalized root only moves forward: every operation leaves a finalized root that
  descends from the one before.
\<close>

theorem finalized_root_moves_forward:
  assumes "fc_reach keeps_parent g s" and r: "finalized_root s = Some r"
  shows "\<exists>r'. finalized_root (fc_step s op) = Some r' \<and> descends (parent_map s) r r'"
proof (cases op)
  case (MarkFinalized h)
  then show ?thesis
    using r chain_between_nonempty_iff [of s h r]
    by (auto simp: mark_finalized_cases may_finalize_def intro: descends_refl)
next
  case (PruneBelow n)
  have "flags_ok s" by (rule fc_reach_flags [OF assms(1)])
  then show ?thesis
    using r PruneBelow
    by (cases rule: prune_below_cases [of s n])
      (auto simp: flags_ok_def flagged_iff pruned_tree_get intro: descends_refl)
qed (use r in \<open>auto simp: remove_subtree_cases without_subtree_get intro: descends_refl\<close>)

theorem finalized_root_moves_forward_witness:
  "\<exists>r'. finalized_root (fc_step sample_tree (MarkFinalized (ShellHash 4))) = Some r'
      \<and> descends (parent_map sample_tree) (ShellHash 2) r'"
  by (rule finalized_root_moves_forward [OF sample_tree_reach(2) sample_tree_facts(1)])

text \<open>
  C7: the head does not depend on the order in which blocks arrive. On any tree that operations can
  produce, adding the same blocks in two orders gives the same head: before anything is finalized in
  any two orders, and afterwards in any two orders in which the blocks are new and none comes before
  its parent. (After finalization a block that comes before its parent misses its flag.)
\<close>

theorem head_independent_of_arrival_order:
  assumes "fc_reach (\<lambda>_ _. True) g s" and "mset bs = mset bs'"
    and "finalized_root s = None \<or> parents_first s bs \<and> parents_first s bs'"
  shows "fc_head (add_all s bs) = fc_head (add_all s bs')"
proof -
  have names: "fc_head s = bs_block_hash (head_score s)"
    using fc_reach_tracked [OF assms(1)] by (simp add: tracked_ok_def)
  have same: "set bs = set bs'" using assms(2) by (rule mset_eq_setD)
  have "head_score (add_all s bs) = head_score (add_all s bs')"
    using assms(3) same add_all_order [OF same, of s]
    by (auto simp: add_all_head_open foldl_max_eq)
  then show ?thesis by (simp add: add_all_names [OF names])
qed

theorem head_independent_of_arrival_order_witness:
  "fc_head (add_all sample_tree
       [(ShellHash 7, ShellHash 4, 3, 5, False), (ShellHash 8, ShellHash 7, 4, 5, False), (ShellHash 9, ShellHash 3, 9, 9, False)]) =
   fc_head (add_all sample_tree
       [(ShellHash 9, ShellHash 3, 9, 9, False), (ShellHash 7, ShellHash 4, 3, 5, False), (ShellHash 8, ShellHash 7, 4, 5, False)])"
proof (rule head_independent_of_arrival_order)
  show "fc_reach (\<lambda>_ _. True) (ShellHash 1) sample_tree"
    unfolding sample_tree_def by (intro fc_reach_run fc_reach_new) code_simp
  show "mset [(ShellHash 7, ShellHash 4, 3, 5, False), (ShellHash 8, ShellHash 7, 4, 5, False), (ShellHash 9, ShellHash 3, 9, 9, False)]
    = mset [(ShellHash 9, ShellHash 3, 9, 9, False), (ShellHash 7, ShellHash 4, 3, 5, False), (ShellHash 8, ShellHash 7, 4, 5, False)]"
    by simp
qed code_simp

text \<open>
  When \<open>mark_finalized\<close> accepts a block, the blocks flagged as finalized are exactly
  the block and its descendants, whatever was flagged before; when it refuses, nothing changes.
  It accepts exactly tracked blocks that are, or descend from, the current finalized root.
\<close>

theorem mark_finalized_exact:
  "let t = snd (mark_finalized s h) in
   if fc_contains s h \<and> (\<forall>r. finalized_root s = Some r \<longrightarrow> descends (parent_map s) r h)
   then finalized_root t = Some h \<and>
        (\<forall>x. fc_score t x =
               map_option (with_finalized_flag (if descends (parent_map s) h x then 1 else 0))
                 (fc_score s x))
   else t = s"
proof -
  have "may_finalize s h \<longleftrightarrow>
      fc_contains s h \<and> (\<forall>r. finalized_root s = Some r \<longrightarrow> descends (parent_map s) r h)"
    unfolding may_finalize_def chain_between_nonempty_iff by (auto intro: descends_refl)
  note iff = this
  show ?thesis
    unfolding iff [symmetric] Let_def mark_finalized_cases
    by (simp add: fc_score_def marked_tree_score)
qed

theorem mark_finalized_exact_witness:
  "finalized_root (snd (mark_finalized sample_tree (ShellHash 4))) = Some (ShellHash 4)
   \<and> snd (mark_finalized sample_tree (ShellHash 3)) = sample_tree"
proof -
  have "fc_contains sample_tree (ShellHash 4)" by code_simp
  moreover have "descends (parent_map sample_tree) (ShellHash 2) (ShellHash 4)"
    by (rule descends_child [OF descends_refl sample_tree_facts(2)])
  moreover have "chain_between sample_tree (ShellHash 3) (ShellHash 2) = []" by code_simp
  then have "\<not> descends (parent_map sample_tree) (ShellHash 2) (ShellHash 3)"
    using chain_between_nonempty_iff [of sample_tree "ShellHash 3" "ShellHash 2"] by simp
  ultimately show ?thesis
    using mark_finalized_exact [of sample_tree "ShellHash 4"]
      mark_finalized_exact [of sample_tree "ShellHash 3"]
    by (simp add: Let_def sample_tree_facts(1))
qed

text \<open>
  \<open>remove_subtree\<close> removes exactly the block and its descendants from the tree. It
  does so unless the block is untracked, a base of the tree, or an ancestor of the finalized
  root; then nothing changes. So the finalized root is never removed.
\<close>

theorem remove_subtree_exact:
  "let (removed, t) = remove_subtree s root in
   if fc_contains s root \<and> fc_parent s root \<noteq> Some hash_zero
      \<and> (\<forall>f. finalized_root s = Some f \<longrightarrow> \<not> descends (parent_map s) root f)
   then removed \<and> finalized_root t = finalized_root s \<and>
        (\<forall>x. fc_score t x = (if descends (parent_map s) root x then None else fc_score s x) \<and>
             fc_parent t x = (if descends (parent_map s) root x then None else fc_parent s x))
   else \<not> removed \<and> t = s"
proof -
  have "may_remove s root \<longleftrightarrow> fc_contains s root \<and> fc_parent s root \<noteq> Some hash_zero
      \<and> (\<forall>f. finalized_root s = Some f \<longrightarrow> \<not> descends (parent_map s) root f)"
    by (auto simp: may_remove_def fc_parent_def)
  note iff = this
  show ?thesis
    unfolding iff [symmetric] remove_subtree_cases
    by (simp add: fc_score_def fc_parent_def without_subtree_get)
qed

theorem remove_subtree_exact_witness:
  "fst (remove_subtree sample_tree (ShellHash 4)) \<and> \<not> fst (remove_subtree sample_tree (ShellHash 2))"
proof -
  have "fc_contains sample_tree (ShellHash 4)" "fc_parent sample_tree (ShellHash 4) \<noteq> Some hash_zero"
    "chain_between sample_tree (ShellHash 2) (ShellHash 4) = []"
    by code_simp+
  moreover from this have "\<not> descends (parent_map sample_tree) (ShellHash 4) (ShellHash 2)"
    using chain_between_nonempty_iff [of sample_tree "ShellHash 2" "ShellHash 4"] by simp
  ultimately show ?thesis
    using remove_subtree_exact [of sample_tree "ShellHash 4"]
      remove_subtree_exact [of sample_tree "ShellHash 2"]
      descends_refl [of "parent_map sample_tree" "ShellHash 2"]
    by (auto simp: Let_def sample_tree_facts(1) split: prod.splits)
qed

text \<open>
  \<open>chain_between\<close> returns the blocks from just above \<open>to_hash\<close> up to
  \<open>from_hash\<close>, oldest first, each the parent of the next, whenever \<open>from_hash\<close>
  descends from \<open>to_hash\<close>; otherwise, and for equal hashes, it returns the empty list. The
  bound on its iterations never cuts a real chain short.
\<close>

theorem chain_between_exact:
  "let xs = chain_between s from_hash to_hash in
   (xs \<noteq> [] \<longleftrightarrow> from_hash \<noteq> to_hash \<and> descends (parent_map s) to_hash from_hash) \<and>
   (xs \<noteq> [] \<longrightarrow> last xs = from_hash \<and> fc_parent s (hd xs) = Some to_hash) \<and>
   (\<forall>i. Suc i < length xs \<longrightarrow> fc_parent s (xs ! Suc i) = Some (xs ! i))"
proof (cases "descends (parent_map s) to_hash from_hash")
  case True
  then obtain k where k: "up (parent_map s) k from_hash = Some to_hash"
    "\<And>j. j < k \<Longrightarrow> up (parent_map s) j from_hash \<noteq> Some to_hash"
    by (rule descends_least_up) blast
  let ?f = "\<lambda>j. the (up (parent_map s) j from_hash)"
  have xs: "chain_between s from_hash to_hash = rev (map ?f [0..<k])"
    by (rule chain_between_found [OF k])
  have par: "fc_parent s (?f j) = Some (?f (Suc j))" if "j < k" for j
    using up_defined [OF k(1) that] by (auto simp: fc_parent_def)
  have top: "?f k = to_hash" using k(1) by simp
  have "fc_parent s (rev (map ?f [0..<k]) ! Suc i) = Some (rev (map ?f [0..<k]) ! i)"
    if "Suc i < k" for i
    using par [of "k - Suc (Suc i)"] that by (simp add: rev_nth Suc_diff_Suc)
  moreover have "last (rev (map ?f [0..<k])) = from_hash
      \<and> fc_parent s (hd (rev (map ?f [0..<k]))) = Some to_hash" if "0 < k"
    using par [of "k - 1"] that top by (simp add: last_rev hd_map hd_rev last_map)
  ultimately show ?thesis
    using chain_between_nonempty_iff [of s from_hash to_hash] unfolding Let_def xs by auto
next
  case False
  then have "chain_between s from_hash to_hash = []"
    using chain_between_nonempty_iff [of s from_hash to_hash] by blast
  with False show ?thesis by simp
qed

theorem chain_between_exact_witness:
  "last (chain_between sample_tree (ShellHash 4) (ShellHash 1)) = ShellHash 4"
proof -
  have "chain_between sample_tree (ShellHash 4) (ShellHash 1) \<noteq> []" by code_simp
  then show ?thesis using chain_between_exact [of sample_tree "ShellHash 4" "ShellHash 1"]
    by (simp add: Let_def)
qed

text \<open>
  On a tree whose parents rank below their children \<open>find_common_ancestor\<close> ends and
  finds the nearest common ancestor: its result is an ancestor of both blocks and every common
  ancestor is an ancestor of it; it reports none only if there is none.
\<close>

theorem find_common_ancestor_nearest:
  assumes "ranked (parent_map s) rank"
  shows "\<exists>r. find_common_ancestor s a b = Some r \<and>
    (case r of
       None \<Rightarrow> \<not> (\<exists>x. ancestor (parent_map s) a x \<and> ancestor (parent_map s) b x)
     | Some y \<Rightarrow> ancestor (parent_map s) a y \<and> ancestor (parent_map s) b y \<and>
         (\<forall>x. ancestor (parent_map s) a x \<and> ancestor (parent_map s) b x
              \<longrightarrow> ancestor (parent_map s) y x))"
proof -
  obtain A where A: "ancestors_loop (parent_map s) a {||} = Some A"
    "\<forall>x. x |\<in>| A \<longleftrightarrow> ancestor (parent_map s) a x"
    using ancestors_loop_total [OF assms, of a "{||}"] by auto
  obtain r where r: "common_loop (parent_map s) A b = Some r"
    "case r of None \<Rightarrow> \<forall>x. ancestor (parent_map s) b x \<longrightarrow> x |\<notin>| A
     | Some y \<Rightarrow> ancestor (parent_map s) b y \<and> y |\<in>| A
         \<and> (\<forall>x. ancestor (parent_map s) b x \<and> x |\<in>| A \<longrightarrow> ancestor (parent_map s) y x)"
    using common_loop_total [OF assms, of A b] by blast
  have "find_common_ancestor s a b = Some r" using A(1) r(1) by (simp add: find_common_ancestor_def)
  with r(2) A(2) show ?thesis by (cases r) auto
qed

theorem find_common_ancestor_nearest_witness:
  "\<exists>r. find_common_ancestor sample_tree (ShellHash 4) (ShellHash 3) = Some r"
proof -
  have "hm_entries (parent_map sample_tree) =
          [(ShellHash 1, hash_zero), (ShellHash 2, ShellHash 1), (ShellHash 3, ShellHash 1),
           (ShellHash 4, ShellHash 2), (ShellHash 6, ShellHash 5)]"
    by code_simp
  then have "ranked (parent_map sample_tree) (\<lambda>h. unat (hash_bits h))"
    by (auto simp: ranked_def hm_in_entries [symmetric])
  from find_common_ancestor_nearest [OF this, of "ShellHash 4" "ShellHash 3"] show ?thesis by blast
qed

end
