(* ===== verification/PoA.thy ===== *)
theory PoA
  imports Consensus_Base
begin

text \<open>
  \<open>crates/consensus/src/poa.rs\<close>: the proof-of-authority configuration, proposer selection
  with and without weights, slashing of effective weight, header, timestamp and seal checks, and
  the penalty snapshot. \<open>keccak256\<close> and \<open>blake3\<close> are third-party parameters.
  \<open>None\<close> as the result of a proposer selection stands for a panic.
\<close>

section \<open>Configuration\<close>

record poa_config =
  authorities :: "address list"
  authority_weights :: "u64 list"
  block_time_secs :: u64
  max_future_secs :: u64
  epoch_length :: u64
  slashed :: "address fset"
  slash_weight_bps :: u64

abbreviation (input) DEFAULT_MAX_FUTURE_SECS :: u64 where
  "DEFAULT_MAX_FUTURE_SECS \<equiv> 60"

definition poa_config_new :: "address list \<Rightarrow> u64 \<Rightarrow> poa_config" where
  "poa_config_new auths block_time =
     \<lparr>authorities = auths, authority_weights = [], block_time_secs = block_time,
      max_future_secs = DEFAULT_MAX_FUTURE_SECS, epoch_length = 0, slashed = {||},
      slash_weight_bps = 1000\<rparr>"

definition with_max_future_secs :: "poa_config \<Rightarrow> u64 \<Rightarrow> poa_config" where
  "with_max_future_secs c secs = c\<lparr>max_future_secs := secs\<rparr>"

definition with_epoch_length :: "poa_config \<Rightarrow> u64 \<Rightarrow> poa_config" where
  "with_epoch_length c len = c\<lparr>epoch_length := len\<rparr>"

text \<open>\<open>with_weights\<close> panics on a length mismatch.\<close>

definition poa_with_weights :: "poa_config \<Rightarrow> u64 list \<Rightarrow> poa_config option" where
  "poa_with_weights c weights =
     (if length weights \<noteq> length (authorities c) then None
      else Some (c\<lparr>authority_weights := map (\<lambda>w. clamp w 1 MAX_VALIDATOR_WEIGHT) weights\<rparr>))"

definition seed_u64 :: "hash_fn \<Rightarrow> u64 \<Rightarrow> u64" where
  "seed_u64 keccak256 block_number =
     of_nat (le_nat (take 8 (hash_as_bytes (keccak256 (le_bytes 8 block_number)))))"

definition list_get :: "'a list \<Rightarrow> usize \<Rightarrow> 'a option" where
  "list_get xs i = (if i < length xs then Some (xs ! i) else None)"

fun config_ticket_walk :: "poa_config \<Rightarrow> u64 \<Rightarrow> u64 \<Rightarrow> usize \<Rightarrow> u64 list \<Rightarrow> address option" where
  "config_ticket_walk c ticket cumulative i [] =
     list_get (authorities c) (length (authorities c) - 1)"
| "config_ticket_walk c ticket cumulative i (w # ws) =
     (let cumulative' = sat_add cumulative (clamp w 1 MAX_VALIDATOR_WEIGHT)
      in if ticket < cumulative' then list_get (authorities c) i
         else config_ticket_walk c ticket cumulative' (i + 1) ws)"

definition weighted_proposer_for_block :: "hash_fn \<Rightarrow> poa_config \<Rightarrow> u64 \<Rightarrow> address option" where
  "weighted_proposer_for_block keccak256 c block_number =
     (if authorities c = [] then Some address_zero
      else
        let total_weight =
              (case checked_sum_from 0
                      (map (\<lambda>w. clamp w 1 MAX_VALIDATOR_WEIGHT) (authority_weights c)) of
                 Some t \<Rightarrow> t
               | None \<Rightarrow> u_max)
        in if total_weight = 0 then None
           else config_ticket_walk c (seed_u64 keccak256 block_number mod total_weight) 0 0
                  (authority_weights c))"

definition poa_proposer_for_block :: "hash_fn \<Rightarrow> poa_config \<Rightarrow> u64 \<Rightarrow> address option" where
  "poa_proposer_for_block keccak256 c block_number =
     (let n = length (authorities c) in
      if n = 0 then Some address_zero
      else if authority_weights c \<noteq> [] then weighted_proposer_for_block keccak256 c block_number
      else
        let idx = (case (if 0 < epoch_length c
                         then round_robin_index (block_number mod epoch_length c) n
                         else round_robin_index block_number n) of
                     None \<Rightarrow> 0 | Some i \<Rightarrow> i)
        in list_get (authorities c) idx)"

definition config_slash_authority :: "poa_config \<Rightarrow> address \<Rightarrow> poa_config" where
  "config_slash_authority c offender = c\<lparr>slashed := finsert offender (slashed c)\<rparr>"

text \<open>\<open>set_authorities\<close> panics on an empty set.\<close>

definition config_set_authorities :: "poa_config \<Rightarrow> address list \<Rightarrow> poa_config option" where
  "config_set_authorities c new_authorities =
     (if new_authorities = [] then None
      else Some (c\<lparr>authority_weights := [], authorities := new_authorities\<rparr>))"

section \<open>The engine\<close>

record poa_engine =
  poa_cfg :: poa_config
  poa_slash_weights :: "(address, u64) hashmap"

definition poa_engine_new :: "poa_config \<Rightarrow> poa_engine" where
  "poa_engine_new config = \<lparr>poa_cfg = config, poa_slash_weights = hm_new\<rparr>"

fun position_from :: "usize \<Rightarrow> 'a list \<Rightarrow> 'a \<Rightarrow> usize option" where
  "position_from i [] a = None"
| "position_from i (x # xs) a = (if x = a then Some i else position_from (i + 1) xs a)"

definition list_position :: "'a list \<Rightarrow> 'a \<Rightarrow> usize option" where
  "list_position xs a = position_from 0 xs a"

definition base_weight_at :: "poa_engine \<Rightarrow> usize \<Rightarrow> u64" where
  "base_weight_at e index =
     max (case list_get (authority_weights (poa_cfg e)) index of Some w \<Rightarrow> w | None \<Rightarrow> 1) 1"

definition base_weight_for :: "poa_engine \<Rightarrow> address \<Rightarrow> u64 option" where
  "base_weight_for e authority =
     (case list_position (authorities (poa_cfg e)) authority of
        None \<Rightarrow> None
      | Some idx \<Rightarrow> Some (base_weight_at e idx))"

text \<open>The callers pass an index of the authority list.\<close>

definition effective_weight_at :: "poa_engine \<Rightarrow> usize \<Rightarrow> u64" where
  "effective_weight_at e index =
     sat_sub (base_weight_at e index)
       (hm_get_or (poa_slash_weights e) (authorities (poa_cfg e) ! index) 0)"

definition effective_weight_for :: "poa_engine \<Rightarrow> address \<Rightarrow> u64 option" where
  "effective_weight_for e authority =
     (case list_position (authorities (poa_cfg e)) authority of
        None \<Rightarrow> None
      | Some idx \<Rightarrow> Some (effective_weight_at e idx))"

text \<open>The authorities with positive effective weight, with their weights, in order.\<close>

definition active_entries :: "poa_engine \<Rightarrow> (address \<times> u64) list" where
  "active_entries e =
     map (\<lambda>i. (authorities (poa_cfg e) ! i, effective_weight_at e i))
       (filter (\<lambda>i. 0 < effective_weight_at e i) [0..<length (authorities (poa_cfg e))])"

fun ticket_walk :: "u64 \<Rightarrow> u64 \<Rightarrow> address \<Rightarrow> (address \<times> u64) list \<Rightarrow> address" where
  "ticket_walk ticket cumulative last_active [] = last_active"
| "ticket_walk ticket cumulative last_active ((a, w) # es) =
     (let cumulative' = sat_add cumulative w
      in if ticket < cumulative' then a else ticket_walk ticket cumulative' a es)"

definition expected_proposer_for_block :: "hash_fn \<Rightarrow> poa_engine \<Rightarrow> u64 \<Rightarrow> address" where
  "expected_proposer_for_block keccak256 e block_number =
     (let c = poa_cfg e in
      if authorities c = [] then address_zero
      else
        let active = active_entries e;
            active_count = length active;
            total_weight = foldl (\<lambda>acc p. sat_add acc (snd p)) 0 active
        in if active_count = 0 then address_zero
           else if authority_weights c = [] then
             (let idx = (case (if 0 < epoch_length c
                               then round_robin_index (block_number mod epoch_length c) active_count
                               else round_robin_index block_number active_count) of
                           None \<Rightarrow> 0 | Some i \<Rightarrow> i)
              in case list_get active idx of Some p \<Rightarrow> fst p | None \<Rightarrow> address_zero)
           else ticket_walk (seed_u64 keccak256 block_number mod total_weight) 0 address_zero active)"

definition slash_amount :: "u64 \<Rightarrow> u64 \<Rightarrow> u64" where
  "slash_amount current_weight bps =
     ucast ((ucast current_weight :: u128) * ucast bps div 10000)"

definition poa_slash_authority :: "poa_engine \<Rightarrow> address \<Rightarrow> poa_engine" where
  "poa_slash_authority e offender =
     (let e = e\<lparr>poa_cfg := config_slash_authority (poa_cfg e) offender\<rparr>;
          current_weight = (case effective_weight_for e offender of Some w \<Rightarrow> w | None \<Rightarrow> 1);
          amount = slash_amount current_weight (slash_weight_bps (poa_cfg e));
          base_weight = (case base_weight_for e offender of Some w \<Rightarrow> w | None \<Rightarrow> 1);
          cumulative = hm_get_or (poa_slash_weights e) offender 0;
          updated = min (sat_add cumulative amount) base_weight
      in e\<lparr>poa_slash_weights := hm_insert (poa_slash_weights e) offender updated\<rparr>)"

definition verify_proposer :: "hash_fn \<Rightarrow> poa_engine \<Rightarrow> block_header \<Rightarrow> consensus_error + unit" where
  "verify_proposer keccak256 e header =
     (if (case effective_weight_for e (hdr_proposer header) of Some w \<Rightarrow> w | None \<Rightarrow> 0) = 0
      then Inl (UnknownProposer (hdr_proposer header))
      else
        let expected = expected_proposer_for_block keccak256 e (hdr_number header)
        in if hdr_proposer header \<noteq> expected
           then Inl (InvalidProposer expected (hdr_proposer header)) else Inr ())"

definition verify_timestamp ::
  "hash_fn \<Rightarrow> poa_engine \<Rightarrow> block_header \<Rightarrow> block_header option \<Rightarrow> u64 \<Rightarrow> consensus_error + unit" where
  "verify_timestamp blake3 e header parent current_time =
     (if sat_add current_time (max_future_secs (poa_cfg e)) < hdr_timestamp header
      then Inl (InvalidTimestamp TooFarInFuture)
      else case parent of
          None \<Rightarrow> Inr ()
        | Some par \<Rightarrow>
            (if hdr_timestamp header < sat_add (hdr_timestamp par) (block_time_secs (poa_cfg e))
             then Inl (InvalidTimestamp TooSoonAfterParent)
             else case checked_add (hdr_number par) 1 of
                 None \<Rightarrow> Inl (InvalidTimestamp ParentCannotAdvance)
               | Some expected_number \<Rightarrow>
                   (if hdr_number header \<noteq> expected_number then Inl (InvalidTimestamp NotParentPlusOne)
                    else if hdr_parent_hash header \<noteq> header_hash blake3 par
                    then Inl (Internal ''parent_hash does not match parent header'')
                    else Inr ())))"

definition verify_seal ::
  "hash_fn \<Rightarrow> block_header \<Rightarrow> pq_signature \<Rightarrow> u8 list \<Rightarrow> verifier \<Rightarrow> consensus_error + unit" where
  "verify_seal blake3 header seal proposer_pubkey verify =
     (case verify proposer_pubkey (hash_as_bytes (header_hash blake3 header)) seal of
        Inl _ \<Rightarrow> Inl InvalidSignature
      | Inr valid \<Rightarrow> if \<not> valid then Inl InvalidSignature else Inr ())"

definition poa_verify_header :: "hash_fn \<Rightarrow> poa_engine \<Rightarrow> block_header \<Rightarrow> consensus_error + unit" where
  "poa_verify_header keccak256 e header = verify_proposer keccak256 e header"

definition poa_seal_block ::
  "hash_fn \<Rightarrow> poa_engine \<Rightarrow> ('tx, 'stx) block \<Rightarrow> consensus_error + unit" where
  "poa_seal_block keccak256 e b =
     (let expected = expected_proposer_for_block keccak256 e (hdr_number (blk_header b))
      in if hdr_proposer (blk_header b) \<noteq> expected
         then Inl (InvalidProposer expected (hdr_proposer (blk_header b))) else Inr ())"

definition poa_sign_block ::
  "hash_fn \<Rightarrow> hash_fn \<Rightarrow> poa_engine \<Rightarrow> ('tx, 'stx) block \<Rightarrow> signer \<Rightarrow>
     consensus_error + ('tx, 'stx) block" where
  "poa_sign_block keccak256 blake3 e b sign =
     (let expected = expected_proposer_for_block keccak256 e (hdr_number (blk_header b))
      in if hdr_proposer (blk_header b) \<noteq> expected
         then Inl (InvalidProposer expected (hdr_proposer (blk_header b)))
         else case sign (hash_as_bytes (header_hash blake3 (blk_header b))) of
             Inl err \<Rightarrow> Inl (SealingFailed err)
           | Inr sig \<Rightarrow> Inr (b\<lparr>blk_proposer_seal := Some sig\<rparr>))"

definition poa_penalty_state :: "poa_engine \<Rightarrow> penalty_state" where
  "poa_penalty_state e =
     \<lparr>pen_slashed = sorted_list_of_fset (slashed (poa_cfg e)),
      pen_reductions = sort_key fst (hm_entries (poa_slash_weights e))\<rparr>"

definition poa_restore_penalty_state :: "poa_engine \<Rightarrow> penalty_state \<Rightarrow> poa_engine" where
  "poa_restore_penalty_state e st =
     e\<lparr>poa_cfg := (poa_cfg e)\<lparr>slashed := fset_of_list (pen_slashed st)\<rparr>,
       poa_slash_weights := hm_from_list (pen_reductions st)\<rparr>"

definition verify_header_with_parent ::
  "hash_fn \<Rightarrow> hash_fn \<Rightarrow> poa_engine \<Rightarrow> block_header \<Rightarrow> block_header \<Rightarrow> pq_signature \<Rightarrow> u8 list \<Rightarrow>
     verifier \<Rightarrow> u64 \<Rightarrow> consensus_error + unit" where
  "verify_header_with_parent keccak256 blake3 e header parent seal proposer_pubkey verify current_time =
     (case verify_proposer keccak256 e header of
        Inl err \<Rightarrow> Inl err
      | Inr _ \<Rightarrow>
          (case verify_timestamp blake3 e header (Some parent) current_time of
             Inl err \<Rightarrow> Inl err
           | Inr _ \<Rightarrow> verify_seal blake3 header seal proposer_pubkey verify))"

section \<open>Positions and weights\<close>

lemma position_from_Some:
  "position_from i xs a = Some j \<Longrightarrow> i \<le> j \<and> j < i + length xs \<and> xs ! (j - i) = a"
  by (induction i xs a rule: position_from.induct)
    (auto split: if_splits simp: nth_Cons' Suc_diff_Suc)

lemma position_from_None: "position_from i xs a = None \<longleftrightarrow> a \<notin> set xs"
  by (induction i xs a rule: position_from.induct) auto

lemma list_position_Some: "list_position xs a = Some j \<Longrightarrow> j < length xs \<and> xs ! j = a"
  using position_from_Some [of 0 xs a j] by (simp add: list_position_def)

lemma list_position_None: "list_position xs a = None \<longleftrightarrow> a \<notin> set xs"
  by (simp add: list_position_def position_from_None)

lemma list_position_distinct:
  assumes "distinct xs" "i < length xs"
  shows "list_position xs (xs ! i) = Some i"
proof -
  obtain j where j: "list_position xs (xs ! i) = Some j"
    using assms(2) by (cases "list_position xs (xs ! i)") (auto simp: list_position_None)
  with list_position_Some [OF j] assms show ?thesis by (metis nth_eq_iff_index_eq)
qed

section \<open>Slashing\<close>

lemma unat_slash_amount:
  "unat bps \<le> 10000 \<Longrightarrow> unat (slash_amount w bps) = unat w * unat bps div 10000"
proof -
  assume bps: "unat bps \<le> 10000"
  have w: "unat w < 18446744073709551616" by (rule unat_u64_less)
  have le: "unat w * unat bps \<le> unat w * 10000" using bps by simp
  then have "unat w * unat bps < 340282366920938463463374607431768211456" using w by linarith
  then have prod: "unat ((ucast w :: u128) * ucast bps) = unat w * unat bps"
    by (subst unat_mult_fits) (simp_all add: unat_ucast_u128)
  have "unat w * unat bps div 10000 \<le> unat w" using div_le_mono [OF le, of 10000] by simp
  then have "unat w * unat bps div 10000 < 18446744073709551616" using w by linarith
  then show ?thesis
    by (simp add: slash_amount_def unsigned_ucast_eq take_bit_nat_eq_self_iff unat_div prod)
qed

lemma sat_sub_min_sat_add: "sat_sub b (min (sat_add c d) b) = sat_sub (sat_sub b c) d" for b c d :: u64
proof -
  have "unat (sat_sub b (min (sat_add c d) b)) = unat (sat_sub (sat_sub b c) d)"
    by (simp add: unat_sat_sub unat_sat_add min_def word_le_nat_alt split: if_splits)
      (use unat_u64_less [of b] in linarith)
  then show ?thesis by (simp add: word_unat_eq_iff)
qed

lemma slash_authority_cfg [simp]:
  "authorities (poa_cfg (poa_slash_authority e a)) = authorities (poa_cfg e)"
  "authority_weights (poa_cfg (poa_slash_authority e a)) = authority_weights (poa_cfg e)"
  "slash_weight_bps (poa_cfg (poa_slash_authority e a)) = slash_weight_bps (poa_cfg e)"
  "slashed (poa_cfg (poa_slash_authority e a)) = finsert a (slashed (poa_cfg e))"
  by (simp_all add: poa_slash_authority_def config_slash_authority_def Let_def)

lemma base_weight_slash [simp]: "base_weight_at (poa_slash_authority e a) i = base_weight_at e i"
  by (simp add: base_weight_at_def)

lemma weight_cong:
  assumes "authorities (poa_cfg e) = authorities (poa_cfg e')"
    "authority_weights (poa_cfg e) = authority_weights (poa_cfg e')"
  shows "base_weight_at e = base_weight_at e'" "base_weight_for e = base_weight_for e'"
    "poa_slash_weights e = poa_slash_weights e' \<Longrightarrow> effective_weight_for e = effective_weight_for e'"
  using assms
  by (simp_all add: base_weight_at_def base_weight_for_def effective_weight_for_def
      effective_weight_at_def fun_eq_iff split: option.split)

lemma slash_weights_other:
  "a \<noteq> b \<Longrightarrow> hm_get (poa_slash_weights (poa_slash_authority e a)) b = hm_get (poa_slash_weights e) b"
  by (simp add: poa_slash_authority_def config_slash_authority_def Let_def hm_get_insert)

lemma effective_weight_slash_other:
  "a \<noteq> b \<Longrightarrow> effective_weight_for (poa_slash_authority e a) b = effective_weight_for e b"
  by (auto simp: effective_weight_for_def effective_weight_at_def hm_get_or_def slash_weights_other
      dest: list_position_Some split: option.split)

lemma effective_weight_slash:
  assumes "effective_weight_for e a = Some w"
  shows "effective_weight_for (poa_slash_authority e a) a =
           Some (sat_sub w (slash_amount w (slash_weight_bps (poa_cfg e))))"
proof -
  let ?e = "e\<lparr>poa_cfg := (poa_cfg e)\<lparr>slashed := finsert a (slashed (poa_cfg e))\<rparr>\<rparr>"
  obtain i where i: "list_position (authorities (poa_cfg e)) a = Some i"
    and w: "w = effective_weight_at e i"
    using assms by (auto simp: effective_weight_for_def split: option.splits)
  have same: "effective_weight_for ?e = effective_weight_for e" "base_weight_for ?e = base_weight_for e"
    by (rule weight_cong; simp)+
  have base: "base_weight_for e a = Some (base_weight_at e i)" using i by (simp add: base_weight_for_def)
  have red: "hm_get (poa_slash_weights (poa_slash_authority e a)) a =
      Some (min (sat_add (hm_get_or (poa_slash_weights e) a 0)
                   (slash_amount w (slash_weight_bps (poa_cfg e)))) (base_weight_at e i))"
    using assms base
    by (simp add: poa_slash_authority_def Let_def same config_slash_authority_def hm_get_insert)
  show ?thesis
    using i list_position_Some [OF i]
    by (simp add: effective_weight_for_def effective_weight_at_def hm_get_or_def red w
        sat_sub_min_sat_add)
qed

section \<open>The penalty snapshot\<close>

lemma map_of_sort_key: "distinct (map fst xs) \<Longrightarrow> map_of (sort_key fst xs) = map_of xs"
  by (rule map_of_eqI) (auto simp: map_of_eq_Some_iff distinct_map)

lemma hm_from_sorted_entries: "hm_get (hm_from_list (sort_key fst (hm_entries m))) = hm_get m"
proof -
  have d: "distinct (map fst (sort_key fst (hm_entries m)))"
    using distinct_fst_hm_entries [of m]
    by (metis mset_map mset_sort mset_eq_imp_distinct_iff)
  have "hm_get (hm_from_list (sort_key fst (hm_entries m))) k = hm_get m k" for k
    using hm_get_from_list_distinct [OF d, of k] map_of_sort_key [OF distinct_fst_hm_entries [of m]]
    by (simp add: hm_get_entries)
  then show ?thesis by blast
qed

definition poa_same_setup :: "poa_engine \<Rightarrow> poa_engine \<Rightarrow> bool" where
  "poa_same_setup e e' \<longleftrightarrow>
     authorities (poa_cfg e) = authorities (poa_cfg e')
     \<and> authority_weights (poa_cfg e) = authority_weights (poa_cfg e')"

lemma restore_penalties_weight:
  assumes "poa_same_setup e e'"
  shows "effective_weight_for (poa_restore_penalty_state e' (poa_penalty_state e)) =
           effective_weight_for e"
  using assms
  by (simp add: fun_eq_iff effective_weight_for_def effective_weight_at_def base_weight_at_def
      hm_get_or_def poa_restore_penalty_state_def poa_penalty_state_def hm_from_sorted_entries
      poa_same_setup_def split: option.split)

interpretation poa_penalties:
  penalised_engine effective_weight_for poa_slash_authority poa_penalty_state
    poa_restore_penalty_state poa_same_setup
proof unfold_locales
  show "effective_weight_for (poa_slash_authority e a) b = effective_weight_for e b" if "a \<noteq> b" for a b e
    using that by (rule effective_weight_slash_other)
  show "\<exists>w'. effective_weight_for (poa_slash_authority e a) a = Some w' \<and> w' \<le> w"
    if "effective_weight_for e a = Some w" for e a w
    using effective_weight_slash [OF that] by (simp add: sat_sub_le)
  show "poa_same_setup (poa_slash_authority e a) e' = poa_same_setup e e'" for e a e'
    by (simp add: poa_same_setup_def)
qed (rule restore_penalties_weight)

section \<open>Proposer selection\<close>

lemma unat_foldl_sat_add:
  "unat (foldl (\<lambda>acc p. sat_add acc (snd p)) acc es) =
     min (unat acc + sum_list (map (\<lambda>p. unat (snd p)) es)) (2 ^ 64 - 1)"
  for acc :: u64
proof (induction es arbitrary: acc)
  case Nil
  show ?case by (simp add: min_def) (use unat_u64_less [of acc] in linarith)
next
  case (Cons e es)
  then show ?case by (simp add: unat_sat_add min_def)
qed

definition pick_entries :: "(address \<times> u64) list \<Rightarrow> (address \<times> nat) list" where
  "pick_entries es = map (\<lambda>(a, w). (a, unat w)) es"

lemma ticket_walk_pick:
  assumes "unat cum \<le> unat t" "unat t < unat cum + total_of (pick_entries es)" "unat t < 2 ^ 64 - 1"
  shows "weighted_pick (unat t - unat cum) (pick_entries es) = Some (ticket_walk t cum l es)"
  using assms
proof (induction es arbitrary: cum l)
  case Nil
  then show ?case by (simp add: pick_entries_def)
next
  case (Cons e es)
  obtain a w where e: "e = (a, w)" by (cases e)
  have c: "unat (sat_add cum w) = min (unat cum + unat w) (2 ^ 64 - 1)" by (simp add: unat_sat_add)
  show ?case
  proof (cases "t < sat_add cum w")
    case True
    then have "unat t < unat cum + unat w" using c by (simp add: word_less_nat_alt)
    then have "unat t - unat cum < unat w" using Cons.prems(1) by linarith
    with True show ?thesis by (simp add: e pick_entries_def)
  next
    case False
    then have le: "unat (sat_add cum w) \<le> unat t" by (simp add: word_less_nat_alt)
    then have exact: "unat (sat_add cum w) = unat cum + unat w" using c Cons.prems(3) by simp
    have "weighted_pick (unat t - unat (sat_add cum w)) (pick_entries es) =
            Some (ticket_walk t (sat_add cum w) a es)"
      using le Cons.prems(2,3) exact by (intro Cons.IH) (simp_all add: e pick_entries_def)
    moreover have "\<not> unat t - unat cum < unat w" using le exact by linarith
    ultimately show ?thesis using False exact by (simp add: e pick_entries_def)
  qed
qed

lemma pick_entries_sum: "sum_list (map (\<lambda>p. unat (snd p)) es) = total_of (pick_entries es)"
  by (simp add: total_of_def pick_entries_def o_def case_prod_unfold)

lemma active_entries_weights: "p \<in> set (active_entries e) \<Longrightarrow> 0 < snd p"
  by (auto simp: active_entries_def)

lemma total_active_pos:
  "active_entries e \<noteq> [] \<Longrightarrow> 0 < total_of (pick_entries (active_entries e))"
  using active_entries_weights [of "hd (active_entries e)" e]
  by (cases "active_entries e") (auto simp: pick_entries_def word_less_nat_alt)

lemma expected_proposer_weighted:
  assumes "active_entries e \<noteq> []" "authority_weights (poa_cfg e) \<noteq> []"
  shows "weighted_pick
           (unat (seed_u64 keccak256 n) mod min (total_of (pick_entries (active_entries e))) (2 ^ 64 - 1))
           (pick_entries (active_entries e)) =
         Some (expected_proposer_for_block keccak256 e n)"
proof -
  let ?es = "active_entries e"
  let ?T = "foldl (\<lambda>acc p. sat_add acc (snd p)) 0 ?es"
  let ?t = "seed_u64 keccak256 n mod ?T"
  have T: "unat ?T = min (total_of (pick_entries ?es)) (2 ^ 64 - 1)"
    by (simp add: unat_foldl_sat_add pick_entries_sum)
  then have pos: "0 < unat ?T" using total_active_pos [OF assms(1)] by simp
  have t: "unat ?t = unat (seed_u64 keccak256 n) mod unat ?T" by (simp add: unat_mod)
  then have less: "unat ?t < unat ?T" using pos by simp
  have "weighted_pick (unat ?t - unat (0 :: u64)) (pick_entries ?es) =
          Some (ticket_walk ?t 0 address_zero ?es)"
    using less T by (intro ticket_walk_pick) simp_all
  moreover have "authorities (poa_cfg e) \<noteq> []" using assms(1) by (auto simp: active_entries_def)
  ultimately show ?thesis
    using assms by (simp add: expected_proposer_for_block_def Let_def t T)
qed

lemma expected_proposer_active:
  assumes "active_entries e \<noteq> []"
  shows "expected_proposer_for_block keccak256 e n \<in> fst ` set (active_entries e)"
proof (cases "authority_weights (poa_cfg e) = []")
  case True
  let ?k = "length (active_entries e)"
  define i where
    "i = unat (if 0 < epoch_length (poa_cfg e) then n mod epoch_length (poa_cfg e) else n) mod ?k"
  have i: "(if 0 < epoch_length (poa_cfg e)
      then round_robin_index (n mod epoch_length (poa_cfg e)) ?k
      else round_robin_index n ?k) = Some i" "i < ?k"
    using assms by (simp_all add: round_robin_index_def i_def)
  have "authorities (poa_cfg e) \<noteq> []" using assms by (auto simp: active_entries_def)
  with True assms i show ?thesis
    by (simp add: expected_proposer_for_block_def Let_def list_get_def)
next
  case False
  from weighted_pick_in [OF expected_proposer_weighted [OF assms False]]
  show ?thesis by (force simp: pick_entries_def)
qed

lemma in_active_entries:
  "a \<in> fst ` set (active_entries e) \<longleftrightarrow>
     (\<exists>i < length (authorities (poa_cfg e)). authorities (poa_cfg e) ! i = a \<and> 0 < effective_weight_at e i)"
  by (force simp: active_entries_def)

section \<open>Properties\<close>

text \<open>
  The expected proposer of every block is an authority with positive effective weight, so an
  authority slashed down to zero never proposes; only when no authority has weight left does the
  engine answer with the zero address.
\<close>

theorem expected_proposer_has_weight:
  "if \<exists>i < length (authorities (poa_cfg e)). 0 < effective_weight_at e i
   then \<exists>i < length (authorities (poa_cfg e)).
          authorities (poa_cfg e) ! i = expected_proposer_for_block keccak256 e n
          \<and> 0 < effective_weight_at e i
   else expected_proposer_for_block keccak256 e n = address_zero"
proof (cases "active_entries e = []")
  case True
  then have "\<not> (\<exists>i < length (authorities (poa_cfg e)). 0 < effective_weight_at e i)"
    by (auto simp: active_entries_def filter_empty_conv)
  moreover have "expected_proposer_for_block keccak256 e n = address_zero"
    using True by (simp add: expected_proposer_for_block_def Let_def)
  ultimately show ?thesis by auto
next
  case False
  from expected_proposer_active [OF False, of keccak256 n]
  show ?thesis unfolding in_active_entries by auto
qed

text \<open>
  C31: with weights the proposer is drawn by a lottery in proportion to effective weight: the
  proposer is the owner of the ticket that the block's seed falls on, and an authority that is
  listed once owns exactly as many tickets as its effective weight. This holds for all weights,
  also where the running sums saturate.
\<close>

theorem proposer_lottery_proportional:
  assumes "authority_weights (poa_cfg e) \<noteq> []" and "distinct (authorities (poa_cfg e))"
    and i: "i < length (authorities (poa_cfg e))" "0 < effective_weight_at e i"
  shows "Some (expected_proposer_for_block keccak256 e n) =
           weighted_pick (unat (seed_u64 keccak256 n)
               mod min (total_of (pick_entries (active_entries e))) (2 ^ 64 - 1))
             (pick_entries (active_entries e)) \<and>
         card {t. weighted_pick t (pick_entries (active_entries e)) = Some (authorities (poa_cfg e) ! i)}
           = unat (effective_weight_at e i)"
proof -
  let ?es = "pick_entries (active_entries e)" and ?a = "authorities (poa_cfg e) ! i"
  have entry: "(?a, unat (effective_weight_at e i)) \<in> set ?es"
    using i by (force simp: pick_entries_def active_entries_def)
  have "distinct (map fst ?es)"
  proof -
    have "map fst ?es = map (\<lambda>i. authorities (poa_cfg e) ! i)
        (filter (\<lambda>i. 0 < effective_weight_at e i) [0..<length (authorities (poa_cfg e))])"
      by (simp add: pick_entries_def active_entries_def o_def)
    then show ?thesis
      using assms(2) by (auto simp: distinct_map inj_on_def nth_eq_iff_index_eq)
  qed
  then have "card {t. weighted_pick t ?es = Some ?a} = unat (effective_weight_at e i)"
    unfolding card_pick_tickets using entry by (rule total_of_own_entry)
  moreover have "active_entries e \<noteq> []" using entry by (auto simp: pick_entries_def)
  ultimately show ?thesis using expected_proposer_weighted [OF _ assms(1)] by simp
qed

definition sample_engine :: poa_engine where
  "sample_engine =
     poa_engine_new \<lparr>authorities = [Address 1, Address 2], authority_weights = [30, 10],
       block_time_secs = 2, max_future_secs = 60, epoch_length = 0, slashed = {||},
       slash_weight_bps = 1000\<rparr>"

theorem proposer_lottery_proportional_witness:
  "card {t. weighted_pick t (pick_entries (active_entries sample_engine)) = Some (Address 1)} = 30"
proof -
  have facts: "authority_weights (poa_cfg sample_engine) \<noteq> []"
    "distinct (authorities (poa_cfg sample_engine))" "0 < length (authorities (poa_cfg sample_engine))"
    "0 < effective_weight_at sample_engine 0" "authorities (poa_cfg sample_engine) ! 0 = Address 1"
    "unat (effective_weight_at sample_engine 0) = 30"
    by code_simp+
  from proposer_lottery_proportional [OF facts(1-4)] facts(5,6) show ?thesis by simp
qed

text \<open>
  Full header verification accepts a header exactly when its proposer has weight and is the
  expected one, its timestamp is at most the allowed drift ahead of the clock and at least the
  block time after the parent, it is numbered one above a parent that can be followed and names
  that parent's hash, and the seal verifies over the header hash under the given key.
\<close>

theorem header_acceptance_exact:
  "verify_header_with_parent keccak256 blake3 e header parent seal pk verify now = Inr () \<longleftrightarrow>
     (\<exists>w. effective_weight_for e (hdr_proposer header) = Some w \<and> 0 < w)
     \<and> hdr_proposer header = expected_proposer_for_block keccak256 e (hdr_number header)
     \<and> hdr_timestamp header \<le> sat_add now (max_future_secs (poa_cfg e))
     \<and> sat_add (hdr_timestamp parent) (block_time_secs (poa_cfg e)) \<le> hdr_timestamp header
     \<and> unat (hdr_number header) = unat (hdr_number parent) + 1
     \<and> hdr_parent_hash header = header_hash blake3 parent
     \<and> verify pk (hash_as_bytes (header_hash blake3 header)) seal = Inr True"
proof -
  have proposer: "verify_proposer keccak256 e header = Inr () \<longleftrightarrow>
      (\<exists>w. effective_weight_for e (hdr_proposer header) = Some w \<and> 0 < w)
      \<and> hdr_proposer header = expected_proposer_for_block keccak256 e (hdr_number header)"
    by (cases "effective_weight_for e (hdr_proposer header)")
      (auto simp: verify_proposer_def Let_def word_neq_0_conv)
  have number: "(case checked_add (hdr_number parent) 1 of
        None \<Rightarrow> False | Some n \<Rightarrow> hdr_number header = n) \<longleftrightarrow>
      unat (hdr_number header) = unat (hdr_number parent) + 1"
  proof (cases "checked_add (hdr_number parent) 1")
    case None
    then have "\<not> unat (hdr_number parent) + 1 < 2 ^ 64" by (simp add: checked_add_None_iff)
    then have "unat (hdr_number header) \<noteq> unat (hdr_number parent) + 1"
      using unat_bound [of "hdr_number header"] by force
    then show ?thesis using None by simp
  next
    case (Some n)
    then have "unat (hdr_number parent) + unat (1 :: u64) < 2 ^ LENGTH(64)" "n = hdr_number parent + 1"
      by (simp_all add: checked_add_Some_iff)
    then have "unat n = unat (hdr_number parent) + 1" using unat_plus_fits by fastforce
    with Some show ?thesis by (auto simp: word_unat_eq_iff)
  qed
  have time: "verify_timestamp blake3 e header (Some parent) now = Inr () \<longleftrightarrow>
      hdr_timestamp header \<le> sat_add now (max_future_secs (poa_cfg e))
      \<and> sat_add (hdr_timestamp parent) (block_time_secs (poa_cfg e)) \<le> hdr_timestamp header
      \<and> unat (hdr_number header) = unat (hdr_number parent) + 1
      \<and> hdr_parent_hash header = header_hash blake3 parent"
    unfolding number [symmetric]
    by (auto simp: verify_timestamp_def not_less split: option.splits if_splits)
  have seal: "verify_seal blake3 header seal pk verify = Inr () \<longleftrightarrow>
      verify pk (hash_as_bytes (header_hash blake3 header)) seal = Inr True"
    by (auto simp: verify_seal_def split: sum.splits)
  have "verify_header_with_parent keccak256 blake3 e header parent seal pk verify now = Inr () \<longleftrightarrow>
      verify_proposer keccak256 e header = Inr ()
      \<and> verify_timestamp blake3 e header (Some parent) now = Inr ()
      \<and> verify_seal blake3 header seal pk verify = Inr ()"
    by (auto simp: verify_header_with_parent_def split: sum.splits)
  then show ?thesis unfolding proposer time seal by blast
qed

text \<open>
  Slashing takes from the offender exactly its effective weight times
  \<open>slash_weight_bps\<close> over 10000, rounded down, and leaves every other authority as it was.
\<close>

theorem slash_reduces_weight_proportionally:
  assumes "effective_weight_for e a = Some w" and "unat (slash_weight_bps (poa_cfg e)) \<le> 10000"
  shows "\<exists>w'. effective_weight_for (poa_slash_authority e a) a = Some w' \<and>
           unat w' = unat w - unat w * unat (slash_weight_bps (poa_cfg e)) div 10000 \<and>
           (\<forall>b. b \<noteq> a \<longrightarrow> effective_weight_for (poa_slash_authority e a) b = effective_weight_for e b)"
  using effective_weight_slash [OF assms(1)] effective_weight_slash_other [of a _ e]
  by (simp add: unat_sat_sub unat_slash_amount [OF assms(2)])

theorem slash_reduces_weight_proportionally_witness:
  "\<exists>w'. effective_weight_for (poa_slash_authority sample_engine (Address 1)) (Address 1) = Some w'
      \<and> unat w' = 27"
proof -
  have "effective_weight_for sample_engine (Address 1) = Some 30"
    "unat (slash_weight_bps (poa_cfg sample_engine)) = 1000"
    by code_simp+
  from slash_reduces_weight_proportionally [OF this(1)] this(2) show ?thesis by auto
qed

lemma slash_small_step:
  assumes "effective_weight_for e a = Some w" "unat w < 10" "slash_weight_bps (poa_cfg e) = 1000"
  shows "effective_weight_for (poa_slash_authority e a) a = Some w"
proof -
  have "unat (slash_amount w 1000) = 0" using assms(2) by (simp add: unat_slash_amount)
  then have "slash_amount w 1000 = 0" by (simp add: unat_eq_zero)
  with effective_weight_slash [OF assms(1)] assms(3) show ?thesis by (simp add: sat_sub_zero)
qed

text \<open>
  An authority whose effective weight is below 10 loses nothing at the default rate of 1000
  basis points, however often it is slashed. Authorities configured without weights have weight 1.
\<close>

theorem slash_of_small_weight_is_lost:
  assumes "effective_weight_for e a = Some w" "unat w < 10" "slash_weight_bps (poa_cfg e) = 1000"
  shows "effective_weight_for (((\<lambda>e. poa_slash_authority e a) ^^ k) e) a = Some w"
proof -
  have "effective_weight_for (((\<lambda>e. poa_slash_authority e a) ^^ k) e) a = Some w
      \<and> slash_weight_bps (poa_cfg (((\<lambda>e. poa_slash_authority e a) ^^ k) e)) = 1000"
    by (induction k) (simp_all add: assms slash_small_step)
  then show ?thesis by blast
qed

theorem slash_of_small_weight_is_lost_witness:
  "effective_weight_for
     (((\<lambda>e. poa_slash_authority e (Address 7)) ^^ 20) (poa_engine_new (poa_config_new [Address 7] 2)))
     (Address 7) = Some 1"
proof (rule slash_of_small_weight_is_lost)
  show "effective_weight_for (poa_engine_new (poa_config_new [Address 7] 2)) (Address 7) = Some 1"
    by code_simp
qed (simp_all add: poa_engine_new_def poa_config_new_def)

text \<open>
  The penalty snapshot is complete: after any slashes, an engine with the same authorities and
  weights that restores the snapshot gives every authority the effective weight it had, and
  slashing never raises a weight.
\<close>

theorem penalty_snapshot_restores_weights:
  assumes "poa_same_setup e e'"
  shows "effective_weight_for
           (poa_restore_penalty_state e' (poa_penalty_state (foldl poa_slash_authority e offenders))) a
         = effective_weight_for (foldl poa_slash_authority e offenders) a
       \<and> (\<forall>w. effective_weight_for e a = Some w \<longrightarrow>
            (\<exists>w'. effective_weight_for (foldl poa_slash_authority e offenders) a = Some w' \<and> w' \<le> w))"
  by (simp add: poa_penalties.snapshot_restores [OF assms] poa_penalties.weight_never_grows)

theorem penalty_snapshot_restores_weights_witness:
  "effective_weight_for
     (poa_restore_penalty_state sample_engine
        (poa_penalty_state (foldl poa_slash_authority sample_engine [Address 1, Address 2]))) (Address 1)
   = effective_weight_for (foldl poa_slash_authority sample_engine [Address 1, Address 2]) (Address 1)"
  using penalty_snapshot_restores_weights
    [of sample_engine sample_engine "[Address 1, Address 2]" "Address 1"]
  by (simp add: poa_same_setup_def)

end
