(* ===== verification/View_Change.thy ===== *)
theory View_Change
  imports Consensus_Base Quorum
begin

text \<open>
  \<open>crates/consensus/src/view_change.rs\<close>: view-change messages with their signing payload,
  and the state that counts the votes of a view, advances the view on a quorum and selects the
  proposer of a view. The wall clock is a parameter.
\<close>

section \<open>Messages\<close>

abbreviation (input) VIEW_CHANGE_TIMEOUT_MS :: u64 where
  "VIEW_CHANGE_TIMEOUT_MS \<equiv> 10000"

abbreviation (input) VIEWCHG_DOMAIN :: "u8 list" where
  "VIEWCHG_DOMAIN \<equiv> ascii ''SHELL_VIEWCHG_V1''"

record view_change_message =
  vc_chain_id :: u64
  vc_block_number :: u64
  vc_view :: u64
  vc_highest_qc_hash :: shell_hash
  vc_validator :: address
  vc_signature :: "u8 list"

definition view_change_message_new ::
  "u64 \<Rightarrow> u64 \<Rightarrow> u64 \<Rightarrow> shell_hash \<Rightarrow> address \<Rightarrow> u8 list \<Rightarrow> view_change_message" where
  "view_change_message_new chain_id block_number view highest_qc_hash validator signature =
     \<lparr>vc_chain_id = chain_id, vc_block_number = block_number, vc_view = view,
      vc_highest_qc_hash = highest_qc_hash, vc_validator = validator, vc_signature = signature\<rparr>"

definition view_change_signing_message :: "u64 \<Rightarrow> u64 \<Rightarrow> u64 \<Rightarrow> shell_hash \<Rightarrow> u8 list" where
  "view_change_signing_message chain_id block_number view highest_qc_hash =
     VIEWCHG_DOMAIN
     @ be_bytes 8 chain_id
     @ be_bytes 8 block_number
     @ be_bytes 8 view
     @ hash_as_bytes highest_qc_hash"

section \<open>State\<close>

record view_change_state =
  current_view :: u64
  last_block_time_ms :: u64
  pending_view_changes :: "(u64, view_change_message list) hashmap"
  vcs_quorum_weight :: u64
  vcs_validator_weights :: "(address, u64) hashmap"
  pending_view_change_weights :: "(u64, u64) hashmap"
  vcs_chain_id :: u64

text \<open>\<open>now_ms\<close> is what \<open>wall_clock_millis\<close> returns.\<close>

definition view_change_state_new :: "u64 \<Rightarrow> view_change_state" where
  "view_change_state_new now_ms =
     \<lparr>current_view = 0, last_block_time_ms = now_ms, pending_view_changes = hm_new,
      vcs_quorum_weight = 1, vcs_validator_weights = hm_new,
      pending_view_change_weights = hm_new, vcs_chain_id = 0\<rparr>"

definition set_chain_id :: "view_change_state \<Rightarrow> u64 \<Rightarrow> view_change_state" where
  "set_chain_id s chain_id = s\<lparr>vcs_chain_id := chain_id\<rparr>"

definition record_view_change ::
  "view_change_state \<Rightarrow> view_change_message \<Rightarrow> bool \<times> view_change_state" where
  "record_view_change s msg =
     (if vc_view msg \<noteq> current_view s then (False, s)
      else if vcs_chain_id s \<noteq> 0 \<and> vc_chain_id msg \<noteq> vcs_chain_id s then (False, s)
      else case hm_get (vcs_validator_weights s) (vc_validator msg) of
          None \<Rightarrow> (False, s)
        | Some validator_weight \<Rightarrow>
            if validator_weight = 0 then (False, s)
            else
              let messages = hm_get_or (pending_view_changes s) (vc_view msg) [];
                  s = s\<lparr>pending_view_changes :=
                          hm_insert (pending_view_changes s) (vc_view msg) messages\<rparr>
              in if list_ex (\<lambda>existing. vc_validator existing = vc_validator msg) messages
                 then (False, s)
                 else if (case messages of
                            [] \<Rightarrow> False
                          | existing # _ \<Rightarrow> vc_block_number existing \<noteq> vc_block_number msg)
                 then (False, s)
                 else
                   let vote_weight =
                         sat_add (hm_get_or (pending_view_change_weights s) (vc_view msg) 0)
                           validator_weight;
                       s = s\<lparr>pending_view_changes :=
                               hm_insert (pending_view_changes s) (vc_view msg) (messages @ [msg]),
                             pending_view_change_weights :=
                               hm_insert (pending_view_change_weights s) (vc_view msg) vote_weight\<rparr>
                   in (max (vcs_quorum_weight s) 1 \<le> vote_weight, s))"

definition advance_view :: "view_change_state \<Rightarrow> u64 \<times> view_change_state" where
  "advance_view s =
     (let s = s\<lparr>current_view := sat_add (current_view s) 1, pending_view_changes := hm_new,
                pending_view_change_weights := hm_new\<rparr>
      in (current_view s, s))"

text \<open>\<open>select_proposer\<close> panics on an empty authority list.\<close>

definition select_proposer :: "u64 \<Rightarrow> address list \<Rightarrow> address option" where
  "select_proposer view auths =
     (if auths = [] then None
      else Some (auths ! (case round_robin_index view (length auths) of None \<Rightarrow> 0 | Some i \<Rightarrow> i)))"

definition reset_for_block :: "view_change_state \<Rightarrow> u64 \<Rightarrow> view_change_state" where
  "reset_for_block s now_ms =
     s\<lparr>current_view := 0, last_block_time_ms := now_ms, pending_view_changes := hm_new,
       pending_view_change_weights := hm_new\<rparr>"

text \<open>The product wraps in a release build.\<close>

definition configure_quorum ::
  "view_change_state \<Rightarrow> (address, u64) hashmap \<Rightarrow> u64 \<Rightarrow> view_change_state" where
  "configure_quorum s validator_weights total_weight =
     s\<lparr>vcs_validator_weights := validator_weights,
       vcs_quorum_weight := div_ceil (2 * max total_weight 1) 3\<rparr>"

section \<open>Votes of a view\<close>

text \<open>
  The invariant, for the weights that the validator set assigns: only the current view has votes,
  they come from distinct validators with weight and agree on the block height, and their weight
  is the sum of the voters' weights, up to saturation.
\<close>

definition votes_ok :: "(address, u64) hashmap \<Rightarrow> u64 \<Rightarrow> view_change_message list \<Rightarrow> bool" where
  "votes_ok wm view msgs \<longleftrightarrow>
     distinct (map vc_validator msgs)
     \<and> (\<forall>m \<in> set msgs. vc_view m = view \<and> vc_block_number m = vc_block_number (hd msgs)
          \<and> 0 < hm_get_or wm (vc_validator m) 0)"

definition votes_weight :: "(address, u64) hashmap \<Rightarrow> view_change_message list \<Rightarrow> nat" where
  "votes_weight wm msgs = sum_list (map (\<lambda>m. unat (hm_get_or wm (vc_validator m) 0)) msgs)"

definition vc_inv :: "(address, u64) hashmap \<Rightarrow> view_change_state \<Rightarrow> bool" where
  "vc_inv wm s \<longleftrightarrow>
     (\<forall>v msgs. hm_get (pending_view_changes s) v = Some msgs \<longrightarrow> votes_ok wm v msgs)
     \<and> (\<forall>v. unat (hm_get_or (pending_view_change_weights s) v 0) =
            min (votes_weight wm (hm_get_or (pending_view_changes s) v [])) (2 ^ 64 - 1))"

lemma votes_ok_Nil [simp]: "votes_ok wm v []"
  by (simp add: votes_ok_def)

lemma votes_ok_get_or: "vc_inv wm s \<Longrightarrow> votes_ok wm v (hm_get_or (pending_view_changes s) v [])"
  by (simp add: vc_inv_def hm_get_or_def split: option.split)

lemma vc_inv_empty:
  "pending_view_changes s = hm_new \<Longrightarrow> pending_view_change_weights s = hm_new \<Longrightarrow> vc_inv wm s"
  by (simp add: vc_inv_def hm_get_new hm_get_or_new votes_weight_def)

text \<open>What recording does when the weights of the state are \<open>wm\<close>.\<close>

definition counts_vote :: "view_change_state \<Rightarrow> view_change_message \<Rightarrow> bool" where
  "counts_vote s msg \<longleftrightarrow>
     vc_view msg = current_view s
     \<and> (vcs_chain_id s = 0 \<or> vc_chain_id msg = vcs_chain_id s)
     \<and> 0 < hm_get_or (vcs_validator_weights s) (vc_validator msg) 0
     \<and> vc_validator msg \<notin> vc_validator ` set (hm_get_or (pending_view_changes s) (vc_view msg) [])
     \<and> (\<forall>m ms. hm_get_or (pending_view_changes s) (vc_view msg) [] = m # ms
          \<longrightarrow> vc_block_number m = vc_block_number msg)"

definition with_vote :: "view_change_state \<Rightarrow> view_change_message \<Rightarrow> view_change_state" where
  "with_vote s msg =
     s\<lparr>pending_view_changes :=
         hm_insert (pending_view_changes s) (vc_view msg)
           (hm_get_or (pending_view_changes s) (vc_view msg) [] @ [msg]),
       pending_view_change_weights :=
         hm_insert (pending_view_change_weights s) (vc_view msg)
           (sat_add (hm_get_or (pending_view_change_weights s) (vc_view msg) 0)
              (hm_get_or (vcs_validator_weights s) (vc_validator msg) 0))\<rparr>"

lemma hm_insert_insert: "hm_insert (hm_insert m k v) k w = hm_insert m k w"
  unfolding hm_insert_def by transfer (rule update_last)

lemma record_view_change_cases:
  "record_view_change s msg =
     (if counts_vote s msg
      then (max (vcs_quorum_weight s) 1
              \<le> hm_get_or (pending_view_change_weights (with_vote s msg)) (vc_view msg) 0,
            with_vote s msg)
      else (False, s))"
proof -
  let ?v = "vc_view msg"
  let ?msgs = "hm_get_or (pending_view_changes s) ?v []"
  have same: "s\<lparr>pending_view_changes := hm_insert (pending_view_changes s) ?v ?msgs\<rparr> = s"
    if "?msgs \<noteq> []"
    using that by (cases "hm_get (pending_view_changes s) ?v")
      (simp_all add: hm_get_or_def hm_insert_same)
  have dup: "list_ex (\<lambda>m. vc_validator m = vc_validator msg) ?msgs \<longleftrightarrow>
      vc_validator msg \<in> vc_validator ` set ?msgs"
    unfolding list_ex_iff image_iff by metis
  have wt: "hm_get (vcs_validator_weights s) (vc_validator msg) = Some w \<Longrightarrow>
      hm_get_or (vcs_validator_weights s) (vc_validator msg) 0 = w" for w
    by (simp add: hm_get_or_def)
  consider (skip) "vc_view msg \<noteq> current_view s \<or> vcs_chain_id s \<noteq> 0 \<and> vc_chain_id msg \<noteq> vcs_chain_id s"
    | (unknown) "vc_view msg = current_view s" "vcs_chain_id s = 0 \<or> vc_chain_id msg = vcs_chain_id s"
        "hm_get (vcs_validator_weights s) (vc_validator msg) = None"
    | (known) w where "vc_view msg = current_view s" "vcs_chain_id s = 0 \<or> vc_chain_id msg = vcs_chain_id s"
        "hm_get (vcs_validator_weights s) (vc_validator msg) = Some w"
    by blast
  then show ?thesis
  proof cases
    case skip
    then show ?thesis by (auto simp: record_view_change_def counts_vote_def)
  next
    case unknown
    then show ?thesis by (auto simp: record_view_change_def counts_vote_def hm_get_or_def)
  next
    case known
    show ?thesis
    proof (cases "vc_validator msg \<in> vc_validator ` set ?msgs")
      case True
      then have "?msgs \<noteq> []" by auto
      with True known same dup show ?thesis
        by (auto simp: record_view_change_def counts_vote_def Let_def)
    next
      case False
      with known same dup wt [OF known(3)] show ?thesis
        by (cases ?msgs)
          (auto simp: record_view_change_def counts_vote_def with_vote_def Let_def hm_insert_insert
            word_neq_0_conv)
    qed
  qed
qed

lemma with_vote_fields [simp]:
  "current_view (with_vote s msg) = current_view s"
  "vcs_validator_weights (with_vote s msg) = vcs_validator_weights s"
  "vcs_quorum_weight (with_vote s msg) = vcs_quorum_weight s"
  by (simp_all add: with_vote_def)

lemma with_vote_messages:
  "hm_get_or (pending_view_changes (with_vote s msg)) v [] =
     (if v = vc_view msg then hm_get_or (pending_view_changes s) v [] @ [msg]
      else hm_get_or (pending_view_changes s) v [])"
  by (simp add: with_vote_def)

lemma votes_weight_snoc:
  "votes_weight wm (msgs @ [m]) = votes_weight wm msgs + unat (hm_get_or wm (vc_validator m) 0)"
  by (simp add: votes_weight_def)

lemma votes_ok_extend:
  assumes inv: "vc_inv wm s" and wm: "vcs_validator_weights s = wm" and cnt: "counts_vote s msg"
  shows "votes_ok wm (vc_view msg) (hm_get_or (pending_view_changes s) (vc_view msg) [] @ [msg])"
  using votes_ok_get_or [OF inv, of "vc_view msg"] cnt
  by (cases "hm_get_or (pending_view_changes s) (vc_view msg) []")
    (auto simp: votes_ok_def counts_vote_def wm)

lemma with_vote_inv:
  assumes inv: "vc_inv wm s" and wm: "vcs_validator_weights s = wm" and cnt: "counts_vote s msg"
  shows "vc_inv wm (with_vote s msg)"
  unfolding vc_inv_def
proof (intro conjI allI impI)
  fix v msgs
  assume "hm_get (pending_view_changes (with_vote s msg)) v = Some msgs"
  then show "votes_ok wm v msgs"
    using inv votes_ok_extend [OF inv wm cnt]
    by (auto simp: with_vote_def hm_get_insert vc_inv_def split: if_splits)
next
  fix v
  have "unat (hm_get_or (pending_view_change_weights s) v 0) =
      min (votes_weight wm (hm_get_or (pending_view_changes s) v [])) (2 ^ 64 - 1)"
    using inv by (simp add: vc_inv_def)
  then show "unat (hm_get_or (pending_view_change_weights (with_vote s msg)) v 0) =
      min (votes_weight wm (hm_get_or (pending_view_changes (with_vote s msg)) v [])) (2 ^ 64 - 1)"
    by (cases "v = vc_view msg")
      (auto simp: with_vote_def wm votes_weight_snoc unat_sat_add min_def)
qed

section \<open>Handling a message\<close>

text \<open>
  The body of \<open>WPoaEngine::handle_view_change_message\<close> on the state behind its lock, for
  the validator weights of the engine.
\<close>

definition handle_view_change ::
  "(address, u64) hashmap \<Rightarrow> u64 \<Rightarrow> view_change_state \<Rightarrow> view_change_message \<Rightarrow>
     bool \<times> view_change_state" where
  "handle_view_change validator_weights total_weight s msg =
     (if vc_view msg \<noteq> current_view s then (False, s)
      else
        let s = configure_quorum s validator_weights total_weight;
            (reached, s) = record_view_change s msg
        in if reached then (True, snd (advance_view s)) else (False, s))"

lemma configure_quorum_fields [simp]:
  "pending_view_changes (configure_quorum s wm T) = pending_view_changes s"
  "pending_view_change_weights (configure_quorum s wm T) = pending_view_change_weights s"
  "vcs_validator_weights (configure_quorum s wm T) = wm"
  "current_view (configure_quorum s wm T) = current_view s"
  by (simp_all add: configure_quorum_def)

lemma configure_quorum_inv: "vc_inv wm (configure_quorum s wm T) = vc_inv wm s"
  by (simp add: vc_inv_def)

lemma handle_view_change_inv:
  assumes "vc_inv wm s"
  shows "vc_inv wm (snd (handle_view_change wm T s msg))"
proof -
  have "vc_inv wm (with_vote (configure_quorum s wm T) msg)" if "counts_vote (configure_quorum s wm T) msg"
    using that assms by (intro with_vote_inv) (simp_all add: configure_quorum_inv)
  then show ?thesis
    using assms
    by (auto simp: handle_view_change_def Let_def record_view_change_cases configure_quorum_inv
        advance_view_def intro: vc_inv_empty)
qed

datatype vc_op = HandleViewChange view_change_message | NoteBlockProgress u64

fun vc_step :: "(address, u64) hashmap \<Rightarrow> u64 \<Rightarrow> view_change_state \<Rightarrow> vc_op \<Rightarrow> view_change_state" where
  "vc_step wm T s (HandleViewChange msg) = snd (handle_view_change wm T s msg)"
| "vc_step wm T s (NoteBlockProgress now_ms) = reset_for_block s now_ms"

interpretation view_changes: invariant_machine "vc_step wm T" "vc_inv wm" for wm T
proof unfold_locales
  show "vc_inv wm (vc_step wm T s op)" if "vc_inv wm s" for s op
    using that by (cases op) (simp_all add: handle_view_change_inv reset_for_block_def vc_inv_empty)
qed

lemma view_change_state_new_inv: "vc_inv wm (view_change_state_new now)"
  by (rule vc_inv_empty) (simp_all add: view_change_state_new_def)

section \<open>The quorum\<close>

lemma quorum_weight_nat:
  assumes "unat T < 2 ^ 63"
  shows "unat (div_ceil (2 * max T 1) 3 :: u64) = (2 * max (unat T) 1 + 2) div 3"
proof -
  have m: "unat (max T 1) = max (unat T) 1" by (simp add: max_def word_le_nat_alt)
  then have "unat (2 * max T 1) = 2 * max (unat T) 1"
    using assms by (subst unat_mult_fits) (auto simp: max_def)
  then show ?thesis by (simp add: unat_div_ceil)
qed

interpretation view_change_quorum:
  quorum_rule "\<lambda>t. unat (div_ceil (2 * max (of_nat t) 1) 3 :: u64)" "2 ^ 63"
proof unfold_locales
  fix t :: nat
  assume t: "t < 2 ^ 63"
  then have "unat (of_nat t :: u64) = t" by (simp add: unat_of_nat)
  with t have "unat (div_ceil (2 * max (of_nat t) 1) 3 :: u64) = (2 * max t 1 + 2) div 3"
    using quorum_weight_nat [of "of_nat t"] by simp
  moreover have "2 * t \<le> 3 * ((2 * max t 1 + 2) div 3)" by (simp add: max_def) presburger
  ultimately show "2 * t \<le> 3 * unat (div_ceil (2 * max (of_nat t) 1) 3 :: u64)" by simp
qed

lemma handle_view_change_advances:
  assumes inv: "vc_inv wm s" and h: "handle_view_change wm T s msg = (True, t)"
  defines "msgs \<equiv> hm_get_or (pending_view_changes s) (current_view s) [] @ [msg]"
  shows "votes_ok wm (current_view s) msgs"
    and "unat (div_ceil (2 * max T 1) 3 :: u64) \<le> votes_weight wm msgs"
    and "t = snd (advance_view (with_vote (configure_quorum s wm T) msg))"
    and "vc_view msg = current_view s"
proof -
  let ?s = "configure_quorum s wm T"
  have view: "vc_view msg = current_view s" and cnt: "counts_vote ?s msg"
    and q: "max (vcs_quorum_weight ?s) 1
        \<le> hm_get_or (pending_view_change_weights (with_vote ?s msg)) (vc_view msg) 0"
    and t: "t = snd (advance_view (with_vote ?s msg))"
    using h
    by (auto simp: handle_view_change_def Let_def record_view_change_cases split: if_splits)
  have inv': "vc_inv wm (with_vote ?s msg)"
    using inv cnt by (intro with_vote_inv) (simp_all add: configure_quorum_inv)
  then have "unat (hm_get_or (pending_view_change_weights (with_vote ?s msg)) (vc_view msg) 0)
      \<le> votes_weight wm msgs"
    by (simp add: vc_inv_def with_vote_messages msgs_def view)
  moreover have "vcs_quorum_weight ?s
      \<le> hm_get_or (pending_view_change_weights (with_vote ?s msg)) (vc_view msg) 0"
    using q by (rule order_trans [OF max.cobounded1])
  ultimately show "unat (div_ceil (2 * max T 1) 3 :: u64) \<le> votes_weight wm msgs"
    by (simp add: configure_quorum_def word_le_nat_alt)
  show "votes_ok wm (current_view s) msgs"
    using votes_ok_get_or [OF inv', of "vc_view msg"] by (simp add: with_vote_messages msgs_def view)
  show "t = snd (advance_view (with_vote (configure_quorum s wm T) msg))" by (fact t)
  show "vc_view msg = current_view s" by (fact view)
qed

section \<open>Properties\<close>


definition sample_weights :: "(address, u64) hashmap" where
  "sample_weights = hm_from_list [(Address 1, 2), (Address 2, 1), (Address 3, 1)]"

definition sample_message :: "address \<Rightarrow> view_change_message" where
  "sample_message v = view_change_message_new 0 9 0 hash_zero v []"


lemma length_view_change_signing_message [simp]:
  "length (view_change_signing_message c n v h) = 72"
  by (simp add: view_change_signing_message_def)

lemma view_change_signing_message_inject:
  "view_change_signing_message c n v h = view_change_signing_message c' n' v' h' \<longleftrightarrow>
     c = c' \<and> n = n' \<and> v = v' \<and> h = h'"
  unfolding view_change_signing_message_def by auto

end
