(* ===== verification/WPoA.thy ===== *)
theory WPoA
  imports PoA Validator View_Change
begin

text \<open>
  \<open>crates/consensus/src/wpoa.rs\<close>: the weighted proof-of-authority engine. It wraps the
  proof-of-authority engine, a validator set and a view-change state; its proposer rotates with
  the view. A lock on the view-change state becomes direct access, since the engine is modelled
  between two calls. \<open>None\<close> as a result stands for a panic.
\<close>

section \<open>Configuration and engine\<close>

record wpoa_config =
  wc_poa :: poa_config
  wc_weights :: "u64 list"
  wc_validator_set_config :: validator_set_config
  wc_chain_id :: u64

definition wpoa_config_with_weights :: "poa_config \<Rightarrow> u64 list \<Rightarrow> wpoa_config" where
  "wpoa_config_with_weights poa weights =
     \<lparr>wc_poa = poa, wc_weights = weights,
      wc_validator_set_config = validator_set_config_default, wc_chain_id = 0\<rparr>"

record wpoa_engine =
  we_inner :: poa_engine
  we_validator_set :: validator_set
  we_validator_set_config :: validator_set_config
  we_slash_weights :: "(address, u64) hashmap"
  we_view_change_state :: view_change_state
  we_signer :: "signer option"

abbreviation we_cfg :: "wpoa_engine \<Rightarrow> poa_config" where
  "we_cfg e \<equiv> poa_cfg (we_inner e)"

text \<open>\<open>weights.get(i).copied().unwrap_or(1).clamp(1, MAX_VALIDATOR_WEIGHT)\<close> for each authority.\<close>

definition aligned_weights :: "address list \<Rightarrow> u64 list \<Rightarrow> u64 list" where
  "aligned_weights auths weights =
     map (\<lambda>i. clamp (case list_get weights i of Some w \<Rightarrow> w | None \<Rightarrow> 1) 1 MAX_VALIDATOR_WEIGHT)
       [0..<length auths]"

definition wpoa_engine_new :: "wpoa_config \<Rightarrow> u64 \<Rightarrow> wpoa_engine" where
  "wpoa_engine_new config now_ms =
     (let poa = wc_poa config;
          weights = aligned_weights (authorities poa) (wc_weights config);
          poa = poa\<lparr>authority_weights := weights\<rparr>;
          vset = from_genesis (zip (authorities poa) weights) (wc_validator_set_config config);
          vcs = view_change_state_new now_ms;
          vcs = (if wc_chain_id config \<noteq> 0 then set_chain_id vcs (wc_chain_id config) else vcs)
      in \<lparr>we_inner = poa_engine_new poa, we_validator_set = vset,
          we_validator_set_config = wc_validator_set_config config,
          we_slash_weights = hm_new, we_view_change_state = vcs, we_signer = None\<rparr>)"

definition with_signer :: "wpoa_engine \<Rightarrow> signer \<Rightarrow> wpoa_engine" where
  "with_signer e sign = e\<lparr>we_signer := Some sign\<rparr>"

section \<open>Proposers\<close>

abbreviation (input) wpoa_current_view :: "wpoa_engine \<Rightarrow> u64" where
  "wpoa_current_view e \<equiv> current_view (we_view_change_state e)"

definition base_proposer_for_block :: "hash_fn \<Rightarrow> wpoa_engine \<Rightarrow> u64 \<Rightarrow> address option" where
  "base_proposer_for_block keccak256 e block_number =
     (case weighted_proposer (we_validator_set e) block_number of
        Some a \<Rightarrow> Some a
      | None \<Rightarrow> poa_proposer_for_block keccak256 (we_cfg e) block_number)"

definition proposer_for_block_in_view ::
  "hash_fn \<Rightarrow> wpoa_engine \<Rightarrow> u64 \<Rightarrow> u64 \<Rightarrow> address option" where
  "proposer_for_block_in_view keccak256 e block_number view =
     (if view = 0 then base_proposer_for_block keccak256 e block_number
      else
        let auths = authorities (we_cfg e) in
        if auths = [] then base_proposer_for_block keccak256 e block_number
        else case base_proposer_for_block keccak256 e block_number of
            None \<Rightarrow> None
          | Some base \<Rightarrow>
              (let base_index = (case list_position auths base of Some i \<Rightarrow> i | None \<Rightarrow> 0);
                   rotated = drop base_index auths @ take base_index auths
               in select_proposer view rotated))"

definition proposer_for_block :: "hash_fn \<Rightarrow> wpoa_engine \<Rightarrow> u64 \<Rightarrow> address option" where
  "proposer_for_block keccak256 e block_number =
     proposer_for_block_in_view keccak256 e block_number (wpoa_current_view e)"

text \<open>The range \<open>1..=authority_count as u64\<close>; the outer option is the panic.\<close>

definition first_view_for_proposer ::
  "hash_fn \<Rightarrow> wpoa_engine \<Rightarrow> u64 \<Rightarrow> address \<Rightarrow> u64 option option" where
  "first_view_for_proposer keccak256 e block_number proposer =
     (if \<not> vs_is_active (we_validator_set e) proposer then Some None
      else case base_proposer_for_block keccak256 e block_number of
          None \<Rightarrow> None
        | Some base \<Rightarrow>
            (if proposer = base then Some (Some 0)
             else Some (List.find
                    (\<lambda>view. proposer_for_block_in_view keccak256 e block_number view = Some proposer)
                    (map of_nat [1..<length (authorities (we_cfg e)) + 1]))))"

section \<open>Weights and penalties\<close>

definition wpoa_base_weight_for :: "wpoa_engine \<Rightarrow> address \<Rightarrow> u64 option" where
  "wpoa_base_weight_for e authority =
     (case vs_get (we_validator_set e) authority of
        Some validator \<Rightarrow> Some (vi_weight validator)
      | None \<Rightarrow>
          (case list_position (authorities (we_cfg e)) authority of
             None \<Rightarrow> None
           | Some idx \<Rightarrow>
               Some (max (case list_get (authority_weights (we_cfg e)) idx of Some w \<Rightarrow> w | None \<Rightarrow> 1) 1)))"

definition wpoa_effective_weight_for :: "wpoa_engine \<Rightarrow> address \<Rightarrow> u64 option" where
  "wpoa_effective_weight_for e authority =
     (case wpoa_base_weight_for e authority of
        None \<Rightarrow> None
      | Some base_weight \<Rightarrow>
          Some (sat_sub base_weight (hm_get_or (we_slash_weights e) authority 0)))"

definition apply_slash :: "wpoa_engine \<Rightarrow> address \<Rightarrow> wpoa_engine" where
  "apply_slash e offender =
     (let e = e\<lparr>we_inner := (we_inner e)\<lparr>poa_cfg := config_slash_authority (we_cfg e) offender\<rparr>\<rparr>;
          current_weight = (case wpoa_effective_weight_for e offender of Some w \<Rightarrow> w | None \<Rightarrow> 1);
          amount = slash_amount current_weight (slash_weight_bps (we_cfg e));
          base_weight = (case wpoa_base_weight_for e offender of Some w \<Rightarrow> w | None \<Rightarrow> 1);
          cumulative = hm_get_or (we_slash_weights e) offender 0;
          updated = min (sat_add cumulative amount) base_weight
      in e\<lparr>we_slash_weights := hm_insert (we_slash_weights e) offender updated\<rparr>)"

definition wpoa_slash_authority :: "wpoa_engine \<Rightarrow> address \<Rightarrow> wpoa_engine" where
  "wpoa_slash_authority e offender = apply_slash e offender"

definition wpoa_penalty_state :: "wpoa_engine \<Rightarrow> penalty_state" where
  "wpoa_penalty_state e =
     \<lparr>pen_slashed = sorted_list_of_fset (slashed (we_cfg e)),
      pen_reductions = sort_key fst (hm_entries (we_slash_weights e))\<rparr>"

definition wpoa_restore_penalty_state :: "wpoa_engine \<Rightarrow> penalty_state \<Rightarrow> wpoa_engine" where
  "wpoa_restore_penalty_state e st =
     e\<lparr>we_inner := (we_inner e)\<lparr>poa_cfg := (we_cfg e)\<lparr>slashed := fset_of_list (pen_slashed st)\<rparr>\<rparr>,
       we_slash_weights := hm_from_list (pen_reductions st)\<rparr>"

definition wpoa_validator_weights :: "wpoa_engine \<Rightarrow> (address, u64) hashmap" where
  "wpoa_validator_weights e =
     hm_from_list
       (map (\<lambda>v. (vi_address v,
                  case wpoa_effective_weight_for e (vi_address v) of Some w \<Rightarrow> w | None \<Rightarrow> 0))
          (active_validators (we_validator_set e)))"

text \<open>\<open>set_authorities_with_weights\<close> panics on an empty set.\<close>

definition wpoa_set_authorities_with_weights ::
  "wpoa_engine \<Rightarrow> address list \<Rightarrow> u64 list \<Rightarrow> wpoa_engine option" where
  "wpoa_set_authorities_with_weights e auths weights =
     (if auths = [] then None
      else
        let weights = aligned_weights auths weights;
            config = (we_cfg e)\<lparr>authorities := auths, authority_weights := weights\<rparr>
        in Some (e\<lparr>we_inner := (we_inner e)\<lparr>poa_cfg := config\<rparr>,
                   we_validator_set := from_genesis (zip auths weights) (we_validator_set_config e)\<rparr>))"

definition wpoa_set_authorities :: "wpoa_engine \<Rightarrow> address list \<Rightarrow> wpoa_engine option" where
  "wpoa_set_authorities e auths =
     (let current_weights = wpoa_validator_weights e;
          weights = map (\<lambda>a. hm_get_or current_weights a 1) auths
      in wpoa_set_authorities_with_weights e auths weights)"

section \<open>Headers and seals\<close>

definition wpoa_verify_header ::
  "hash_fn \<Rightarrow> wpoa_engine \<Rightarrow> block_header \<Rightarrow> (consensus_error + unit) option" where
  "wpoa_verify_header keccak256 e header =
     (if \<not> vs_is_active (we_validator_set e) (hdr_proposer header)
      then Some (Inl (UnknownProposer (hdr_proposer header)))
      else case proposer_for_block keccak256 e (hdr_number header) of
          None \<Rightarrow> None
        | Some expected \<Rightarrow>
            (if hdr_proposer header \<noteq> expected
             then Some (Inl (InvalidProposer expected (hdr_proposer header)))
             else Some (Inr ())))"

definition import_timeout_secs :: "wpoa_engine \<Rightarrow> u64" where
  "import_timeout_secs e = max (div_ceil VIEW_CHANGE_TIMEOUT_MS 1000) (block_time_secs (we_cfg e))"

definition verify_header_for_finalized_import ::
  "hash_fn \<Rightarrow> wpoa_engine \<Rightarrow> block_header \<Rightarrow> block_header \<Rightarrow> (consensus_error + unit) option" where
  "verify_header_for_finalized_import keccak256 e header parent =
     (case first_view_for_proposer keccak256 e (hdr_number header) (hdr_proposer header) of
        None \<Rightarrow> None
      | Some None \<Rightarrow> Some (Inl (UnknownProposer (hdr_proposer header)))
      | Some (Some view) \<Rightarrow>
          (if view = 0 then Some (Inr ())
           else
             let earliest = sat_add (hdr_timestamp parent) (sat_mul (import_timeout_secs e) view)
             in if hdr_timestamp header < earliest
                then (case base_proposer_for_block keccak256 e (hdr_number header) of
                        None \<Rightarrow> None
                      | Some expected \<Rightarrow> Some (Inl (InvalidProposer expected (hdr_proposer header))))
                else Some (Inr ())))"

definition wpoa_seal_block ::
  "hash_fn \<Rightarrow> hash_fn \<Rightarrow> wpoa_engine \<Rightarrow> ('tx, 'stx) block \<Rightarrow>
     (consensus_error + ('tx, 'stx) block) option" where
  "wpoa_seal_block keccak256 blake3 e b =
     (case we_signer e of
        None \<Rightarrow> Some (Inl NoSigner)
      | Some sign \<Rightarrow>
          (case proposer_for_block keccak256 e (hdr_number (blk_header b)) of
             None \<Rightarrow> None
           | Some expected \<Rightarrow>
               (if hdr_proposer (blk_header b) \<noteq> expected
                then Some (Inl (InvalidProposer expected (hdr_proposer (blk_header b))))
                else case sign (hash_as_bytes (header_hash blake3 (blk_header b))) of
                    Inl err \<Rightarrow> Some (Inl (SigningError err))
                  | Inr seal \<Rightarrow> Some (Inr (b\<lparr>blk_proposer_seal := Some seal\<rparr>)))))"

definition wpoa_sign_block ::
  "hash_fn \<Rightarrow> hash_fn \<Rightarrow> wpoa_engine \<Rightarrow> ('tx, 'stx) block \<Rightarrow> signer \<Rightarrow>
     (consensus_error + ('tx, 'stx) block) option" where
  "wpoa_sign_block keccak256 blake3 e b sign =
     (case proposer_for_block keccak256 e (hdr_number (blk_header b)) of
        None \<Rightarrow> None
      | Some expected \<Rightarrow>
          (if hdr_proposer (blk_header b) \<noteq> expected
           then Some (Inl (InvalidProposer expected (hdr_proposer (blk_header b))))
           else case sign (hash_as_bytes (header_hash blake3 (blk_header b))) of
               Inl err \<Rightarrow> Some (Inl (SealingFailed err))
             | Inr sig \<Rightarrow> Some (Inr (b\<lparr>blk_proposer_seal := Some sig\<rparr>))))"

definition wpoa_verify_seal ::
  "hash_fn \<Rightarrow> block_header \<Rightarrow> pq_signature \<Rightarrow> u8 list \<Rightarrow> verifier \<Rightarrow> consensus_error + unit" where
  "wpoa_verify_seal blake3 header seal proposer_pubkey verify =
     (case verify proposer_pubkey (hash_as_bytes (header_hash blake3 header)) seal of
        Inl _ \<Rightarrow> Inl InvalidSignature
      | Inr valid \<Rightarrow> if \<not> valid then Inl InvalidSignature else Inr ())"

section \<open>Views\<close>

definition handle_view_change_message ::
  "wpoa_engine \<Rightarrow> view_change_message \<Rightarrow> u64 \<Rightarrow> bool \<times> wpoa_engine" where
  "handle_view_change_message e msg total_weight =
     (let (advanced, st) =
        handle_view_change (wpoa_validator_weights e) total_weight (we_view_change_state e) msg
      in (advanced, e\<lparr>we_view_change_state := st\<rparr>))"

definition note_block_progress :: "wpoa_engine \<Rightarrow> u64 \<Rightarrow> wpoa_engine" where
  "note_block_progress e now_ms =
     e\<lparr>we_view_change_state := reset_for_block (we_view_change_state e) now_ms\<rparr>"

section \<open>Reachable engines\<close>

text \<open>
  Every engine the node can hold: it starts from a configuration with distinct authorities and
  changes by the operations above; new authority lists are distinct.
\<close>

inductive wpoa_reachable :: "wpoa_engine \<Rightarrow> bool" where
  reach_new: "distinct (authorities (wc_poa config)) \<Longrightarrow> authorities (wc_poa config) \<noteq> [] \<Longrightarrow>
    wpoa_reachable (wpoa_engine_new config now_ms)"
| reach_signer: "wpoa_reachable e \<Longrightarrow> wpoa_reachable (with_signer e sign)"
| reach_slash: "wpoa_reachable e \<Longrightarrow> wpoa_reachable (wpoa_slash_authority e a)"
| reach_restore: "wpoa_reachable e \<Longrightarrow> wpoa_reachable (wpoa_restore_penalty_state e st)"
| reach_set_weights: "wpoa_reachable e \<Longrightarrow> distinct auths \<Longrightarrow>
    wpoa_set_authorities_with_weights e auths weights = Some e' \<Longrightarrow> wpoa_reachable e'"
| reach_set: "wpoa_reachable e \<Longrightarrow> distinct auths \<Longrightarrow>
    wpoa_set_authorities e auths = Some e' \<Longrightarrow> wpoa_reachable e'"
| reach_view: "wpoa_reachable e \<Longrightarrow>
    wpoa_reachable (snd (handle_view_change_message e msg total_weight))"
| reach_progress: "wpoa_reachable e \<Longrightarrow> wpoa_reachable (note_block_progress e now_ms)"

text \<open>The authority list and the validator set agree.\<close>

definition wpoa_synced :: "wpoa_engine \<Rightarrow> bool" where
  "wpoa_synced e \<longleftrightarrow>
     vs_inv (we_validator_set e) \<and> distinct (authorities (we_cfg e)) \<and> authorities (we_cfg e) \<noteq> []
     \<and> (\<forall>a. vs_is_active (we_validator_set e) a \<longleftrightarrow> a \<in> set (authorities (we_cfg e)))"

lemma genesis_get:
  "hm_get (vs_validators (foldl genesis_entry s es)) a =
     (case map_of (rev es) a of
        None \<Rightarrow> hm_get (vs_validators s) a
      | Some w \<Rightarrow> Some ((validator_info_new a)\<lparr>vi_weight := clamp w 1 MAX_VALIDATOR_WEIGHT,
                          vi_activation_epoch := Some 0\<rparr>))"
proof (induction es arbitrary: s)
  case (Cons e es)
  then show ?case
    by (cases e) (auto simp: genesis_entry_def Let_def map_add_def split: option.splits)
qed simp

lemma from_genesis_get:
  assumes "distinct (map fst es)"
  shows "vs_get (from_genesis es config) a =
     map_option (\<lambda>w. (validator_info_new a)\<lparr>vi_weight := clamp w 1 MAX_VALIDATOR_WEIGHT,
                          vi_activation_epoch := Some 0\<rparr>) (map_of es a)"
  by (simp add: vs_get_def from_genesis_def genesis_get map_of_rev_distinct [OF assms]
      validator_set_new_def split: option.split)

lemma from_genesis_active:
  "distinct (map fst es) \<Longrightarrow> vs_is_active (from_genesis es config) a \<longleftrightarrow> a \<in> fst ` set es"
  using from_genesis_get [of es config a]
  by (auto simp: vs_is_active_def vs_get_def validator_info_new_def weak_map_of_SomeI image_iff
      split: option.splits dest: map_of_SomeD) (metis map_of_eq_None_iff fst_conv image_eqI)+

lemma length_aligned_weights [simp]: "length (aligned_weights auths ws) = length auths"
  by (simp add: aligned_weights_def)

lemma wpoa_synced_fresh:
  assumes "distinct auths" "auths \<noteq> []" "authorities (we_cfg e) = auths"
    "we_validator_set e = from_genesis (zip auths (aligned_weights auths ws)) config"
  shows "wpoa_synced e"
proof -
  have d: "distinct (map fst (zip auths (aligned_weights auths ws)))" using assms(1) by simp
  have "fst ` set (zip auths (aligned_weights auths ws)) = set auths"
    by (metis length_aligned_weights list.set_map map_fst_zip)
  then show ?thesis
    using assms by (simp add: wpoa_synced_def from_genesis_inv [OF d] from_genesis_active [OF d])
qed

lemma wpoa_synced_cong:
  "authorities (we_cfg e') = authorities (we_cfg e) \<Longrightarrow> we_validator_set e' = we_validator_set e \<Longrightarrow>
     wpoa_synced e' = wpoa_synced e"
  by (simp add: wpoa_synced_def)

lemma apply_slash_fields [simp]:
  "we_validator_set (apply_slash e a) = we_validator_set e"
  "authorities (we_cfg (apply_slash e a)) = authorities (we_cfg e)"
  "authority_weights (we_cfg (apply_slash e a)) = authority_weights (we_cfg e)"
  "slash_weight_bps (we_cfg (apply_slash e a)) = slash_weight_bps (we_cfg e)"
  "we_view_change_state (apply_slash e a) = we_view_change_state e"
  by (simp_all add: apply_slash_def Let_def config_slash_authority_def)

lemma reachable_synced: "wpoa_reachable e \<Longrightarrow> wpoa_synced e"
proof (induction rule: wpoa_reachable.induct)
  case (reach_new config now_ms)
  then show ?case
    by (intro wpoa_synced_fresh) (auto simp: wpoa_engine_new_def Let_def poa_engine_new_def)
next
  case (reach_set_weights e auths weights e')
  then show ?case
    by (intro wpoa_synced_fresh [of auths])
      (auto simp: wpoa_set_authorities_with_weights_def Let_def split: if_splits)
next
  case (reach_set e auths e')
  then show ?case
    by (intro wpoa_synced_fresh [of auths])
      (auto simp: wpoa_set_authorities_def wpoa_set_authorities_with_weights_def Let_def
        split: if_splits)
qed (auto simp: wpoa_synced_def with_signer_def wpoa_slash_authority_def note_block_progress_def
    wpoa_restore_penalty_state_def handle_view_change_message_def split: prod.splits)

section \<open>Rotation\<close>

lemma total_active_weight_bound:
  assumes inv: "vs_inv s" and few: "active_count s < 2 ^ 44"
  shows "total_active_weight s < 2 ^ 64"
proof -
  have "unat (vi_weight v) \<le> 1000000" if "v \<in> set (active_validators s)" for v
    using active_validators_get [OF inv that] vs_inv_get [OF inv]
    by (auto simp: info_ok_def word_le_nat_alt)
  then have "total_active_weight s \<le> 1000000 * length (active_validators s)"
    using sum_list_mono [of "active_validators s" "\<lambda>v. unat (vi_weight v)" "\<lambda>_. 1000000"]
    by (simp add: total_active_weight_def sum_list_triv mult.commute)
  then show ?thesis using few by (simp add: active_count_eq)
qed

lemma synced_base_proposer:
  assumes sync: "wpoa_synced e" and few: "length (authorities (we_cfg e)) < 2 ^ 44"
  obtains b where "b < length (authorities (we_cfg e))"
    "base_proposer_for_block k e n = Some (authorities (we_cfg e) ! b)"
proof -
  let ?s = "we_validator_set e"
  have inv: "vs_inv ?s" and act: "{a. vs_is_active ?s a} = set (authorities (we_cfg e))"
    and auths: "distinct (authorities (we_cfg e))" "authorities (we_cfg e) \<noteq> []"
    using sync by (auto simp: wpoa_synced_def)
  have cnt: "active_count ?s = length (authorities (we_cfg e))"
    using active_count_card [OF inv] auths(1) by (simp add: act distinct_card)
  then have ne: "active_validators ?s \<noteq> []" using auths(2) by (auto simp: active_count_eq)
  have fits: "total_active_weight ?s < 2 ^ 64" using total_active_weight_bound [OF inv] cnt few by simp
  obtain a where a: "weighted_proposer ?s n = Some a"
    using weighted_proposer_refines [OF inv ne fits, of n] total_active_weight_pos [OF inv ne]
      weighted_pick_Some [of "unat n mod total_active_weight ?s" "weight_entries ?s"]
    by (auto simp: total_of_weight_entries)
  then have "a \<in> fst ` set (weight_entries ?s)"
    using weighted_proposer_refines [OF inv ne fits, of n] weighted_pick_in by force
  then have "a \<in> set (authorities (we_cfg e))"
    using set_active_addresses [OF inv] act by (auto simp: weight_entries_def)
  then show thesis
    using that a by (auto simp: in_set_conv_nth base_proposer_for_block_def)
qed

lemma nth_rotated:
  assumes "b < length xs" "i < length xs"
  shows "(drop b xs @ take b xs) ! i = xs ! ((b + i) mod length xs)"
proof (cases "i < length xs - b")
  case True
  then show ?thesis using assms by (simp add: nth_append)
next
  case False
  then have "length xs \<le> b + i" "b + i - length xs < length xs" using assms by linarith+
  then have "(b + i) mod length xs = b + i - length xs" by (simp add: le_mod_geq)
  then show ?thesis using False assms by (simp add: nth_append add.commute)
qed

text \<open>The proposer of view \<open>v\<close> is \<open>v\<close> places after the base proposer.\<close>

lemma proposer_in_view_rotates:
  assumes sync: "wpoa_synced e"
    and b: "b < length (authorities (we_cfg e))"
      "base_proposer_for_block k e n = Some (authorities (we_cfg e) ! b)"
  shows "proposer_for_block_in_view k e n v =
    Some (authorities (we_cfg e) ! ((b + unat v) mod length (authorities (we_cfg e))))"
proof (cases "v = 0")
  case True
  then show ?thesis using b by (simp add: proposer_for_block_in_view_def)
next
  case False
  let ?as = "authorities (we_cfg e)"
  have ne: "?as \<noteq> []" and pos: "list_position ?as (?as ! b) = Some b"
    using sync b(1) by (auto simp: wpoa_synced_def list_position_distinct)
  have "(drop b ?as @ take b ?as) ! (unat v mod length ?as) = ?as ! ((b + unat v) mod length ?as)"
    using nth_rotated [of b ?as "unat v mod length ?as"] b(1) ne by (simp add: mod_add_right_eq)
  with False show ?thesis
    using b ne pos
    by (simp add: proposer_for_block_in_view_def Let_def select_proposer_def round_robin_index_def)
qed

lemma add_mod_inject:
  fixes b n u v :: nat
  assumes "u < n" "v < n" "(b + u) mod n = (b + v) mod n"
  shows "u = v"
proof -
  have "w = u" if "u \<le> w" "w < n" "(b + w) mod n = (b + u) mod n" for u w
  proof -
    have "n dvd w - u" using that mod_eq_dvd_iff_nat [of "b + u" "b + w" n] by simp
    then show ?thesis using that by (auto dest!: dvd_imp_le)
  qed
  then show ?thesis using assms by (metis le_cases)
qed

lemma residue_offset:
  fixes b n i :: nat
  assumes "i < n" "b < n"
  shows "(b + (i + n - b) mod n) mod n = i"
    and "u < n \<Longrightarrow> (b + u) mod n = i \<Longrightarrow> u = (i + n - b) mod n"
proof -
  show hit: "(b + (i + n - b) mod n) mod n = i" using assms by (simp add: mod_add_right_eq)
  show "u = (i + n - b) mod n" if "u < n" "(b + u) mod n = i"
    using that hit assms by (intro add_mod_inject [of u n _ b]) simp_all
qed

lemma unat_of_nat_le: "n \<le> unat x \<Longrightarrow> unat (of_nat n :: u64) = n" for x :: u64
  by (simp add: unat_of_nat) (rule mod_less, rule le_less_trans [OF _ unat_u64_less])

lemma find_append: "List.find P (xs @ ys) = (case List.find P xs of None \<Rightarrow> List.find P ys | Some x \<Rightarrow> Some x)"
  by (induction xs) auto

lemma find_first:
  assumes "P v" "\<And>u. u < v \<Longrightarrow> \<not> P u" "m \<le> v" "v < k"
  shows "List.find P [m..<k] = Some (v :: nat)"
proof -
  have "[m..<k] = [m..<v] @ [v..<k]" using assms(3,4) upt_add_eq_append [of m v "k - v"] by simp
  moreover have "List.find P [m..<v] = None" using assms(2) by (auto simp: find_None_iff)
  moreover have "[v..<k] = v # [Suc v..<k]" using assms(4) by (rule upt_conv_Cons)
  ultimately show ?thesis using assms(1) by (simp add: find_append)
qed

lemma find_map: "List.find P (map f xs) = map_option f (List.find (P \<circ> f) xs)"
  by (induction xs) auto

text \<open>The first view in which an authority proposes.\<close>

lemma first_view_offset:
  assumes sync: "wpoa_synced e" and few: "length (authorities (we_cfg e)) < 2 ^ 44"
    and b: "b < length (authorities (we_cfg e))"
      "base_proposer_for_block k e n = Some (authorities (we_cfg e) ! b)"
    and i: "i < length (authorities (we_cfg e))"
  shows "first_view_for_proposer k e n (authorities (we_cfg e) ! i) =
    Some (Some (of_nat ((i + length (authorities (we_cfg e)) - b) mod length (authorities (we_cfg e)))))"
proof -
  let ?as = "authorities (we_cfg e)"
  let ?N = "length ?as" and ?v = "(i + length ?as - b) mod length ?as"
  let ?P = "\<lambda>u. proposer_for_block_in_view k e n (of_nat u) = Some (?as ! i)"
  have d: "distinct ?as" and act: "vs_is_active (we_validator_set e) (?as ! i)"
    using sync i by (auto simp: wpoa_synced_def)
  have P: "?P u \<longleftrightarrow> u = ?v" if "u < ?N" for u
  proof -
    have "u < 2 ^ 64" using that few by simp
    then have "unat (of_nat u :: u64) = u" by (simp add: unat_of_nat)
    moreover have "(b + u) mod ?N < ?N" using i by (intro mod_less_divisor) linarith
    ultimately have "?P u \<longleftrightarrow> (b + u) mod ?N = i"
      using d i by (simp add: proposer_in_view_rotates [OF sync b] nth_eq_iff_index_eq)
    then show ?thesis using residue_offset [OF i b(1)] that by auto
  qed
  have v: "?v < ?N" using i by (intro mod_less_divisor) linarith
  show ?thesis
  proof (cases "?v = 0")
    case True
    then have "?as ! i = ?as ! b" using residue_offset(1) [OF i b(1)] b(1) by simp
    then show ?thesis using act b(2) True by (simp add: first_view_for_proposer_def)
  next
    case False
    then have "i \<noteq> b" using b(1) by auto
    then have ne: "?as ! i \<noteq> ?as ! b" using d i b(1) by (simp add: nth_eq_iff_index_eq)
    have "List.find ?P [1..<?N + 1] = Some ?v"
      using v False P by (intro find_first) auto
    then show ?thesis
      using act b(2) ne by (simp add: first_view_for_proposer_def find_map comp_def)
  qed
qed

section \<open>Penalties\<close>

definition wpoa_same_setup :: "wpoa_engine \<Rightarrow> wpoa_engine \<Rightarrow> bool" where
  "wpoa_same_setup e e' \<longleftrightarrow>
     we_validator_set e = we_validator_set e'
     \<and> authorities (we_cfg e) = authorities (we_cfg e')
     \<and> authority_weights (we_cfg e) = authority_weights (we_cfg e')"

lemma wpoa_base_weight_cong:
  "wpoa_same_setup e e' \<Longrightarrow> wpoa_base_weight_for e = wpoa_base_weight_for e'"
  by (simp add: fun_eq_iff wpoa_base_weight_for_def wpoa_same_setup_def split: option.split)

lemma same_setup_slash: "wpoa_same_setup (apply_slash e a) e' = wpoa_same_setup e e'"
  by (simp add: wpoa_same_setup_def)

lemma base_weight_apply_slash [simp]: "wpoa_base_weight_for (apply_slash e a) = wpoa_base_weight_for e"
  by (rule wpoa_base_weight_cong) (simp add: wpoa_same_setup_def)

lemma apply_slash_reductions:
  assumes "wpoa_base_weight_for e a = Some b" "wpoa_effective_weight_for e a = Some w"
  shows "we_slash_weights (apply_slash e a) =
    hm_insert (we_slash_weights e) a
      (min (sat_add (hm_get_or (we_slash_weights e) a 0) (slash_amount w (slash_weight_bps (we_cfg e)))) b)"
proof -
  let ?e = "e\<lparr>we_inner := (we_inner e)\<lparr>poa_cfg := config_slash_authority (we_cfg e) a\<rparr>\<rparr>"
  have "wpoa_base_weight_for ?e = wpoa_base_weight_for e"
    by (rule wpoa_base_weight_cong) (simp add: wpoa_same_setup_def config_slash_authority_def)
  moreover from this have "wpoa_effective_weight_for ?e = wpoa_effective_weight_for e"
    by (simp add: fun_eq_iff wpoa_effective_weight_for_def split: option.split)
  ultimately show ?thesis
    using assms by (simp add: apply_slash_def Let_def config_slash_authority_def)
qed

lemma wpoa_effective_weight_slash:
  assumes "wpoa_effective_weight_for e a = Some w"
  shows "wpoa_effective_weight_for (apply_slash e a) a =
           Some (sat_sub w (slash_amount w (slash_weight_bps (we_cfg e))))"
proof -
  obtain b where b: "wpoa_base_weight_for e a = Some b"
    and w: "w = sat_sub b (hm_get_or (we_slash_weights e) a 0)"
    using assms by (auto simp: wpoa_effective_weight_for_def split: option.splits)
  have eff: "wpoa_effective_weight_for (apply_slash e a) a =
      Some (sat_sub b (hm_get_or (we_slash_weights (apply_slash e a)) a 0))"
    using b by (simp add: wpoa_effective_weight_for_def)
  show ?thesis
    unfolding eff apply_slash_reductions [OF b assms] w by (simp add: sat_sub_min_sat_add)
qed

lemma wpoa_effective_weight_slash_other:
  "a \<noteq> c \<Longrightarrow> wpoa_effective_weight_for (apply_slash e a) c = wpoa_effective_weight_for e c"
  by (simp add: wpoa_effective_weight_for_def split: option.split)
    (simp add: apply_slash_def Let_def config_slash_authority_def)

interpretation wpoa_penalties:
  penalised_engine wpoa_effective_weight_for wpoa_slash_authority wpoa_penalty_state
    wpoa_restore_penalty_state wpoa_same_setup
proof unfold_locales
  show "\<exists>w'. wpoa_effective_weight_for (wpoa_slash_authority e a) a = Some w' \<and> w' \<le> w"
    if "wpoa_effective_weight_for e a = Some w" for e a w
    using wpoa_effective_weight_slash [OF that] by (simp add: sat_sub_le wpoa_slash_authority_def)
  show "wpoa_effective_weight_for (wpoa_restore_penalty_state e' (wpoa_penalty_state e)) =
      wpoa_effective_weight_for e" if "wpoa_same_setup e e'" for e e'
  proof -
    have "wpoa_base_weight_for (wpoa_restore_penalty_state e' st) = wpoa_base_weight_for e" for st
      by (rule wpoa_base_weight_cong)
        (use that in \<open>simp add: wpoa_same_setup_def wpoa_restore_penalty_state_def\<close>)
    moreover have "hm_get_or (we_slash_weights (wpoa_restore_penalty_state e' (wpoa_penalty_state e))) =
        hm_get_or (we_slash_weights e)"
      by (simp add: fun_eq_iff hm_get_or_def wpoa_restore_penalty_state_def wpoa_penalty_state_def
          hm_from_sorted_entries)
    ultimately show ?thesis by (simp add: fun_eq_iff wpoa_effective_weight_for_def split: option.split)
  qed
qed (simp_all add: wpoa_slash_authority_def wpoa_effective_weight_slash_other same_setup_slash)

lemma validator_weights_get:
  assumes inv: "vs_inv (we_validator_set e)" and act: "vs_is_active (we_validator_set e) a"
    and w: "wpoa_effective_weight_for e a = Some w"
  shows "hm_get (wpoa_validator_weights e) a = Some w"
proof -
  obtain v where v: "v \<in> set (active_validators (we_validator_set e))" "vi_address v = a"
    using act set_active_addresses [OF inv] by force
  let ?f = "\<lambda>v. (vi_address v,
    case wpoa_effective_weight_for e (vi_address v) of Some w \<Rightarrow> w | None \<Rightarrow> 0)"
  have "distinct (map fst (map ?f (active_validators (we_validator_set e))))"
    using distinct_active_addresses [OF inv] by (simp add: comp_def)
  moreover from this have "map_of (map ?f (active_validators (we_validator_set e))) a = Some w"
    using v w by (intro map_of_is_SomeI) (force simp: image_iff)+
  ultimately show ?thesis
    by (simp only: wpoa_validator_weights_def hm_get_from_list_distinct)
qed

section \<open>Properties\<close>

definition sample_wpoa :: wpoa_engine where
  "sample_wpoa = wpoa_engine_new
     (wpoa_config_with_weights (poa_config_new [Address 1, Address 2, Address 3] 2) [2, 1, 10]) 0"

lemma sample_wpoa_reachable: "wpoa_reachable sample_wpoa"
  unfolding sample_wpoa_def
  by (rule reach_new) (simp_all add: wpoa_config_with_weights_def poa_config_new_def)

lemma sample_wpoa_authorities [simp]:
  "authorities (we_cfg sample_wpoa) = [Address 1, Address 2, Address 3]"
  by (simp add: sample_wpoa_def wpoa_engine_new_def Let_def poa_engine_new_def
      wpoa_config_with_weights_def poa_config_new_def)

text \<open>
  C9: no authority is starved. On every reachable engine with fewer than \<open>2 ^ 44\<close> authorities,
  every authority is the proposer of a block in one of the first views, one for each authority,
  and \<open>first_view_for_proposer\<close> returns the first of them.
\<close>

theorem every_authority_gets_a_view:
  assumes "wpoa_reachable e" and few: "length (authorities (we_cfg e)) < 2 ^ 44"
    and a: "a \<in> set (authorities (we_cfg e))"
  shows "\<exists>v. first_view_for_proposer k e n a = Some (Some v) \<and>
           unat v < length (authorities (we_cfg e)) \<and>
           proposer_for_block_in_view k e n v = Some a \<and>
           (\<forall>u. u < v \<longrightarrow> proposer_for_block_in_view k e n u \<noteq> Some a)"
proof -
  let ?as = "authorities (we_cfg e)"
  have sync: "wpoa_synced e" by (rule reachable_synced [OF assms(1)])
  obtain b where b: "b < length ?as" "base_proposer_for_block k e n = Some (?as ! b)"
    using synced_base_proposer [OF sync few] .
  obtain i where i: "i < length ?as" "a = ?as ! i" using a by (auto simp: in_set_conv_nth)
  let ?v = "(i + length ?as - b) mod length ?as"
  have v: "?v < length ?as" using i by (intro mod_less_divisor) linarith
  then have un: "unat (of_nat ?v :: u64) = ?v" using few by (simp add: unat_of_nat)
  have "proposer_for_block_in_view k e n u \<noteq> Some a" if "u < of_nat ?v" for u
  proof
    assume "proposer_for_block_in_view k e n u = Some a"
    moreover have "(b + unat u) mod length ?as < length ?as" using i by (intro mod_less_divisor) linarith
    ultimately have "(b + unat u) mod length ?as = i"
      using sync i by (simp add: proposer_in_view_rotates [OF sync b] wpoa_synced_def nth_eq_iff_index_eq)
    moreover have "unat u < ?v" using that un by (simp add: word_less_nat_alt)
    ultimately show False using residue_offset(2) [OF i(1) b(1), of "unat u"] v by simp
  qed
  then show ?thesis
    using first_view_offset [OF sync few b i(1)] residue_offset(1) [OF i(1) b(1)] v un i(2)
    by (intro exI [of _ "of_nat ?v"]) (simp add: proposer_in_view_rotates [OF sync b])
qed

theorem every_authority_gets_a_view_witness:
  "\<exists>v. first_view_for_proposer (\<lambda>_. hash_zero) sample_wpoa 7 (Address 2) = Some (Some v)
      \<and> unat v < 3"
  using every_authority_gets_a_view [OF sample_wpoa_reachable, of "Address 2" "\<lambda>_. hash_zero" 7]
  by auto

text \<open>
  C10: what is accepted live is accepted when syncing. On every reachable engine, a header that
  passes \<open>verify_header\<close> in the current view, with a timestamp that leaves the view timeout
  for each view passed, also passes \<open>verify_header_for_finalized_import\<close> on a node that
  knows no view.
\<close>

theorem live_header_importable:
  assumes "wpoa_reachable e" and few: "length (authorities (we_cfg e)) < 2 ^ 44"
    and live: "wpoa_verify_header k e header = Some (Inr ())"
    and time: "unat (hdr_timestamp parent) + unat (import_timeout_secs e) * unat (wpoa_current_view e)
        \<le> unat (hdr_timestamp header)"
  shows "verify_header_for_finalized_import k e header parent = Some (Inr ())"
proof -
  let ?as = "authorities (we_cfg e)" and ?n = "hdr_number header" and ?cv = "wpoa_current_view e"
  have sync: "wpoa_synced e" by (rule reachable_synced [OF assms(1)])
  obtain b where b: "b < length ?as" "base_proposer_for_block k e ?n = Some (?as ! b)"
    using synced_base_proposer [OF sync few] .
  have "proposer_for_block k e ?n = Some (hdr_proposer header)"
    using live by (auto simp: wpoa_verify_header_def split: if_splits option.splits)
  then have p: "hdr_proposer header = ?as ! ((b + unat ?cv) mod length ?as)"
    by (simp add: proposer_for_block_def proposer_in_view_rotates [OF sync b])
  let ?i = "(b + unat ?cv) mod length ?as"
  have i: "?i < length ?as" using b(1) by (intro mod_less_divisor) linarith
  let ?v = "(?i + length ?as - b) mod length ?as"
  have "unat ?cv mod length ?as < length ?as" using b(1) by (intro mod_less_divisor) linarith
  then have "unat ?cv mod length ?as = ?v"
    by (intro residue_offset(2) [OF i b(1)]) (simp_all add: mod_add_right_eq)
  then have le: "?v \<le> unat ?cv" by (metis mod_less_eq_dividend)
  have un: "unat (of_nat ?v :: u64) \<le> unat ?cv"
    using le by (simp only: unat_of_nat_le)
  have "unat (import_timeout_secs e) * unat (of_nat ?v :: u64)
      \<le> unat (import_timeout_secs e) * unat ?cv" using un by simp
  then have "sat_add (hdr_timestamp parent) (sat_mul (import_timeout_secs e) (of_nat ?v))
      \<le> hdr_timestamp header"
    unfolding word_le_nat_alt unat_sat_add unat_sat_mul using time by linarith
  then show ?thesis
    using first_view_offset [OF sync few b i] p
    by (auto simp: verify_header_for_finalized_import_def Let_def)
qed

theorem live_header_importable_witness:
  "verify_header_for_finalized_import (\<lambda>_. hash_zero) sample_wpoa
     (header_default\<lparr>hdr_number := 2, hdr_proposer := Address 2, hdr_timestamp := 5\<rparr>)
     (header_default\<lparr>hdr_number := 1, hdr_timestamp := 3\<rparr>) = Some (Inr ())"
proof (rule live_header_importable [OF sample_wpoa_reachable])
  show "wpoa_verify_header (\<lambda>_. hash_zero) sample_wpoa
     (header_default\<lparr>hdr_number := 2, hdr_proposer := Address 2, hdr_timestamp := 5\<rparr>) = Some (Inr ())"
    by code_simp
  have "wpoa_current_view sample_wpoa = 0" by code_simp
  then show "unat (hdr_timestamp (header_default\<lparr>hdr_number := 1, hdr_timestamp := 3\<rparr>))
      + unat (import_timeout_secs sample_wpoa) * unat (wpoa_current_view sample_wpoa)
    \<le> unat (hdr_timestamp (header_default\<lparr>hdr_number := 2, hdr_proposer := Address 2, hdr_timestamp := 5\<rparr>))"
    by simp
qed simp

text \<open>
  C40: \<open>set_authorities\<close> repeats penalties: it takes the effective weights as the new base
  weights and keeps the recorded reductions, so an authority that stays in the set pays each
  past reduction a second time.
\<close>

theorem set_authorities_repeats_penalty:
  assumes "wpoa_reachable e" and "distinct auths" "a \<in> set auths"
    and act: "vs_is_active (we_validator_set e) a" and w: "wpoa_effective_weight_for e a = Some w"
    and set: "wpoa_set_authorities e auths = Some e'"
  shows "wpoa_effective_weight_for e' a =
    Some (sat_sub (clamp w 1 MAX_VALIDATOR_WEIGHT) (hm_get_or (we_slash_weights e) a 0))"
proof -
  have inv: "vs_inv (we_validator_set e)"
    using reachable_synced [OF assms(1)] by (simp add: wpoa_synced_def)
  have "hm_get (wpoa_validator_weights e) a = Some w"
    by (rule validator_weights_get [OF inv act w])
  then have cw: "hm_get_or (wpoa_validator_weights e) a 1 = w" by (simp add: hm_get_or_def)
  obtain i where i: "i < length auths" "auths ! i = a" using assms(3) by (auto simp: in_set_conv_nth)
  let ?ws = "aligned_weights auths (map (\<lambda>a. hm_get_or (wpoa_validator_weights e) a 1) auths)"
  have "?ws ! i = clamp w 1 MAX_VALIDATOR_WEIGHT"
    using i cw by (simp add: aligned_weights_def list_get_def)
  then have "(a, clamp w 1 MAX_VALIDATOR_WEIGHT) \<in> set (zip auths ?ws)"
    using i by (force simp: in_set_zip)
  moreover have d: "distinct (map fst (zip auths ?ws))" using assms(2) by simp
  ultimately have "map_of (zip auths ?ws) a = Some (clamp w 1 MAX_VALIDATOR_WEIGHT)" by simp
  moreover have "clamp (clamp w 1 MAX_VALIDATOR_WEIGHT) 1 MAX_VALIDATOR_WEIGHT = clamp w 1 MAX_VALIDATOR_WEIGHT"
    by (simp add: clamp_def)
  ultimately have "map_option vi_weight (vs_get (we_validator_set e') a) =
      Some (clamp w 1 MAX_VALIDATOR_WEIGHT)"
    using set from_genesis_get [OF d]
    by (auto simp: wpoa_set_authorities_def wpoa_set_authorities_with_weights_def Let_def
        split: if_splits)
  moreover have "we_slash_weights e' = we_slash_weights e"
    using set by (auto simp: wpoa_set_authorities_def wpoa_set_authorities_with_weights_def Let_def
        split: if_splits)
  ultimately show ?thesis
    by (auto simp: wpoa_effective_weight_for_def wpoa_base_weight_for_def)
qed

theorem set_authorities_repeats_penalty_witness:
  "map_option (\<lambda>e'. wpoa_effective_weight_for e' (Address 3))
     (wpoa_set_authorities (wpoa_slash_authority sample_wpoa (Address 3)) [Address 1, Address 3])
   = Some (Some 8)"
proof -
  let ?e = "wpoa_slash_authority sample_wpoa (Address 3)"
  have w: "wpoa_effective_weight_for ?e (Address 3) = Some 9" by code_simp
  have act: "vs_is_active (we_validator_set ?e) (Address 3)" by code_simp
  have red: "hm_get_or (we_slash_weights ?e) (Address 3) 0 = 1" by code_simp
  obtain e' where e': "wpoa_set_authorities ?e [Address 1, Address 3] = Some e'"
    by (simp add: wpoa_set_authorities_def wpoa_set_authorities_with_weights_def Let_def)
  from set_authorities_repeats_penalty [OF reach_slash [OF sample_wpoa_reachable] _ _ act w e'] red
  show ?thesis by (simp add: e' clamp_def sat_sub_def)
qed

end
