(* ===== verification/WPoa_Round.thy ===== *)
theory WPoa_Round
  imports Finality View_Change
begin

text \<open>
  \<open>crates/consensus/src/wpoa_state.rs\<close>: the state machine of one consensus round, from
  proposal over voting to commit, with view changes. An \<open>Instant\<close> is a natural number of
  nanoseconds; \<open>Instant::now()\<close> is an argument.
\<close>

section \<open>State\<close>

type_synonym instant = nat

datatype round_phase =
    Idle
  | Proposing shell_hash instant
  | Voting shell_hash "(address, pq_signature) hashmap" u64 instant
  | Committed shell_hash
  | ViewChanging u64 "address fset" u64 instant

datatype wpoa_event =
    ProposeAccepted shell_hash
  | VoteNeeded shell_hash
  | BlockCommitted shell_hash "(address, pq_signature) hashmap"
  | ProposeTimeout u64
  | VoteTimeout u64
  | ViewChangeReady u64
  | DuplicateVote address
  | WrongBlockHash shell_hash shell_hash

record wpoa_round =
  rd_round :: u64
  rd_block_number :: u64
  rd_phase :: round_phase
  rd_total_weight :: u64
  rd_validator_weights :: "(address, u64) hashmap"
  rd_vote_timeout_ms :: u64
  rd_propose_timeout_ms :: u64

definition wpoa_round_new :: "u64 \<Rightarrow> u64 \<Rightarrow> (address, u64) hashmap \<Rightarrow> wpoa_round" where
  "wpoa_round_new block_number rnd weights =
     \<lparr>rd_round = rnd, rd_block_number = block_number, rd_phase = Idle,
      rd_total_weight = sat_sum (hm_values weights), rd_validator_weights = weights,
      rd_vote_timeout_ms = 25000, rd_propose_timeout_ms = 25000\<rparr>"

definition finality_quorum_weight :: "wpoa_round \<Rightarrow> u64" where
  "finality_quorum_weight r = strict_quorum_weight (rd_total_weight r)"

definition view_change_quorum_weight :: "wpoa_round \<Rightarrow> u64" where
  "view_change_quorum_weight r =
     u64_of_u128_or_max (div_ceil (ucast (rd_total_weight r) * 2) 3)"

section \<open>Events\<close>

text \<open>Every handler returns the events it emits and the new round.\<close>

definition on_block_proposed ::
  "wpoa_round \<Rightarrow> shell_hash \<Rightarrow> instant \<Rightarrow> wpoa_event list \<times> wpoa_round" where
  "on_block_proposed r block_hash now =
     (case rd_phase r of
        Idle \<Rightarrow>
          ([ProposeAccepted block_hash, VoteNeeded block_hash],
           r\<lparr>rd_phase := Voting block_hash hm_new 0 now\<rparr>)
      | _ \<Rightarrow> ([], r))"

definition on_vote ::
  "wpoa_round \<Rightarrow> address \<Rightarrow> shell_hash \<Rightarrow> pq_signature \<Rightarrow> wpoa_event list \<times> wpoa_round" where
  "on_vote r voter block_hash sig =
     (case hm_get (rd_validator_weights r) voter of
        None \<Rightarrow> ([], r)
      | Some weight \<Rightarrow>
          (case rd_phase r of
             Voting expected_hash votes vote_weight started_at \<Rightarrow>
               (if block_hash \<noteq> expected_hash then ([WrongBlockHash expected_hash block_hash], r)
                else if hm_contains votes voter then ([DuplicateVote voter], r)
                else
                  let votes = hm_insert votes voter sig;
                      vote_weight = sat_add vote_weight weight
                  in if rd_total_weight r \<noteq> 0 \<and> finality_quorum_weight r \<le> vote_weight
                     then ([BlockCommitted expected_hash votes], r\<lparr>rd_phase := Committed expected_hash\<rparr>)
                     else ([], r\<lparr>rd_phase := Voting expected_hash votes vote_weight started_at\<rparr>))
           | _ \<Rightarrow> ([], r)))"

definition on_view_change_vote ::
  "wpoa_round \<Rightarrow> address \<Rightarrow> u64 \<Rightarrow> wpoa_event list \<times> wpoa_round" where
  "on_view_change_vote r voter new_view =
     (case hm_get (rd_validator_weights r) voter of
        None \<Rightarrow> ([], r)
      | Some weight \<Rightarrow>
          (case rd_phase r of
             ViewChanging expected_view votes vote_weight started_at \<Rightarrow>
               (if expected_view \<noteq> new_view then ([], r)
                else if voter |\<in>| votes then ([], r)
                else
                  let votes = finsert voter votes;
                      vote_weight = sat_add vote_weight weight
                  in if rd_total_weight r \<noteq> 0 \<and> view_change_quorum_weight r \<le> vote_weight
                     then ([ViewChangeReady new_view], r\<lparr>rd_phase := Idle\<rparr>)
                     else ([], r\<lparr>rd_phase := ViewChanging expected_view votes vote_weight started_at\<rparr>))
           | _ \<Rightarrow> ([], r)))"

text \<open>\<open>now.duration_since(t).as_millis() as u64\<close>: zero when \<open>now\<close> is earlier.\<close>

abbreviation (input) elapsed_ms :: "instant \<Rightarrow> instant \<Rightarrow> u64" where
  "elapsed_ms now since \<equiv> of_nat ((now - since) div 1000000)"

definition tick :: "wpoa_round \<Rightarrow> instant \<Rightarrow> wpoa_event list" where
  "tick r now =
     (case rd_phase r of
        Proposing _ proposed_at \<Rightarrow>
          (if rd_propose_timeout_ms r < elapsed_ms now proposed_at then [ProposeTimeout (rd_round r)]
           else [])
      | Voting _ _ _ started_at \<Rightarrow>
          (if rd_vote_timeout_ms r < elapsed_ms now started_at then [VoteTimeout (rd_round r)] else [])
      | _ \<Rightarrow> [])"

definition start_view_change :: "wpoa_round \<Rightarrow> u64 \<Rightarrow> instant \<Rightarrow> wpoa_round" where
  "start_view_change r new_view now = r\<lparr>rd_phase := ViewChanging new_view {||} 0 now\<rparr>"

section \<open>Runs\<close>

datatype round_op =
    Propose shell_hash instant
  | Vote address shell_hash pq_signature
  | ViewChangeVote address u64
  | StartViewChange u64 instant

fun round_handle :: "wpoa_round \<Rightarrow> round_op \<Rightarrow> wpoa_event list \<times> wpoa_round" where
  "round_handle r (Propose h now) = on_block_proposed r h now"
| "round_handle r (Vote v h sig) = on_vote r v h sig"
| "round_handle r (ViewChangeVote v n) = on_view_change_vote r v n"
| "round_handle r (StartViewChange n now) = ([], start_view_change r n now)"

abbreviation round_step :: "wpoa_round \<Rightarrow> round_op \<Rightarrow> wpoa_round" where
  "round_step r op \<equiv> snd (round_handle r op)"

definition weight_of :: "(address, u64) hashmap \<Rightarrow> address set \<Rightarrow> nat" where
  "weight_of wm A = (\<Sum>a\<in>A. unat (hm_get_or wm a 0))"

text \<open>The weight counted is the weight of the distinct known validators that voted.\<close>

definition counted :: "(address, u64) hashmap \<Rightarrow> address set \<Rightarrow> u64 \<Rightarrow> bool" where
  "counted wm A w \<longleftrightarrow> finite A \<and> A \<subseteq> dom (hm_get wm) \<and> unat w = min (weight_of wm A) (2 ^ 64 - 1)"

definition round_inv :: "(address, u64) hashmap \<Rightarrow> wpoa_round \<Rightarrow> bool" where
  "round_inv wm r \<longleftrightarrow>
     rd_validator_weights r = wm \<and> rd_total_weight r = sat_sum (hm_values wm)
     \<and> (case rd_phase r of
          Voting _ votes w _ \<Rightarrow> counted wm (dom (hm_get votes)) w
        | ViewChanging _ votes w _ \<Rightarrow> counted wm (fset votes) w
        | _ \<Rightarrow> True)"

lemma counted_empty [simp]: "counted wm {} 0"
  by (simp add: counted_def weight_of_def)

lemma counted_insert:
  assumes "counted wm A w" "a \<notin> A" "hm_get wm a = Some x"
  shows "counted wm (insert a A) (sat_add w x)"
  using assms by (auto simp: counted_def weight_of_def hm_get_or_def unat_sat_add)

lemma dom_hm_new [simp]: "dom (hm_get hm_new) = {}"
  by auto

lemma dom_hm_insert [simp]: "dom (hm_get (hm_insert m k v)) = insert k (dom (hm_get m))"
  by (auto simp: domIff)

lemma round_handle_inv: "round_inv wm r \<Longrightarrow> round_inv wm (round_step r op)"
  by (cases op)
    (auto simp: round_inv_def on_block_proposed_def on_vote_def on_view_change_vote_def Let_def
      start_view_change_def hm_contains_def domIff
      intro!: counted_insert split: round_phase.splits option.splits if_splits)

interpretation rounds: invariant_machine round_step "round_inv wm" for wm
  by unfold_locales (rule round_handle_inv)

lemma wpoa_round_new_inv: "round_inv wm (wpoa_round_new n r wm)"
  by (simp add: round_inv_def wpoa_round_new_def)

section \<open>Thresholds\<close>

definition total_weight_of :: "(address, u64) hashmap \<Rightarrow> nat" where
  "total_weight_of wm = weight_of wm (dom (hm_get wm))"

lemma total_weight_values: "total_weight_of wm = sum_list (map unat (hm_values wm))"
  unfolding total_weight_of_def weight_of_def sum_hm_values set_hm_keys
  by (rule sum.cong) (auto simp: hm_get_or_def)

lemma unat_view_change_threshold:
  "unat (u64_of_u128_or_max (div_ceil (ucast t * 2) 3)) = (2 * unat t + 2) div 3" for t :: u64
proof -
  have t: "unat t < 18446744073709551616" by (rule unat_u64_less)
  have "unat (ucast t * 2 :: u128) = 2 * unat t"
    by (subst unat_mult_fits) (simp_all, use t in linarith)
  moreover have "(2 * unat t + 2) div 3 \<le> 18446744073709551615" using t by presburger
  ultimately show ?thesis by (simp add: unat_u64_of_u128_or_max unat_div_ceil)
qed

interpretation round_view_change:
  quorum_rule "\<lambda>t. unat (u64_of_u128_or_max (div_ceil (ucast (of_nat t :: u64) * 2) 3))" "2 ^ 64"
proof unfold_locales
  fix t :: nat
  assume "t < 2 ^ 64"
  then have "unat (of_nat t :: u64) = t" by (simp add: unat_of_nat)
  moreover have "2 * t \<le> 3 * ((2 * t + 2) div 3)" by presburger
  ultimately show "2 * t \<le> 3 * unat (u64_of_u128_or_max (div_ceil (ucast (of_nat t :: u64) * 2) 3))"
    by (simp only: unat_view_change_threshold)
qed

lemma round_total:
  assumes "round_inv wm r" "total_weight_of wm < 2 ^ 64"
  shows "rd_total_weight r = of_nat (total_weight_of wm)"
    and "unat (rd_total_weight r) = total_weight_of wm"
proof -
  have "unat (sat_sum (hm_values wm)) = total_weight_of wm"
    using assms(2) by (simp add: unat_sat_sum total_weight_values)
  then show "unat (rd_total_weight r) = total_weight_of wm"
    using assms(1) by (simp add: round_inv_def)
  then show "rd_total_weight r = of_nat (total_weight_of wm)" by (metis of_nat_unat ucast_id)
qed

lemma counted_below:
  assumes "counted wm A w" "total_weight_of wm < 2 ^ 64"
  shows "unat w = weight_of wm A" "weight_of wm A \<le> total_weight_of wm"
proof -
  show le: "weight_of wm A \<le> total_weight_of wm"
    unfolding total_weight_of_def weight_of_def
    by (rule sum_mono2) (use assms in \<open>auto simp: counted_def\<close>)
  then show "unat w = weight_of wm A" using assms by (simp add: counted_def)
qed

lemma finality_reached_iff:
  assumes "round_inv wm r" "total_weight_of wm < 2 ^ 64" "counted wm A w"
  shows "rd_total_weight r \<noteq> 0 \<and> finality_quorum_weight r \<le> w \<longleftrightarrow>
    0 < total_weight_of wm \<and> 2 * total_weight_of wm < 3 * weight_of wm A"
proof -
  have T: "unat (rd_total_weight r) = total_weight_of wm" by (rule round_total(2) [OF assms(1,2)])
  have nz: "rd_total_weight r \<noteq> 0 \<longleftrightarrow> 0 < total_weight_of wm" unfolding T [symmetric] by (metis neq0_conv unat_0 unat_eq_zero)
  have "finality_quorum_weight r \<le> w \<longleftrightarrow>
      (if rd_total_weight r = 0 then 0 else 2 * total_weight_of wm div 3 + 1) \<le> weight_of wm A"
    unfolding finality_quorum_weight_def word_le_nat_alt unat_strict_quorum_weight T
      counted_below(1) [OF assms(3,2)] by simp
  moreover have "2 * t div 3 + 1 \<le> x \<longleftrightarrow> 2 * t < 3 * x" for t x :: nat by presburger
  ultimately show ?thesis using nz by auto
qed

text \<open>The events that only a quorum can cause.\<close>

lemma committed_event:
  assumes inv: "round_inv wm r" and fits: "total_weight_of wm < 2 ^ 64"
    and ev: "BlockCommitted h sigs \<in> set (fst (on_vote r v h' sig))"
  shows "h' = h" "rd_phase (snd (on_vote r v h' sig)) = Committed h"
    "dom (hm_get sigs) \<subseteq> dom (hm_get wm)" "0 < total_weight_of wm"
    "2 * total_weight_of wm < 3 * weight_of wm (dom (hm_get sigs))"
proof -
  obtain weight votes w t where wt: "hm_get wm v = Some weight"
    and ph: "rd_phase r = Voting h votes w t" and new: "\<not> hm_contains votes v"
    and sigs: "sigs = hm_insert votes v sig"
    and q: "rd_total_weight r \<noteq> 0 \<and> finality_quorum_weight r \<le> sat_add w weight"
    and h: "h' = h" "rd_phase (snd (on_vote r v h' sig)) = Committed h"
    using ev inv
    by (auto simp: on_vote_def round_inv_def Let_def split: option.splits round_phase.splits if_splits)
  show "h' = h" "rd_phase (snd (on_vote r v h' sig)) = Committed h" by (fact h)+
  have "counted wm (dom (hm_get votes)) w" using inv ph by (simp add: round_inv_def)
  then have cnt: "counted wm (dom (hm_get sigs)) (sat_add w weight)"
    using new wt by (auto simp: sigs hm_contains_def intro!: counted_insert)
  show "0 < total_weight_of wm" "2 * total_weight_of wm < 3 * weight_of wm (dom (hm_get sigs))"
    using finality_reached_iff [OF inv fits cnt] q by blast+
  show "dom (hm_get sigs) \<subseteq> dom (hm_get wm)" using cnt by (simp add: counted_def)
qed

lemma view_change_event:
  assumes inv: "round_inv wm r" and fits: "total_weight_of wm < 2 ^ 64"
    and ev: "ViewChangeReady n \<in> set (fst (on_view_change_vote r v n'))"
  shows "\<exists>A w t. rd_phase r = ViewChanging n A w t \<and> fset A \<subseteq> dom (hm_get wm) \<and>
    2 * total_weight_of wm \<le> 3 * weight_of wm (insert v (fset A))"
proof -
  obtain weight votes w t where wt: "hm_get wm v = Some weight" and v: "v |\<notin>| votes"
    and ph: "rd_phase r = ViewChanging n votes w t"
    and q: "view_change_quorum_weight r \<le> sat_add w weight"
    using ev inv
    by (auto simp: on_view_change_vote_def round_inv_def Let_def
        split: option.splits round_phase.splits if_splits)
  have cnt: "counted wm (fset votes) w" using inv ph by (simp add: round_inv_def)
  then have cnt': "counted wm (insert v (fset votes)) (sat_add w weight)"
    using v wt by (auto intro!: counted_insert)
  have "2 * total_weight_of wm \<le> 3 * weight_of wm (insert v (fset votes))"
    using round_view_change.two_thirds [OF fits] q
    unfolding view_change_quorum_weight_def round_total(1) [OF inv fits] word_le_nat_alt
      counted_below(1) [OF cnt' fits] by linarith
  then show ?thesis using ph cnt by (auto simp: counted_def)
qed

section \<open>Voting on one proposal\<close>

definition cast_votes ::
  "shell_hash \<Rightarrow> wpoa_round \<Rightarrow> (address \<times> pq_signature) list \<Rightarrow> wpoa_round" where
  "cast_votes h = foldl (\<lambda>r vs. snd (on_vote r (fst vs) h (snd vs)))"

definition voting_on :: "(address, u64) hashmap \<Rightarrow> shell_hash \<Rightarrow> address set \<Rightarrow> wpoa_round \<Rightarrow> bool" where
  "voting_on wm h A r \<longleftrightarrow>
     round_inv wm r \<and>
     (if 2 * total_weight_of wm < 3 * weight_of wm A then rd_phase r = Committed h
      else \<exists>votes w t. rd_phase r = Voting h votes w t \<and> dom (hm_get votes) = A)"

lemma weight_of_insert_mono: "finite A \<Longrightarrow> weight_of wm A \<le> weight_of wm (insert a A)"
  unfolding weight_of_def by (rule sum_mono2) auto

lemma voting_on_vote:
  assumes on: "voting_on wm h A r" and fits: "total_weight_of wm < 2 ^ 64" "0 < total_weight_of wm"
    and A: "finite A"
  shows "voting_on wm h (if hm_contains wm v then insert v A else A) (snd (on_vote r v h sig))"
proof -
  have inv: "round_inv wm r" and inv': "round_inv wm (snd (on_vote r v h sig))"
    using on round_handle_inv [of wm r "Vote v h sig"] by (simp_all add: voting_on_def)
  have wm: "rd_validator_weights r = wm" using inv by (simp add: round_inv_def)
  consider (unknown) "hm_get wm v = None"
    | (finished) x where "hm_get wm v = Some x" "rd_phase r = Committed h"
        "2 * total_weight_of wm < 3 * weight_of wm A"
    | (voting) x votes w t where "hm_get wm v = Some x" "rd_phase r = Voting h votes w t"
        "dom (hm_get votes) = A" "\<not> 2 * total_weight_of wm < 3 * weight_of wm A"
    using on by (cases "hm_get wm v") (auto simp: voting_on_def split: if_splits)
  then show ?thesis
  proof cases
    case unknown
    then show ?thesis using on by (simp add: on_vote_def wm hm_contains_def)
  next
    case finished
    then show ?thesis
      using inv' weight_of_insert_mono [OF A, of wm v]
      by (simp add: voting_on_def on_vote_def wm hm_contains_def)
  next
    case voting
    show ?thesis
    proof (cases "v \<in> A")
      case True
      then show ?thesis
        using voting on by (auto simp: on_vote_def wm hm_contains_def insert_absorb)
    next
      case False
      have "counted wm A w" using inv voting by (simp add: round_inv_def)
      then have cnt: "counted wm (insert v A) (sat_add w x)" using False voting(1) by (rule counted_insert)
      then show ?thesis
        using False voting inv' finality_reached_iff [OF inv fits(1) cnt] fits(2)
        by (auto simp: voting_on_def on_vote_def wm hm_contains_def Let_def)
    qed
  qed
qed

lemma cast_votes_voting_on:
  assumes "total_weight_of wm < 2 ^ 64" "0 < total_weight_of wm" "voting_on wm h {} r"
  shows "voting_on wm h (fst ` set votes \<inter> dom (hm_get wm)) (cast_votes h r votes)"
proof (induction votes rule: rev_induct)
  case Nil
  then show ?case using assms(3) by (simp add: cast_votes_def)
next
  case (snoc x votes)
  have "(if hm_contains wm (fst x) then insert (fst x) (fst ` set votes \<inter> dom (hm_get wm))
         else fst ` set votes \<inter> dom (hm_get wm)) = fst ` set (votes @ [x]) \<inter> dom (hm_get wm)"
    by (auto simp: hm_contains_def)
  with voting_on_vote [OF snoc assms(1,2), of "fst x" "snd x"] show ?case
    by (simp add: cast_votes_def)
qed

lemma proposed_voting_on:
  "voting_on wm h {} (snd (on_block_proposed (wpoa_round_new n rnd wm) h now))"
  using round_handle_inv [OF wpoa_round_new_inv, of wm n rnd "Propose h now"]
  by (auto simp: voting_on_def on_block_proposed_def wpoa_round_new_def weight_of_def)

section \<open>Properties\<close>

text \<open>
  C4: a round commits exactly when it has a quorum. After a proposal and any sequence of votes for
  it, with votes of unknown validators and repeated votes among them, the round is committed if
  and only if the distinct known voters hold strictly more than two thirds of the total weight.
\<close>

theorem round_commits_exactly_on_quorum:
  assumes "total_weight_of wm < 2 ^ 64" "0 < total_weight_of wm"
  shows "rd_phase (cast_votes h (snd (on_block_proposed (wpoa_round_new n rnd wm) h now)) votes)
           = Committed h \<longleftrightarrow>
         2 * total_weight_of wm < 3 * weight_of wm (fst ` set votes \<inter> dom (hm_get wm))"
  using cast_votes_voting_on [OF assms proposed_voting_on, of h votes n rnd now]
  by (auto simp: voting_on_def split: if_splits)

definition sample_round_weights :: "(address, u64) hashmap" where
  "sample_round_weights = hm_from_list [(Address 1, 2), (Address 2, 1), (Address 3, 1)]"

definition sample_seal :: pq_signature where
  "sample_seal = pq_signature_new MlDsa65 []"

lemma sample_round_total: "total_weight_of sample_round_weights = 4"
  unfolding total_weight_values by code_simp

theorem round_commits_exactly_on_quorum_witness:
  "rd_phase (cast_votes hash_zero
       (snd (on_block_proposed (wpoa_round_new 5 0 sample_round_weights) hash_zero 0))
       [(Address 1, sample_seal), (Address 9, sample_seal), (Address 1, sample_seal),
        (Address 3, sample_seal)])
     = Committed hash_zero \<longleftrightarrow>
   2 * total_weight_of sample_round_weights <
     3 * weight_of sample_round_weights
       (fst ` set [(Address 1, sample_seal), (Address 9, sample_seal), (Address 1, sample_seal),
          (Address 3, sample_seal)] \<inter> dom (hm_get sample_round_weights))"
  by (rule round_commits_exactly_on_quorum) (simp_all add: sample_round_total)

text \<open>
  C3: commits of different blocks need double voters. When two nodes with the same validator
  weights run a round of a height, through any events, and each commits a block, the validators
  whose signatures are in both quorums hold more than a third of the total weight.
\<close>

theorem conflicting_commits_need_double_voters:
  assumes fits: "total_weight_of wm < 2 ^ 64"
    and "BlockCommitted h1 sigs1
      \<in> set (fst (on_vote (foldl round_step (wpoa_round_new n r1 wm) ops1) v1 b1 s1))"
    and "BlockCommitted h2 sigs2
      \<in> set (fst (on_vote (foldl round_step (wpoa_round_new n r2 wm) ops2) v2 b2 s2))"
  shows "total_weight_of wm < 3 * weight_of wm (dom (hm_get sigs1) \<inter> dom (hm_get sigs2))"
proof -
  note reach = rounds.inv_run [OF wpoa_round_new_inv]
  note c1 = committed_event [OF reach fits assms(2)] and c2 = committed_event [OF reach fits assms(3)]
  let ?q = "unat (strict_quorum_weight (of_nat (total_weight_of wm)))"
  have q: "?q = 2 * total_weight_of wm div 3 + 1"
    using strict_quorum_weight_nat [OF fits] c1(4) by simp
  have "2 * t div 3 + 1 \<le> x" if "2 * t < 3 * x" for t x :: nat using that by presburger
  then have "?q \<le> weight_of wm (dom (hm_get sigs1))" "?q \<le> weight_of wm (dom (hm_get sigs2))"
    unfolding q using c1(5) c2(5) by blast+
  then show ?thesis
    using finality_quorum.overlap_exceeds_third [OF finite_hm_dom c1(3) c2(3), of "\<lambda>a. unat (hm_get_or wm a 0)"]
      c1(4) fits
    unfolding total_weight_of_def weight_of_def by blast
qed

theorem conflicting_commits_need_double_voters_witness:
  "let sigs = hm_insert (hm_insert hm_new (Address 1) sample_seal) (Address 2) sample_seal
   in total_weight_of sample_round_weights
        < 3 * weight_of sample_round_weights (dom (hm_get sigs) \<inter> dom (hm_get sigs))"
proof -
  let ?sigs = "hm_insert (hm_insert hm_new (Address 1) sample_seal) (Address 2) sample_seal"
  let ?r = "foldl round_step (wpoa_round_new 5 0 sample_round_weights)
      [Propose hash_zero 0, Vote (Address 1) hash_zero sample_seal]"
  have "fst (on_vote ?r (Address 2) hash_zero sample_seal) = [BlockCommitted hash_zero ?sigs]"
    by code_simp
  then have "BlockCommitted hash_zero ?sigs
      \<in> set (fst (on_vote ?r (Address 2) hash_zero sample_seal))" by simp
  from conflicting_commits_need_double_voters [OF _ this this] show ?thesis
    by (simp add: sample_round_total)
qed

end
