(* ===== verification/Slashing.thy ===== *)
theory Slashing
  imports Consensus_Base
begin

text \<open>
  \<open>crates/consensus/src/slashing.rs\<close>: evidence of double signing and of absence, the
  broadcast proof of equivocation with its checks, and the slashing configuration.
\<close>

section \<open>Records\<close>

datatype slash_type = DoubleSign | Offline

datatype slash_evidence =
    DoubleSignEvidence block_header block_header
  | OfflineEvidence u64 u64

record slash_record =
  sr_validator :: address
  sr_slash_type :: slash_type
  sr_block_number :: u64
  sr_evidence :: slash_evidence

record equivocation_proof =
  ep_offender :: address
  ep_header_a :: block_header
  ep_header_b :: block_header
  ep_hash_a :: shell_hash
  ep_hash_b :: shell_hash
  ep_seal_a :: "pq_signature option"
  ep_seal_b :: "pq_signature option"

definition from_slash_record :: "hash_fn \<Rightarrow> slash_record \<Rightarrow> equivocation_proof option" where
  "from_slash_record blake3 rec =
     (case sr_evidence rec of
        DoubleSignEvidence header_a header_b \<Rightarrow>
          (let hash_a = header_hash blake3 header_a;
               hash_b = header_hash blake3 header_b
           in if hash_a = hash_b then None
              else Some \<lparr>ep_offender = sr_validator rec, ep_header_a = header_a,
                         ep_header_b = header_b, ep_hash_a = hash_a, ep_hash_b = hash_b,
                         ep_seal_a = None, ep_seal_b = None\<rparr>)
      | OfflineEvidence _ _ \<Rightarrow> None)"

definition from_blocks ::
  "hash_fn \<Rightarrow> ('tx, 'stx) block \<Rightarrow> ('tx, 'stx) block \<Rightarrow> equivocation_proof option" where
  "from_blocks blake3 block_a block_b =
     (case blk_proposer_seal block_a of
        None \<Rightarrow> None
      | Some seal_a \<Rightarrow>
          (case blk_proposer_seal block_b of
             None \<Rightarrow> None
           | Some seal_b \<Rightarrow>
               (let header_a = blk_header block_a;
                    header_b = blk_header block_b;
                    hash_a = header_hash blake3 header_a;
                    hash_b = header_hash blake3 header_b
                in if hdr_number header_a \<noteq> hdr_number header_b
                      \<or> hdr_proposer header_a \<noteq> hdr_proposer header_b
                      \<or> hash_a = hash_b
                   then None
                   else Some \<lparr>ep_offender = hdr_proposer header_a, ep_header_a = header_a,
                              ep_header_b = header_b, ep_hash_a = hash_a, ep_hash_b = hash_b,
                              ep_seal_a = Some seal_a, ep_seal_b = Some seal_b\<rparr>)))"

definition ep_verify :: "hash_fn \<Rightarrow> equivocation_proof \<Rightarrow> bool" where
  "ep_verify blake3 p =
     (if hdr_number (ep_header_a p) \<noteq> hdr_number (ep_header_b p) then False
      else if hdr_proposer (ep_header_a p) \<noteq> ep_offender p
              \<or> hdr_proposer (ep_header_b p) \<noteq> ep_offender p then False
      else
        let computed_a = header_hash blake3 (ep_header_a p);
            computed_b = header_hash blake3 (ep_header_b p)
        in computed_a = ep_hash_a p \<and> computed_b = ep_hash_b p \<and> ep_hash_a p \<noteq> ep_hash_b p)"

definition verify_signed :: "hash_fn \<Rightarrow> equivocation_proof \<Rightarrow> u8 list \<Rightarrow> verifier \<Rightarrow> bool" where
  "verify_signed blake3 p pubkey verify =
     (if \<not> ep_verify blake3 p then False
      else case (ep_seal_a p, ep_seal_b p) of
          (Some seal_a, Some seal_b) \<Rightarrow>
            (if sig_is_empty seal_a \<or> sig_is_empty seal_b then False
             else case verify pubkey (hash_as_bytes (ep_hash_a p)) seal_a of
                 Inl _ \<Rightarrow> False
               | Inr valid_a \<Rightarrow>
                   (if \<not> valid_a then False
                    else case verify pubkey (hash_as_bytes (ep_hash_b p)) seal_b of
                        Inl _ \<Rightarrow> False
                      | Inr valid_b \<Rightarrow> valid_b))
        | _ \<Rightarrow> False)"

section \<open>Configuration\<close>

record slashing_config =
  double_sign_slash_bps :: u32
  offline_slash_bps :: u32
  offline_window_blocks :: u64

section \<open>Detection\<close>

definition detect_double_sign :: "hash_fn \<Rightarrow> block_header \<Rightarrow> block_header \<Rightarrow> slash_record option" where
  "detect_double_sign blake3 h1 h2 =
     (if hdr_number h1 \<noteq> hdr_number h2 then None
      else if hdr_proposer h1 \<noteq> hdr_proposer h2 then None
      else if header_hash blake3 h1 = header_hash blake3 h2 then None
      else Some \<lparr>sr_validator = hdr_proposer h1, sr_slash_type = DoubleSign,
                 sr_block_number = hdr_number h1, sr_evidence = DoubleSignEvidence h1 h2\<rparr>)"

definition detect_offline ::
  "address \<Rightarrow> u64 \<Rightarrow> u64 \<Rightarrow> slashing_config \<Rightarrow> slash_record option" where
  "detect_offline validator last_proposed_block current_block config =
     (if current_block \<le> last_proposed_block then None
      else
        let gap = sat_sub current_block last_proposed_block
        in if gap \<le> offline_window_blocks config then None
           else Some \<lparr>sr_validator = validator, sr_slash_type = Offline,
                      sr_block_number = current_block,
                      sr_evidence = OfflineEvidence last_proposed_block current_block\<rparr>)"

section \<open>Detection and proofs agree\<close>

lemma detect_double_sign_Some_iff:
  "(\<exists>r. detect_double_sign blake3 h1 h2 = Some r) \<longleftrightarrow>
     hdr_number h1 = hdr_number h2 \<and> hdr_proposer h1 = hdr_proposer h2
     \<and> header_hash blake3 h1 \<noteq> header_hash blake3 h2"
  by (auto simp: detect_double_sign_def)

lemma detected_proof_verifies:
  assumes "detect_double_sign blake3 h1 h2 = Some r"
  shows "case from_slash_record blake3 r of
           None \<Rightarrow> False
         | Some p \<Rightarrow> ep_verify blake3 p \<and> ep_offender p = hdr_proposer h1"
  using assms
  by (auto simp: detect_double_sign_def from_slash_record_def ep_verify_def Let_def split: if_splits)

lemma unsigned_proof_rejected:
  "from_slash_record blake3 r = Some p \<Longrightarrow> \<not> verify_signed blake3 p pubkey verify"
  by (auto simp: from_slash_record_def verify_signed_def Let_def split: slash_evidence.splits if_splits)

lemma detect_offline_iff:
  "(\<exists>r. detect_offline v lb cb c = Some r) \<longleftrightarrow>
     unat (offline_window_blocks c) + unat lb < unat cb"
  by (auto simp: detect_offline_def Let_def word_le_nat_alt unat_sat_sub)

lemma verify_signed_iff:
  "verify_signed blake3 p pubkey verify \<longleftrightarrow>
     ep_verify blake3 p \<and>
     (\<exists>sa sb. ep_seal_a p = Some sa \<and> ep_seal_b p = Some sb \<and> \<not> sig_is_empty sa \<and> \<not> sig_is_empty sb
        \<and> verify pubkey (hash_as_bytes (ep_hash_a p)) sa = Inr True
        \<and> verify pubkey (hash_as_bytes (ep_hash_b p)) sb = Inr True)"
  by (auto simp: verify_signed_def split: option.splits sum.splits)

lemma ex_Some_iff: "(\<exists>p. f = Some p \<and> P p) \<longleftrightarrow> (case f of None \<Rightarrow> False | Some p \<Rightarrow> P p)"
  by (simp split: option.split)

section \<open>Properties\<close>

text \<open>
  Equivocation evidence is exact: two blocks yield a proof that peers accept if and only if
  they have the same height and proposer, different hashes, and seals that are not empty and
  verify under the proposer's key over the respective hash.
\<close>

theorem equivocation_proof_exact:
  "(\<exists>p. from_blocks blake3 a b = Some p \<and> verify_signed blake3 p pubkey verify) \<longleftrightarrow>
     hdr_number (blk_header a) = hdr_number (blk_header b)
     \<and> hdr_proposer (blk_header a) = hdr_proposer (blk_header b)
     \<and> blk_hash blake3 a \<noteq> blk_hash blake3 b
     \<and> (\<exists>sa sb. blk_proposer_seal a = Some sa \<and> blk_proposer_seal b = Some sb
          \<and> \<not> sig_is_empty sa \<and> \<not> sig_is_empty sb
          \<and> verify pubkey (hash_as_bytes (blk_hash blake3 a)) sa = Inr True
          \<and> verify pubkey (hash_as_bytes (blk_hash blake3 b)) sb = Inr True)"
  unfolding ex_Some_iff
  by (auto simp: from_blocks_def verify_signed_iff ep_verify_def blk_hash_def Let_def
      split: option.splits if_splits)

text \<open>
  C32: an honest validator cannot be framed. If the verifier only accepts messages the key has
  signed, and the key has signed at most one header hash for each height with this proposer, then
  no proof of equivocation against the validator is accepted.
\<close>

theorem honest_validator_not_framed:
  assumes unforgeable: "\<And>msg seal. verify pubkey msg seal = Inr True \<Longrightarrow> msg \<in> signed_msgs"
    and honest: "\<And>h h'. hash_as_bytes (header_hash blake3 h) \<in> signed_msgs \<Longrightarrow>
        hash_as_bytes (header_hash blake3 h') \<in> signed_msgs \<Longrightarrow> hdr_proposer h = v \<Longrightarrow> hdr_proposer h' = v \<Longrightarrow>
        hdr_number h = hdr_number h' \<Longrightarrow> header_hash blake3 h = header_hash blake3 h'"
  shows "\<not> (verify_signed blake3 p pubkey verify \<and> ep_offender p = v)"
proof
  assume p: "verify_signed blake3 p pubkey verify \<and> ep_offender p = v"
  then have "hash_as_bytes (ep_hash_a p) \<in> signed_msgs" "hash_as_bytes (ep_hash_b p) \<in> signed_msgs"
    using unforgeable unfolding verify_signed_iff by blast+
  moreover have ok: "ep_verify blake3 p" using p by (simp add: verify_signed_iff)
  ultimately have "header_hash blake3 (ep_header_a p) = header_hash blake3 (ep_header_b p)"
    using p by (intro honest) (auto simp: ep_verify_def Let_def split: if_splits)
  then show False using ok by (auto simp: ep_verify_def Let_def split: if_splits)
qed

definition byte_sum_hash :: hash_fn where
  "byte_sum_hash bs = ShellHash (of_nat (sum_list (map unat bs)))"

definition sample_header :: "u64 \<Rightarrow> block_header" where
  "sample_header ts = header_default\<lparr>hdr_number := 4, hdr_proposer := Address 8, hdr_timestamp := ts\<rparr>"

theorem honest_validator_not_framed_witness:
  "\<not> verify_signed byte_sum_hash
      \<lparr>ep_offender = Address 8, ep_header_a = sample_header 1, ep_header_b = sample_header 2,
       ep_hash_a = header_hash byte_sum_hash (sample_header 1),
       ep_hash_b = header_hash byte_sum_hash (sample_header 2),
       ep_seal_a = Some (pq_signature_new MlDsa65 [1]), ep_seal_b = Some (pq_signature_new MlDsa65 [1])\<rparr>
      [] (\<lambda>_ msg _. Inr (msg = hash_as_bytes (header_hash byte_sum_hash (sample_header 1))))"
  using honest_validator_not_framed
    [of "\<lambda>_ msg _. Inr (msg = hash_as_bytes (header_hash byte_sum_hash (sample_header 1)))" "[]"
      "{hash_as_bytes (header_hash byte_sum_hash (sample_header 1))}" byte_sum_hash "Address 8"]
  by force

end
