(* ===== verification/Proof_Window.thy ===== *)
theory Proof_Window
  imports Primitives
begin

text \<open>
  \<open>crates/consensus/src/window.rs\<close>: who may submit the proof of a block. Windows are claimed,
  fulfilled and expire; expired claims are counted against the prover.
\<close>

section \<open>State\<close>

record window_config =
  window_size_blocks :: u64
  claim_timeout_blocks :: u64
  max_expired_claims :: u32

definition window_config_default :: window_config where
  "window_config_default =
     \<lparr>window_size_blocks = 100, claim_timeout_blocks = 20, max_expired_claims = 3\<rparr>"

datatype window_state =
    Unclaimed
  | Claimed address u64 u64
  | Fulfilled address
  | Expired

datatype window_error =
    AlreadyClaimed u64 address
  | AlreadyFulfilled u64
  | WindowExpired u64
  | NotClaimer u64 address address
  | NotClaimed u64

record proof_window_manager =
  pw_config :: window_config
  pw_windows :: "(u64, window_state) hashmap"
  pw_expired_claims :: "(address, u32) hashmap"

definition proof_window_manager_new :: "window_config \<Rightarrow> proof_window_manager" where
  "proof_window_manager_new config =
     \<lparr>pw_config = config, pw_windows = hm_new, pw_expired_claims = hm_new\<rparr>"

definition increment_expired_claim ::
  "(address, u32) hashmap \<Rightarrow> address \<Rightarrow> (address, u32) hashmap" where
  "increment_expired_claim expired_claims prover =
     hm_insert expired_claims prover (sat_add (hm_get_or expired_claims prover 0) 1)"

section \<open>Operations\<close>

abbreviation (input) new_claim :: "proof_window_manager \<Rightarrow> u64 \<Rightarrow> address \<Rightarrow> u64 \<Rightarrow> proof_window_manager" where
  "new_claim m block_number claimer current_block \<equiv>
     m\<lparr>pw_windows := hm_insert (pw_windows m) block_number
         (Claimed claimer current_block
            (sat_add current_block (claim_timeout_blocks (pw_config m))))\<rparr>"

definition claim ::
  "proof_window_manager \<Rightarrow> u64 \<Rightarrow> address \<Rightarrow> u64 \<Rightarrow> (window_error + unit) \<times> proof_window_manager" where
  "claim m block_number claimer current_block =
     (if sat_add block_number (window_size_blocks (pw_config m)) < current_block
      then (Inl (WindowExpired block_number),
            m\<lparr>pw_windows := hm_insert (pw_windows m) block_number Expired\<rparr>)
      else case hm_get_or (pw_windows m) block_number Unclaimed of
          Unclaimed \<Rightarrow> (Inr (), new_claim m block_number claimer current_block)
        | Claimed existing _ expires_at_block \<Rightarrow>
            (if expires_at_block \<le> current_block
             then (Inr (),
                   new_claim
                     (m\<lparr>pw_expired_claims := increment_expired_claim (pw_expired_claims m) existing\<rparr>)
                     block_number claimer current_block)
             else (Inl (AlreadyClaimed block_number existing), m))
        | Fulfilled _ \<Rightarrow> (Inl (AlreadyFulfilled block_number), m)
        | Expired \<Rightarrow> (Inl (WindowExpired block_number), m))"

definition fulfill ::
  "proof_window_manager \<Rightarrow> u64 \<Rightarrow> address \<Rightarrow> u64 \<Rightarrow> (window_error + unit) \<times> proof_window_manager" where
  "fulfill m block_number prover current_block =
     (case hm_get_or (pw_windows m) block_number Unclaimed of
        Claimed claimer _ expires_at_block \<Rightarrow>
          (if claimer \<noteq> prover then (Inl (NotClaimer block_number claimer prover), m)
           else if expires_at_block < current_block
           then (Inl (WindowExpired block_number),
                 m\<lparr>pw_expired_claims := increment_expired_claim (pw_expired_claims m) prover,
                   pw_windows := hm_insert (pw_windows m) block_number Expired\<rparr>)
           else (Inr (), m\<lparr>pw_windows := hm_insert (pw_windows m) block_number (Fulfilled prover)\<rparr>))
      | Fulfilled _ \<Rightarrow> (Inl (AlreadyFulfilled block_number), m)
      | Unclaimed \<Rightarrow> (Inl (NotClaimed block_number), m)
      | Expired \<Rightarrow> (Inl (WindowExpired block_number), m))"

definition window_state_of :: "proof_window_manager \<Rightarrow> u64 \<Rightarrow> window_state" where
  "window_state_of m block_number = hm_get_or (pw_windows m) block_number Unclaimed"

fun claim_lapsed :: "u64 \<Rightarrow> window_state \<Rightarrow> bool" where
  "claim_lapsed current_block (Claimed _ _ expires_at_block) = (expires_at_block < current_block)"
| "claim_lapsed current_block _ = False"

fun count_lapsed :: "u64 \<Rightarrow> (address, u32) hashmap \<Rightarrow> window_state \<Rightarrow> (address, u32) hashmap" where
  "count_lapsed current_block expired (Claimed claimer since expires_at_block) =
     (if claim_lapsed current_block (Claimed claimer since expires_at_block)
      then increment_expired_claim expired claimer else expired)"
| "count_lapsed current_block expired _ = expired"

definition advance_windows :: "proof_window_manager \<Rightarrow> u64 \<Rightarrow> proof_window_manager" where
  "advance_windows m current_block =
     m\<lparr>pw_windows := hm_map (\<lambda>_ st. if claim_lapsed current_block st then Expired else st) (pw_windows m),
       pw_expired_claims := foldl (count_lapsed current_block) (pw_expired_claims m)
                              (hm_values (pw_windows m))\<rparr>"

definition window_gc :: "proof_window_manager \<Rightarrow> u64 \<Rightarrow> proof_window_manager" where
  "window_gc m current_block =
     (let cutoff = sat_sub current_block (sat_add (window_size_blocks (pw_config m)) 10)
      in m\<lparr>pw_windows := hm_retain (\<lambda>bn _. cutoff < bn) (pw_windows m)\<rparr>)"

section \<open>Runs\<close>

datatype window_op =
    ClaimOp u64 address u64
  | FulfillOp u64 address u64
  | AdvanceOp u64
  | GcOp u64

fun window_step :: "proof_window_manager \<Rightarrow> window_op \<Rightarrow> proof_window_manager" where
  "window_step m (ClaimOp b a k) = snd (claim m b a k)"
| "window_step m (FulfillOp b a k) = snd (fulfill m b a k)"
| "window_step m (AdvanceOp k) = advance_windows m k"
| "window_step m (GcOp k) = window_gc m k"

fun op_block :: "window_op \<Rightarrow> u64" where
  "op_block (ClaimOp b a k) = k"
| "op_block (FulfillOp b a k) = k"
| "op_block (AdvanceOp k) = k"
| "op_block (GcOp k) = k"

text \<open>The window of \<open>b\<close> is held by \<open>p\<close> until block \<open>e\<close>.\<close>

definition held_by :: "u64 \<Rightarrow> address \<Rightarrow> u64 \<Rightarrow> proof_window_manager \<Rightarrow> bool" where
  "held_by b p e m \<longleftrightarrow>
     (\<exists>c. window_state_of m b = Claimed p c e) \<or> window_state_of m b = Fulfilled p"

lemma window_config_step [simp]: "pw_config (window_step m op) = pw_config m"
  by (cases op)
    (auto simp: claim_def fulfill_def advance_windows_def window_gc_def Let_def
      split: window_state.splits)

lemma cutoff_below:
  fixes k b w :: u64
  assumes "k \<le> sat_add b w" "0 < b"
  shows "sat_sub k (sat_add w 10) < b"
  using assms unfolding word_le_nat_alt word_less_nat_alt unat_sat_sub unat_sat_add
  by simp (use unat_u64_less [of k] in linarith)

lemma held_step:
  assumes held: "held_by b p e m" and b: "0 < b"
    and live: "op_block op < e" "op_block op \<le> sat_add b (window_size_blocks (pw_config m))"
  shows "held_by b p e (window_step m op)"
proof (cases op)
  case (ClaimOp b' a k)
  with live have "\<not> sat_add b (window_size_blocks (pw_config m)) < k" "\<not> e \<le> k" by auto
  with held ClaimOp show ?thesis
    by (auto simp: held_by_def window_state_of_def claim_def split: window_state.splits)
next
  case (FulfillOp b' a k)
  with live have "\<not> e < k" by auto
  with held FulfillOp show ?thesis
    by (auto simp: held_by_def window_state_of_def fulfill_def split: window_state.splits)
next
  case (AdvanceOp k)
  with live have "\<not> e < k" by auto
  with held AdvanceOp show ?thesis
    by (auto simp: held_by_def window_state_of_def advance_windows_def hm_get_or_def
        split: option.splits)
next
  case (GcOp k)
  with live cutoff_below [of k b "window_size_blocks (pw_config m)"] b
  have "sat_sub k (sat_add (window_size_blocks (pw_config m)) 10) < b" by simp
  with held GcOp show ?thesis
    by (auto simp: held_by_def window_state_of_def window_gc_def hm_get_or_def Let_def
        split: option.splits)
qed

lemma held_run:
  assumes "held_by b p e m" "0 < b"
    and "\<forall>op \<in> set ops. op_block op < e \<and> op_block op \<le> sat_add b (window_size_blocks (pw_config m))"
  shows "held_by b p e (foldl window_step m ops)"
  using assms
proof (induction ops arbitrary: m)
  case (Cons op ops)
  then have "held_by b p e (window_step m op)" by (intro held_step) simp_all
  with Cons show ?case by simp
qed simp

section \<open>Properties\<close>



text \<open>A claim after the end of the window erases the record of a fulfilled proof.\<close>

lemma late_claim_erases_fulfilment:
  assumes "window_state_of m b = Fulfilled p"
    and "sat_add b (window_size_blocks (pw_config m)) < k"
  shows "window_state_of (snd (claim m b q k)) b = Expired"
  using assms by (simp add: claim_def window_state_of_def)

end
