(* ===== verification/Prover_Registry.thy ===== *)
theory Prover_Registry
  imports Primitives
begin

text \<open>
  \<open>crates/consensus/src/prover_registry.rs\<close>: registration of provers with a declared stake,
  reputation that grows with proofs, falls with penalties and decays with inactivity, and
  removal of provers whose reputation is used up.
\<close>

section \<open>State\<close>

record prover_registry_config =
  min_stake :: u64
  initial_reputation :: i64
  min_reputation :: i64
  reputation_per_proof :: i64
  penalty_expired_claim :: i64
  penalty_invalid_proof :: i64
  decay_per_100_blocks :: i64

definition prover_registry_config_default :: prover_registry_config where
  "prover_registry_config_default =
     \<lparr>min_stake = 1000, initial_reputation = 100, min_reputation = 0, reputation_per_proof = 10,
      penalty_expired_claim = -20, penalty_invalid_proof = -50, decay_per_100_blocks = -1\<rparr>"

record prover_record =
  pr_stake :: u64
  pr_reputation :: i64
  pr_registered_at_block :: u64
  pr_last_active_block :: u64
  pr_proofs_submitted :: u64

datatype registry_error = InsufficientStake u64 u64 | AlreadyRegistered | NotRegistered

record prover_registry =
  pg_config :: prover_registry_config
  pg_provers :: "(address, prover_record) hashmap"
  pg_decay_accounted_through :: "(address, u64) hashmap"

definition prover_registry_new :: "prover_registry_config \<Rightarrow> prover_registry" where
  "prover_registry_new config =
     \<lparr>pg_config = config, pg_provers = hm_new, pg_decay_accounted_through = hm_new\<rparr>"

section \<open>Operations\<close>

definition register :: "prover_registry \<Rightarrow> address \<Rightarrow> u64 \<Rightarrow> u64 \<Rightarrow> registry_error + prover_registry" where
  "register g a stake current_block =
     (if stake < min_stake (pg_config g) then Inl (InsufficientStake stake (min_stake (pg_config g)))
      else if hm_contains (pg_provers g) a then Inl AlreadyRegistered
      else Inr (g\<lparr>pg_provers := hm_insert (pg_provers g) a
                    \<lparr>pr_stake = stake, pr_reputation = initial_reputation (pg_config g),
                     pr_registered_at_block = current_block, pr_last_active_block = current_block,
                     pr_proofs_submitted = 0\<rparr>,
                  pg_decay_accounted_through :=
                    hm_insert (pg_decay_accounted_through g) a current_block\<rparr>))"

definition deregister :: "prover_registry \<Rightarrow> address \<Rightarrow> registry_error + prover_registry" where
  "deregister g a =
     (if \<not> hm_contains (pg_provers g) a then Inl NotRegistered
      else Inr (g\<lparr>pg_provers := hm_remove (pg_provers g) a,
                  pg_decay_accounted_through := hm_remove (pg_decay_accounted_through g) a\<rparr>))"

definition record_proof :: "prover_registry \<Rightarrow> address \<Rightarrow> u64 \<Rightarrow> registry_error + prover_registry" where
  "record_proof g a current_block =
     (case hm_get (pg_provers g) a of
        None \<Rightarrow> Inl NotRegistered
      | Some rec \<Rightarrow>
          (let reputation_cap = i64_sat_mul (initial_reputation (pg_config g)) 2;
               rec = rec\<lparr>pr_proofs_submitted := sat_add (pr_proofs_submitted rec) 1,
                         pr_last_active_block := max (pr_last_active_block rec) current_block,
                         pr_reputation :=
                           min (i64_sat_add (pr_reputation rec) (reputation_per_proof (pg_config g)))
                             reputation_cap\<rparr>;
               decay_baseline = hm_get_or (pg_decay_accounted_through g) a current_block
           in Inr (g\<lparr>pg_provers := hm_insert (pg_provers g) a rec,
                     pg_decay_accounted_through :=
                       hm_insert (pg_decay_accounted_through g) a (max decay_baseline current_block)\<rparr>)))"

definition penalize :: "prover_registry \<Rightarrow> address \<Rightarrow> i64 \<Rightarrow> registry_error + prover_registry" where
  "penalize g a penalty =
     (case hm_get (pg_provers g) a of
        None \<Rightarrow> Inl NotRegistered
      | Some rec \<Rightarrow>
          Inr (g\<lparr>pg_provers := hm_insert (pg_provers g) a
                   (rec\<lparr>pr_reputation := i64_sat_add (pr_reputation rec) penalty\<rparr>)\<rparr>))"

text \<open>One iteration of the loop of \<open>advance\<close>: the decayed record and its new baseline.\<close>

definition decay_entry ::
  "i64 \<Rightarrow> u64 \<Rightarrow> prover_record \<Rightarrow> u64 \<Rightarrow> prover_record \<times> u64" where
  "decay_entry decay current_block rec decay_baseline =
     (let baseline = max decay_baseline (pr_last_active_block rec);
          inactive_blocks = sat_sub current_block baseline;
          periods = inactive_blocks div 100
      in if 0 < periods
         then (rec\<lparr>pr_reputation :=
                     i64_sat_add (pr_reputation rec)
                       (i64_sat_mul decay (min (int (unat periods)) i64_max))\<rparr>,
               sat_add baseline (sat_mul periods 100))
         else (rec, decay_baseline))"

definition decayed :: "prover_registry \<Rightarrow> u64 \<Rightarrow> address \<Rightarrow> prover_record \<Rightarrow> prover_record \<times> u64" where
  "decayed g current_block a rec =
     decay_entry (decay_per_100_blocks (pg_config g)) current_block rec
       (hm_get_or (pg_decay_accounted_through g) a (pr_last_active_block rec))"

text \<open>The baselines written by the loop, in iteration order, and the removals after it.\<close>

definition advance_registry :: "prover_registry \<Rightarrow> u64 \<Rightarrow> prover_registry" where
  "advance_registry g current_block =
     (let provers = hm_map (\<lambda>a rec. fst (decayed g current_block a rec)) (pg_provers g);
          baselines = foldl (\<lambda>m (a, rec). hm_insert m a (snd (decayed g current_block a rec)))
                        (pg_decay_accounted_through g) (hm_entries (pg_provers g));
          keep = (\<lambda>a. case hm_get provers a of
                        None \<Rightarrow> True
                      | Some rec \<Rightarrow> min_reputation (pg_config g) < pr_reputation rec)
      in g\<lparr>pg_provers := hm_retain (\<lambda>a _. keep a) provers,
           pg_decay_accounted_through := hm_retain (\<lambda>a _. keep a) baselines\<rparr>)"

section \<open>Invariant\<close>

text \<open>Reputations are \<open>i64\<close> values and every prover has a decay baseline.\<close>

definition config_ok :: "prover_registry_config \<Rightarrow> bool" where
  "config_ok c \<longleftrightarrow> i64_min \<le> initial_reputation c \<and> initial_reputation c \<le> i64_max"

definition reputation_ok :: "prover_record \<Rightarrow> bool" where
  "reputation_ok rec \<longleftrightarrow> i64_min \<le> pr_reputation rec \<and> pr_reputation rec \<le> i64_max"

definition registry_inv :: "prover_registry \<Rightarrow> bool" where
  "registry_inv g \<longleftrightarrow>
     config_ok (pg_config g)
     \<and> (\<forall>a. hm_contains (pg_decay_accounted_through g) a = hm_contains (pg_provers g) a)
     \<and> (\<forall>a rec. hm_get (pg_provers g) a = Some rec \<longrightarrow> reputation_ok rec)"

datatype registry_op =
    Register address u64 u64
  | Deregister address
  | RecordProof address u64
  | Penalize address i64
  | AdvanceRegistry u64

definition registry_or_same :: "prover_registry \<Rightarrow> registry_error + prover_registry \<Rightarrow> prover_registry" where
  "registry_or_same g r = (case r of Inl _ \<Rightarrow> g | Inr g' \<Rightarrow> g')"

fun registry_step :: "prover_registry \<Rightarrow> registry_op \<Rightarrow> prover_registry" where
  "registry_step g (Register a stake k) = registry_or_same g (register g a stake k)"
| "registry_step g (Deregister a) = registry_or_same g (deregister g a)"
| "registry_step g (RecordProof a k) = registry_or_same g (record_proof g a k)"
| "registry_step g (Penalize a p) = registry_or_same g (penalize g a p)"
| "registry_step g (AdvanceRegistry k) = advance_registry g k"

lemma hm_get_foldl_baselines:
  "hm_get (foldl (\<lambda>m (a, rec). hm_insert m a (f a rec)) m0 (hm_entries m)) a =
     (case hm_get m a of None \<Rightarrow> hm_get m0 a | Some rec \<Rightarrow> Some (f a rec))"
proof -
  have "foldl (\<lambda>m (a, rec). hm_insert m a (f a rec)) m0 xs =
      foldl (\<lambda>m (k, v). hm_insert m k v) m0 (map (\<lambda>(a, rec). (a, f a rec)) xs)" for xs
    by (induction xs arbitrary: m0) auto
  then have "hm_get (foldl (\<lambda>m (a, rec). hm_insert m a (f a rec)) m0 (hm_entries m)) a =
      (case map_of (rev (hm_entries (hm_map f m))) a of None \<Rightarrow> hm_get m0 a | Some v \<Rightarrow> Some v)"
    by (simp add: hm_get_foldl_insert hm_entries_map)
  then show ?thesis
    by (simp add: map_of_rev_distinct hm_get_entries [symmetric] split: option.split)
qed

lemma advance_registry_get:
  "hm_get (pg_provers (advance_registry g k)) a =
     (case hm_get (pg_provers g) a of
        None \<Rightarrow> None
      | Some rec \<Rightarrow>
          let rec' = fst (decayed g k a rec)
          in if min_reputation (pg_config g) < pr_reputation rec' then Some rec' else None)"
  "hm_get (pg_decay_accounted_through (advance_registry g k)) a =
     (case hm_get (pg_provers g) a of
        None \<Rightarrow> hm_get (pg_decay_accounted_through g) a
      | Some rec \<Rightarrow>
          if min_reputation (pg_config g) < pr_reputation (fst (decayed g k a rec))
          then Some (snd (decayed g k a rec)) else None)"
  "pg_config (advance_registry g k) = pg_config g"
  by (simp_all add: advance_registry_def Let_def hm_get_foldl_baselines split: option.split)

lemma decay_reputation_ok: "reputation_ok rec \<Longrightarrow> reputation_ok (fst (decay_entry d k rec b))"
  by (simp add: reputation_ok_def decay_entry_def Let_def i64_sat_add_def i64_sat_bounds)

lemma advance_registry_inv:
  assumes inv: "registry_inv g"
  shows "registry_inv (advance_registry g k)"
  unfolding registry_inv_def advance_registry_get(3)
proof (intro conjI allI impI)
  show "config_ok (pg_config g)" using inv by (simp add: registry_inv_def)
next
  fix a
  show "hm_contains (pg_decay_accounted_through (advance_registry g k)) a =
      hm_contains (pg_provers (advance_registry g k)) a"
    using inv unfolding hm_contains_def advance_registry_get
    by (auto simp: registry_inv_def hm_contains_def Let_def split: option.split)
next
  fix a rec
  assume "hm_get (pg_provers (advance_registry g k)) a = Some rec"
  then show "reputation_ok rec"
    using inv unfolding advance_registry_get
    by (auto simp: registry_inv_def decayed_def Let_def intro!: decay_reputation_ok
        split: option.splits if_splits)
qed

lemma reputation_ok_updates:
  "reputation_ok (rec\<lparr>pr_reputation := i64_sat_add x y\<rparr>)"
  "reputation_ok (rec\<lparr>pr_proofs_submitted := n, pr_last_active_block := b,
     pr_reputation := min (i64_sat_add x y) (i64_sat_mul u v)\<rparr>)"
  by (auto simp: reputation_ok_def i64_sat_add_def i64_sat_mul_def i64_sat_bounds min_def)

lemma registry_step_inv:
  assumes "registry_inv g"
  shows "registry_inv (registry_step g op)"
proof (cases op)
  case (Register a stake k)
  then show ?thesis using assms
    by (auto simp: registry_inv_def registry_or_same_def register_def reputation_ok_def config_ok_def)
next
  case (Deregister a)
  then show ?thesis using assms
    by (auto simp: registry_inv_def registry_or_same_def deregister_def)
next
  case (RecordProof a k)
  then show ?thesis using assms
    by (auto simp: registry_inv_def registry_or_same_def record_proof_def Let_def reputation_ok_updates
        split: option.split)
next
  case (Penalize a p)
  then show ?thesis using assms
    by (auto simp: registry_inv_def registry_or_same_def penalize_def reputation_ok_updates hm_contains_def
        split: option.split)
next
  case (AdvanceRegistry k)
  then show ?thesis using assms by (simp add: advance_registry_inv)
qed

lemma registry_config_step: "pg_config (registry_step g op) = pg_config g"
  by (cases op)
    (auto simp: registry_or_same_def register_def deregister_def record_proof_def penalize_def Let_def
      advance_registry_get split: sum.splits option.splits if_splits)

interpretation prover_registries: invariant_machine registry_step registry_inv
  by unfold_locales (rule registry_step_inv)

lemma prover_registry_new_inv: "config_ok c \<Longrightarrow> registry_inv (prover_registry_new c)"
  by (simp add: registry_inv_def prover_registry_new_def)

section \<open>Decay\<close>

text \<open>The rates for which the decay of all periods of a 64-bit chain is an \<open>i64\<close>.\<close>

definition decay_rate_ok :: "i64 \<Rightarrow> bool" where
  "decay_rate_ok d \<longleftrightarrow> - 50 \<le> d \<and> d \<le> 0"

definition decay_periods :: "u64 \<Rightarrow> u64 \<Rightarrow> nat" where
  "decay_periods k base = (unat k - unat base) div 100"

lemma decay_periods_bound: "decay_periods k base \<le> 184467440737095516"
proof -
  have "unat k - unat base \<le> 18446744073709551615" using unat_u64_less [of k] by linarith
  then have "(unat k - unat base) div 100 \<le> 18446744073709551615 div 100" by (rule div_le_mono)
  then show ?thesis by (simp add: decay_periods_def)
qed

lemma decay_amount:
  assumes "decay_rate_ok d" "p \<le> 184467440737095516"
  shows "i64_sat_mul d (min (int p) i64_max) = d * int p"
proof -
  have p: "int p \<le> 184467440737095516" using assms(2) by linarith
  have "d * int p \<le> 0" using assms(1) by (simp add: decay_rate_ok_def mult_le_0_iff)
  moreover have "- 50 * int p \<le> d * int p"
    using assms(1) by (intro mult_right_mono) (simp_all add: decay_rate_ok_def)
  ultimately show ?thesis
    using p by (simp add: i64_sat_mul_def i64_sat_def i64_min_def i64_max_def min_def max_def)
qed

lemma decay_entry_eq:
  fixes rec :: prover_record and b :: u64
  assumes "decay_rate_ok d"
  defines "base \<equiv> max b (pr_last_active_block rec)"
  shows "decay_entry d k rec b =
    (if decay_periods k base = 0 then (rec, b)
     else (rec\<lparr>pr_reputation := i64_sat_add (pr_reputation rec) (d * int (decay_periods k base))\<rparr>,
           of_nat (unat base + 100 * decay_periods k base)))"
proof -
  let ?p = "sat_sub k base div 100 :: u64"
  have p: "unat ?p = decay_periods k base" by (simp add: unat_div unat_sat_sub decay_periods_def)
  then have pos: "0 < ?p \<longleftrightarrow> decay_periods k base \<noteq> 0" by (simp add: word_less_nat_alt)
  have "100 * decay_periods k base \<le> unat k - unat base" by (simp add: decay_periods_def)
  moreover have "unat base \<le> unat k" if "decay_periods k base \<noteq> 0"
    using that by (cases "unat base \<le> unat k") (simp_all add: decay_periods_def)
  ultimately have le: "unat base + 100 * decay_periods k base \<le> unat k"
    if "decay_periods k base \<noteq> 0" using that by linarith
  have "sat_add base (sat_mul ?p 100) = of_nat (unat base + 100 * decay_periods k base)"
    if "decay_periods k base \<noteq> 0"
  proof -
    have "unat (sat_add base (sat_mul ?p 100)) = unat base + 100 * decay_periods k base"
      using le [OF that] by (simp add: unat_sat_add unat_sat_mul p) (use unat_u64_less [of k] in linarith)
    then show ?thesis by (metis of_nat_unat ucast_id)
  qed
  then show ?thesis
    using pos decay_amount [OF assms(1) decay_periods_bound, of k base] p
    unfolding decay_entry_def base_def [symmetric] Let_def by auto
qed

lemma sat_decay_twice:
  assumes "x \<le> i64_max" "u \<le> 0" "v \<le> 0"
  shows "i64_sat_add (i64_sat_add x u) v = i64_sat_add x (u + v)"
  using assms by (auto simp: i64_sat_add_def i64_sat_def i64_min_def i64_max_def min_def max_def)

lemma div_diff_mult: "(x - 100 * p) div 100 = x div 100 - p" for x p :: nat
proof (cases "100 * p \<le> x")
  case True
  then obtain y where "x = y + 100 * p" by (metis le_add_diff_inverse2)
  then show ?thesis by simp
next
  case False
  then have "x div 100 < p" by (simp add: less_mult_imp_div_less mult.commute)
  with False show ?thesis by simp
qed

lemma decay_periods_split:
  assumes "unat k1 \<le> unat k2" "decay_periods k1 base \<noteq> 0"
  shows "decay_periods k2 (of_nat (unat base + 100 * decay_periods k1 base)) =
    decay_periods k2 base - decay_periods k1 base"
    and "decay_periods k1 base \<le> decay_periods k2 base"
    and "unat (of_nat (unat base + 100 * decay_periods k1 base) :: u64) = unat base + 100 * decay_periods k1 base"
proof -
  let ?p = "decay_periods k1 base"
  have B: "unat base \<le> unat k1" using assms(2) by (cases "unat base \<le> unat k1") (simp_all add: decay_periods_def)
  moreover have "100 * ?p \<le> unat k1 - unat base" by (simp add: decay_periods_def)
  ultimately have "unat base + 100 * ?p < 18446744073709551616"
    using unat_u64_less [of k1] by linarith
  then show un: "unat (of_nat (unat base + 100 * ?p) :: u64) = unat base + 100 * ?p"
    by (simp add: unat_of_nat del: of_nat_add)
  show "decay_periods k2 (of_nat (unat base + 100 * ?p)) = decay_periods k2 base - ?p"
    unfolding decay_periods_def [of k2] un diff_diff_eq [symmetric] by (rule div_diff_mult)
  show "?p \<le> decay_periods k2 base"
    unfolding decay_periods_def by (rule div_le_mono) (use assms(1) in simp)
qed

lemma decay_twice:
  assumes d: "decay_rate_ok d" and rep: "pr_reputation rec \<le> i64_max" and k: "unat k1 \<le> unat k2"
  shows "decay_entry d k2 (fst (decay_entry d k1 rec b)) (snd (decay_entry d k1 rec b)) =
    decay_entry d k2 rec b"
proof (cases "decay_periods k1 (max b (pr_last_active_block rec)) = 0")
  case True
  then show ?thesis by (simp add: decay_entry_eq [OF d])
next
  case False
  let ?base = "max b (pr_last_active_block rec)"
  let ?p1 = "decay_periods k1 ?base" and ?p2 = "decay_periods k2 ?base"
  let ?b1 = "of_nat (unat ?base + 100 * ?p1) :: u64"
  note split = decay_periods_split [OF k False]
  have "pr_last_active_block rec \<le> ?b1"
    using split(3) by (simp add: word_le_nat_alt max_def split: if_splits)
  then have mx: "max ?b1 (pr_last_active_block rec) = ?b1" by simp
  have nz: "?p2 \<noteq> 0" using split(2) False by simp
  have neg: "d * int n \<le> 0" for n using d by (simp add: decay_rate_ok_def mult_le_0_iff)
  have rep2: "i64_sat_add (i64_sat_add (pr_reputation rec) (d * int ?p1)) (d * int (?p2 - ?p1)) =
      i64_sat_add (pr_reputation rec) (d * int ?p2)"
    using sat_decay_twice [OF rep neg neg, of ?p1 "?p2 - ?p1"] split(2)
    by (simp add: of_nat_diff algebra_simps)
  show ?thesis
  proof (cases "?p2 = ?p1")
    case True
    then show ?thesis using False mx split(1) by (simp add: decay_entry_eq [OF d])
  next
    case ne: False
    then have "decay_periods k2 ?b1 \<noteq> 0" using split(1,2) by simp
    moreover have "unat ?b1 + 100 * decay_periods k2 ?b1 = unat ?base + 100 * ?p2"
      using split(2) unfolding split(1,3) by linarith
    ultimately show ?thesis
      using False nz mx rep2 split(1)
      by (simp add: decay_entry_eq [OF d] del: of_nat_add)
  qed
qed

lemma sat_add_lowers: "i64_min \<le> x \<Longrightarrow> u \<le> 0 \<Longrightarrow> i64_sat_add x u \<le> x"
  by (simp add: i64_sat_add_def i64_sat_def min_def max_def)

lemma decay_lowers:
  assumes d: "decay_rate_ok d" and "reputation_ok rec"
  shows "pr_reputation (fst (decay_entry d k rec b)) \<le> pr_reputation rec"
proof -
  have "d * int n \<le> 0" for n using d by (simp add: decay_rate_ok_def mult_le_0_iff)
  then show ?thesis
    using assms by (simp add: decay_entry_eq [OF d] reputation_ok_def sat_add_lowers)
qed

section \<open>Properties\<close>



end
