(* ===== verification/Rate_Limiter.thy ===== *)
theory Rate_Limiter
  imports Primitives
begin

text \<open>
  \<open>crates/consensus/src/rate_limiter.rs\<close>: token buckets, one for each address, that limit
  proof submissions. An \<open>Instant\<close> and a \<open>Duration\<close> are natural numbers of nanoseconds,
  and the \<open>_at\<close> methods, to which the public ones pass the clock, are the operations.
\<close>

section \<open>State\<close>

record rate_limiter_config =
  initial_tokens :: u64
  refill_rate :: u64
  refill_interval :: nat
  gc_after :: nat

definition rate_limiter_config_default :: rate_limiter_config where
  "rate_limiter_config_default =
     \<lparr>initial_tokens = 10, refill_rate = 5, refill_interval = 60 * 1000000000,
      gc_after = 600 * 1000000000\<rparr>"

record bucket =
  bk_tokens :: u64
  bk_last_refill :: nat
  bk_last_used :: nat

definition bucket_new :: "u64 \<Rightarrow> nat \<Rightarrow> bucket" where
  "bucket_new tokens now = \<lparr>bk_tokens = tokens, bk_last_refill = now, bk_last_used = now\<rparr>"

record proof_rate_limiter =
  rl_config :: rate_limiter_config
  rl_buckets :: "(address, bucket) hashmap"

definition rate_limiter_new :: "rate_limiter_config \<Rightarrow> proof_rate_limiter" where
  "rate_limiter_new config = \<lparr>rl_config = config, rl_buckets = hm_new\<rparr>"

section \<open>Operations\<close>

definition interval_nanos :: "rate_limiter_config \<Rightarrow> nat" where
  "interval_nanos config = max (refill_interval config) 1"

text \<open>The product saturates at 128 bits and is then cut to 64.\<close>

definition refill_amount :: "nat \<Rightarrow> u64 \<Rightarrow> u64" where
  "refill_amount periods rate =
     of_nat (min (min (periods * unat rate) (2 ^ 128 - 1)) (2 ^ 64 - 1))"

definition refill :: "bucket \<Rightarrow> rate_limiter_config \<Rightarrow> nat \<Rightarrow> bucket" where
  "refill b config now =
     (let elapsed = now - bk_last_refill b;
          interval = interval_nanos config
      in if interval \<le> elapsed
         then
           let periods = elapsed div interval;
               add = refill_amount periods (refill_rate config);
               rest = elapsed mod interval
           in b\<lparr>bk_tokens := min (sat_add (bk_tokens b) add) (initial_tokens config),
                bk_last_refill := (if rest \<le> now then now - rest else now)\<rparr>
         else b)"

definition bucket_or_new :: "proof_rate_limiter \<Rightarrow> address \<Rightarrow> nat \<Rightarrow> bucket" where
  "bucket_or_new l a now =
     (case hm_get (rl_buckets l) a of
        Some b \<Rightarrow> b
      | None \<Rightarrow> bucket_new (initial_tokens (rl_config l)) now)"

definition try_consume_at :: "proof_rate_limiter \<Rightarrow> address \<Rightarrow> nat \<Rightarrow> bool \<times> proof_rate_limiter" where
  "try_consume_at l a now =
     (let b = (refill (bucket_or_new l a now) (rl_config l) now)\<lparr>bk_last_used := now\<rparr>
      in if 0 < bk_tokens b
         then (True, l\<lparr>rl_buckets := hm_insert (rl_buckets l) a (b\<lparr>bk_tokens := bk_tokens b - 1\<rparr>)\<rparr>)
         else (False, l\<lparr>rl_buckets := hm_insert (rl_buckets l) a b\<rparr>))"

definition tokens_remaining_at :: "proof_rate_limiter \<Rightarrow> address \<Rightarrow> nat \<Rightarrow> u64 \<times> proof_rate_limiter" where
  "tokens_remaining_at l a now =
     (let b = refill (bucket_or_new l a now) (rl_config l) now
      in (bk_tokens b, l\<lparr>rl_buckets := hm_insert (rl_buckets l) a b\<rparr>))"

definition limiter_gc_at :: "proof_rate_limiter \<Rightarrow> nat \<Rightarrow> proof_rate_limiter" where
  "limiter_gc_at l now =
     l\<lparr>rl_buckets := hm_retain (\<lambda>_ b. now - bk_last_used b < gc_after (rl_config l)) (rl_buckets l)\<rparr>"

section \<open>Refills\<close>

lemma refill_fields:
  assumes "lr = bk_last_refill b" "p = (now - lr) div interval_nanos config"
  shows "unat (bk_tokens (refill b config now)) \<le> unat (bk_tokens b) + unat (refill_rate config) * p"
    and "bk_last_refill (refill b config now) = lr + interval_nanos config * p"
    and "lr \<le> now \<Longrightarrow> bk_last_refill (refill b config now) \<le> now"
proof -
  have I: "0 < interval_nanos config" by (simp add: interval_nanos_def)
  have none: "p = 0" if "\<not> interval_nanos config \<le> now - lr" using that assms(2) by simp
  have "unat (refill_amount p (refill_rate config)) \<le> unat (refill_rate config) * p"
    by (simp add: refill_amount_def unat_of_nat mult.commute)
  then show "unat (bk_tokens (refill b config now)) \<le> unat (bk_tokens b) + unat (refill_rate config) * p"
    unfolding refill_def Let_def assms [symmetric]
    by (simp add: min_def word_le_nat_alt unat_sat_add)
  have split: "now - lr = interval_nanos config * p + (now - lr) mod interval_nanos config"
    unfolding assms(2) by simp
  show eq: "bk_last_refill (refill b config now) = lr + interval_nanos config * p"
  proof (cases "interval_nanos config \<le> now - lr")
    case True
    then have "lr \<le> now" using I by linarith
    then have "now - (now - lr) mod interval_nanos config = lr + interval_nanos config * p"
      and "(now - lr) mod interval_nanos config \<le> now"
      using split by linarith+
    then show ?thesis using True by (simp add: refill_def Let_def assms(1) [symmetric])
  next
    case False
    then show ?thesis using none by (simp add: refill_def Let_def assms(1))
  qed
  show "bk_last_refill (refill b config now) \<le> now" if "lr \<le> now"
    using that split unfolding eq by linarith
qed

section \<open>Runs\<close>

datatype limiter_op = Consume address nat | Collect nat

fun limiter_time :: "limiter_op \<Rightarrow> nat" where
  "limiter_time (Consume a t) = t"
| "limiter_time (Collect t) = t"

text \<open>How many submissions of an address a sequence of operations lets through.\<close>

fun is_collect :: "limiter_op \<Rightarrow> bool" where
  "is_collect (Collect t) = True"
| "is_collect (Consume a t) = False"

fun accepted :: "address \<Rightarrow> proof_rate_limiter \<Rightarrow> limiter_op list \<Rightarrow> nat" where
  "accepted a l [] = 0"
| "accepted a l (Consume c t # ops) =
     (if c = a \<and> fst (try_consume_at l c t) then 1 else 0) + accepted a (snd (try_consume_at l c t)) ops"
| "accepted a l (Collect t # ops) = accepted a (limiter_gc_at l t) ops"

text \<open>
  What an address can still submit until \<open>horizon\<close>: the tokens it has and the refills to
  come. An address without bucket starts with a full one.
\<close>

definition allowance :: "nat \<Rightarrow> address \<Rightarrow> proof_rate_limiter \<Rightarrow> nat \<Rightarrow> nat" where
  "allowance horizon a l now =
     (let c = rl_config l in
      case hm_get (rl_buckets l) a of
        None \<Rightarrow> unat (initial_tokens c)
                 + unat (refill_rate c) * ((horizon - now) div interval_nanos c)
      | Some b \<Rightarrow> unat (bk_tokens b)
                 + unat (refill_rate c) * ((horizon - bk_last_refill b) div interval_nanos c))"

definition limiter_inv :: "proof_rate_limiter \<Rightarrow> nat \<Rightarrow> bool" where
  "limiter_inv l now \<longleftrightarrow>
     (\<forall>a b. hm_get (rl_buckets l) a = Some b \<longrightarrow> bk_last_refill b \<le> bk_last_used b \<and> bk_last_used b \<le> now)"

lemma limiter_config [simp]:
  "rl_config (snd (try_consume_at l a t)) = rl_config l" "rl_config (limiter_gc_at l t) = rl_config l"
  by (simp_all add: try_consume_at_def limiter_gc_at_def Let_def)

lemma consume_other:
  "c \<noteq> a \<Longrightarrow> hm_get (rl_buckets (snd (try_consume_at l c t))) a = hm_get (rl_buckets l) a"
  by (simp add: try_consume_at_def Let_def)

lemma consume_bucket:
  defines "r \<equiv> \<lambda>l a t. refill (bucket_or_new l a t) (rl_config l) t"
  obtains b where "hm_get (rl_buckets (snd (try_consume_at l a t))) a = Some b"
    "bk_last_used b = t" "bk_last_refill b = bk_last_refill (r l a t)"
    "(if fst (try_consume_at l a t) then 1 else 0) + unat (bk_tokens b) = unat (bk_tokens (r l a t))"
proof -
  have "1 + unat (x - 1) = unat x" if "0 < x" for x :: u64
    using that by (simp add: unat_sub word_less_nat_alt word_le_nat_alt Suc_le_eq)
  then show thesis
    using that by (cases "0 < bk_tokens (r l a t)") (auto simp: try_consume_at_def Let_def r_def)
qed

lemma consume_inv:
  assumes "limiter_inv l now" "now \<le> t"
  shows "limiter_inv (snd (try_consume_at l c t)) t"
proof -
  have "bk_last_refill (bucket_or_new l c t) \<le> t"
    using assms by (force simp: bucket_or_new_def bucket_new_def limiter_inv_def split: option.split)
  then have "bk_last_refill (refill (bucket_or_new l c t) (rl_config l) t) \<le> t"
    by (rule refill_fields(3) [OF refl refl])
  moreover have "hm_get (rl_buckets (snd (try_consume_at l c t))) a = Some b \<Longrightarrow>
      bk_last_refill b \<le> bk_last_used b \<and> bk_last_used b \<le> t" if "a \<noteq> c" for a b
    using assms that consume_other [of c a l t] by (fastforce simp: limiter_inv_def)
  moreover obtain b where "hm_get (rl_buckets (snd (try_consume_at l c t))) c = Some b"
    "bk_last_used b = t" "bk_last_refill b = bk_last_refill (refill (bucket_or_new l c t) (rl_config l) t)"
    by (rule consume_bucket)
  ultimately show ?thesis unfolding limiter_inv_def by (metis option.inject order_refl)
qed

text \<open>Whole intervals can be counted in two steps.\<close>

lemma intervals_split:
  fixes I lr t h :: nat
  assumes "0 < I" "lr \<le> t" "t \<le> h"
  shows "(t - lr) div I + (h - (lr + I * ((t - lr) div I))) div I = (h - lr) div I"
    and "(t - lr) div I + (h - t) div I \<le> (h - lr) div I"
proof -
  let ?p = "(t - lr) div I"
  have "I * ?p \<le> t - lr" by simp
  then have eq: "h - lr = (h - (lr + I * ?p)) + I * ?p" using assms(2,3) by linarith
  have "(h - lr) div I = (h - (lr + I * ?p)) div I + ?p"
    using assms(1) arg_cong [OF eq, of "\<lambda>x. x div I"] by simp
  then show "?p + (h - (lr + I * ?p)) div I = (h - lr) div I" by simp
  have "(x div I + y div I) * I \<le> x + y" for x y by (simp add: distrib_right add_mono)
  then have "(t - lr) div I + (h - t) div I \<le> ((t - lr) + (h - t)) div I"
    using assms(1) by (simp add: less_eq_div_iff_mult_less_eq)
  then show "?p + (h - t) div I \<le> (h - lr) div I" using assms(2,3) by simp
qed

lemma consume_allowance:
  assumes inv: "limiter_inv l now" and t: "now \<le> t" "t \<le> horizon"
  shows "(if fst (try_consume_at l a t) then 1 else 0) + allowance horizon a (snd (try_consume_at l a t)) t
    \<le> allowance horizon a l now"
proof -
  let ?c = "rl_config l" and ?b = "bucket_or_new l a t"
  let ?I = "interval_nanos ?c" and ?R = "unat (refill_rate ?c)" and ?lr = "bk_last_refill ?b"
  let ?p = "(t - ?lr) div ?I"
  have I: "0 < ?I" by (simp add: interval_nanos_def)
  have lr: "?lr \<le> t"
    using inv t(1) by (force simp: bucket_or_new_def bucket_new_def limiter_inv_def split: option.split)
  note rf = refill_fields [where b = ?b and now = t and config = ?c, OF refl refl]
  obtain b where b: "hm_get (rl_buckets (snd (try_consume_at l a t))) a = Some b"
    "bk_last_refill b = bk_last_refill (refill ?b ?c t)"
    "(if fst (try_consume_at l a t) then 1 else 0) + unat (bk_tokens b) = unat (bk_tokens (refill ?b ?c t))"
    by (rule consume_bucket)
  have "(if fst (try_consume_at l a t) then 1 else 0) + allowance horizon a (snd (try_consume_at l a t)) t
      = unat (bk_tokens (refill ?b ?c t)) + ?R * ((horizon - (?lr + ?I * ?p)) div ?I)"
    using b rf(2) by (simp add: allowance_def Let_def)
  also have "\<dots> \<le> unat (bk_tokens ?b) + ?R * (?p + (horizon - (?lr + ?I * ?p)) div ?I)"
    using rf(1) by (simp add: distrib_left)
  also have "\<dots> = unat (bk_tokens ?b) + ?R * ((horizon - ?lr) div ?I)"
    by (simp only: intervals_split(1) [OF I lr t(2)])
  also have "\<dots> \<le> allowance horizon a l now"
  proof (cases "hm_get (rl_buckets l) a")
    case None
    have "(horizon - t) div ?I \<le> (horizon - now) div ?I" using t(1) by (intro div_le_mono) linarith
    then show ?thesis using None by (simp add: allowance_def Let_def bucket_or_new_def bucket_new_def)
  next
    case (Some b)
    then show ?thesis by (simp add: allowance_def Let_def bucket_or_new_def)
  qed
  finally show ?thesis .
qed

lemma collect_allowance:
  assumes inv: "limiter_inv l now" and t: "now \<le> t" "t \<le> horizon"
    and gc: "unat (initial_tokens (rl_config l))
      \<le> unat (refill_rate (rl_config l)) * (gc_after (rl_config l) div interval_nanos (rl_config l))"
  shows "allowance horizon a (limiter_gc_at l t) t \<le> allowance horizon a l now"
proof -
  let ?c = "rl_config l"
  let ?I = "interval_nanos ?c" and ?R = "unat (refill_rate ?c)"
  have I: "0 < ?I" by (simp add: interval_nanos_def)
  show ?thesis
  proof (cases "hm_get (rl_buckets l) a")
    case None
    have "(horizon - t) div ?I \<le> (horizon - now) div ?I" using t(1) by (intro div_le_mono) linarith
    then show ?thesis using None by (simp add: allowance_def Let_def limiter_gc_at_def)
  next
    case (Some b)
    show ?thesis
    proof (cases "t - bk_last_used b < gc_after ?c")
      case True
      then show ?thesis using Some by (simp add: allowance_def Let_def limiter_gc_at_def)
    next
      case False
      have lr: "bk_last_refill b \<le> bk_last_used b" "bk_last_refill b \<le> t"
        using inv Some t(1) by (force simp: limiter_inv_def)+
      have "gc_after ?c div ?I \<le> (t - bk_last_refill b) div ?I"
        using False lr by (intro div_le_mono) linarith
      then have "unat (initial_tokens ?c) \<le> ?R * ((t - bk_last_refill b) div ?I)"
        using gc by (meson mult_le_mono2 order_trans)
      moreover have "?R * ((t - bk_last_refill b) div ?I) + ?R * ((horizon - t) div ?I)
          \<le> ?R * ((horizon - bk_last_refill b) div ?I)"
        unfolding distrib_left [symmetric] using intervals_split(2) [OF I lr(2) t(2)] by simp
      ultimately show ?thesis
        using Some False by (simp add: allowance_def Let_def limiter_gc_at_def)
    qed
  qed
qed

lemma other_allowance:
  assumes "c \<noteq> a" "now \<le> t"
  shows "allowance horizon a (snd (try_consume_at l c t)) t \<le> allowance horizon a l now"
proof -
  have "(horizon - t) div i \<le> (horizon - now) div i" for i using assms(2) by (intro div_le_mono) linarith
  then show ?thesis
    using consume_other [OF assms(1)] by (simp add: allowance_def Let_def split: option.split)
qed

text \<open>Without a condition on the configuration a collection may add the initial tokens once more.\<close>

lemma collect_allowance_any:
  assumes inv: "limiter_inv l now" and t: "now \<le> t" "t \<le> horizon"
  shows "allowance horizon a (limiter_gc_at l t) t \<le> allowance horizon a l now + unat (initial_tokens (rl_config l))"
proof (cases "hm_get (rl_buckets l) a")
  case None
  have "(horizon - t) div i \<le> (horizon - now) div i" for i using t(1) by (intro div_le_mono) linarith
  then show ?thesis using None by (simp add: allowance_def Let_def limiter_gc_at_def trans_le_add1)
next
  case (Some b)
  then have "bk_last_refill b \<le> t" using inv t(1) by (force simp: limiter_inv_def)
  then have "(horizon - t) div i \<le> (horizon - bk_last_refill b) div i" for i by (intro div_le_mono) linarith
  then show ?thesis using Some by (simp add: allowance_def Let_def limiter_gc_at_def trans_le_add2)
qed

lemma collect_inv: "limiter_inv l now \<Longrightarrow> now \<le> t \<Longrightarrow> limiter_inv (limiter_gc_at l t) t"
  by (auto simp: limiter_inv_def limiter_gc_at_def split: option.splits if_splits)
    (meson order_trans)

text \<open>What is accepted, when a collection adds at most \<open>extra\<close> to the allowance.\<close>

lemma accepted_le_allowance:
  assumes "limiter_inv l now" and "sorted (now # map limiter_time ops)"
    and "\<forall>op \<in> set ops. limiter_time op \<le> horizon" and "rl_config l = c"
    and collect: "\<And>l now t. rl_config l = c \<Longrightarrow> limiter_inv l now \<Longrightarrow> now \<le> t \<Longrightarrow> t \<le> horizon \<Longrightarrow>
      allowance horizon a (limiter_gc_at l t) t \<le> allowance horizon a l now + extra"
  shows "accepted a l ops \<le> allowance horizon a l now + extra * length (filter is_collect ops)"
  using assms(1-4)
proof (induction ops arbitrary: l now)
  case (Cons op ops)
  let ?n = "extra * length (filter is_collect ops)"
  show ?case
  proof (cases op)
    case (Consume b t)
    let ?l = "snd (try_consume_at l b t)"
    have t: "now \<le> t" "t \<le> horizon" using Cons.prems Consume by auto
    have "accepted a ?l ops \<le> allowance horizon a ?l t + ?n"
      using Cons.prems Consume t by (intro Cons.IH) (auto intro: consume_inv)
    moreover have "(if b = a \<and> fst (try_consume_at l b t) then 1 else 0) + allowance horizon a ?l t
        \<le> allowance horizon a l now"
      using consume_allowance [OF Cons.prems(1) t, of a] other_allowance [OF _ t(1), of b a horizon l]
      by (cases "b = a") simp_all
    ultimately show ?thesis unfolding Consume accepted.simps by simp
  next
    case (Collect t)
    have t: "now \<le> t" "t \<le> horizon" using Cons.prems Collect by auto
    have "accepted a (limiter_gc_at l t) ops \<le> allowance horizon a (limiter_gc_at l t) t + ?n"
      using Cons.prems Collect t by (intro Cons.IH) (auto intro: collect_inv)
    then show ?thesis using Collect collect [OF Cons.prems(4,1) t] by simp
  qed
qed simp

section \<open>Properties\<close>

text \<open>
  C35: the limiter limits. From a fresh limiter, over any sequence of submissions and garbage
  collections at times that do not go back, an address gets at most its initial tokens, once more for
  each garbage collection, plus the refills of the whole intervals from the first to the last time.
  The collections add nothing when a bucket left alone until it is collected would have been refilled
  to its initial tokens, that is when \<open>initial_tokens\<close> is at most \<open>refill_rate\<close> times the
  whole refill intervals in \<open>gc_after\<close>. The default configuration meets this; the code does not
  enforce it for others.
\<close>

theorem submissions_rate_limited:
  assumes times: "sorted (start # map limiter_time ops)" "\<forall>op \<in> set ops. limiter_time op \<le> last_time"
  shows "accepted a (rate_limiter_new c) ops
      \<le> unat (initial_tokens c) * (1 + length (filter is_collect ops))
        + unat (refill_rate c) * ((last_time - start) div interval_nanos c)
    \<and> (unat (initial_tokens c) \<le> unat (refill_rate c) * (gc_after c div interval_nanos c) \<longrightarrow>
        accepted a (rate_limiter_new c) ops
          \<le> unat (initial_tokens c) + unat (refill_rate c) * ((last_time - start) div interval_nanos c))"
proof -
  have new: "limiter_inv (rate_limiter_new c) start" "rl_config (rate_limiter_new c) = c"
    "allowance last_time a (rate_limiter_new c) start
       = unat (initial_tokens c) + unat (refill_rate c) * ((last_time - start) div interval_nanos c)"
    by (simp_all add: allowance_def rate_limiter_new_def limiter_inv_def)
  note bound = accepted_le_allowance [OF new(1) times new(2), of a, unfolded new(3)]
  show ?thesis
    using bound [of "unat (initial_tokens c)"] bound [of 0] collect_allowance_any collect_allowance by fastforce
qed

theorem submissions_rate_limited_witness:
  "accepted (Address 1) (rate_limiter_new rate_limiter_config_default)
     [Consume (Address 1) 5, Consume (Address 2) 6, Collect 7, Consume (Address 1) 70000000000] \<le> 15"
  using submissions_rate_limited
    [of 5 "[Consume (Address 1) 5, Consume (Address 2) 6, Collect 7, Consume (Address 1) 70000000000]"
      70000000000 "Address 1" rate_limiter_config_default]
  by (simp add: rate_limiter_config_default_def interval_nanos_def)

end
