(* ===== verification/Peer_Scoring.thy ===== *)
theory Peer_Scoring
  imports Primitives
begin

text \<open>
  \<open>crates/consensus/src/peer_scoring.rs\<close>: scores of peers by their prover-related behaviour.
  The unchecked addition of the score wraps in a release build.
\<close>

section \<open>Scores\<close>

datatype peer_id = PeerId string

record peer_scoring_config =
  initial_score :: i64
  max_score :: i64
  disconnect_threshold :: i64
  delta_valid_proof :: i64
  delta_challenge_response :: i64
  delta_unanswered_challenge :: i64
  delta_invalid_proof :: i64
  delta_equivocation :: i64
  delta_duplicate_message :: i64

datatype peer_event =
    ValidProofDelivered
  | TimelyChannelResponse
  | UnansweredChallenge
  | InvalidProofPayload
  | EquivocationDetected
  | DuplicateMessage

record peer_scorer =
  ps_config :: peer_scoring_config
  ps_scores :: "(peer_id, i64) hashmap"

definition peer_scorer_new :: "peer_scoring_config \<Rightarrow> peer_scorer" where
  "peer_scorer_new config = \<lparr>ps_config = config, ps_scores = hm_new\<rparr>"

definition i64_wrapping_add :: "i64 \<Rightarrow> i64 \<Rightarrow> i64" where
  "i64_wrapping_add a b = (a + b + 2 ^ 63) mod 2 ^ 64 - 2 ^ 63"

definition event_delta :: "peer_scoring_config \<Rightarrow> peer_event \<Rightarrow> i64" where
  "event_delta c event =
     (case event of
        ValidProofDelivered \<Rightarrow> delta_valid_proof c
      | TimelyChannelResponse \<Rightarrow> delta_challenge_response c
      | UnansweredChallenge \<Rightarrow> delta_unanswered_challenge c
      | InvalidProofPayload \<Rightarrow> delta_invalid_proof c
      | EquivocationDetected \<Rightarrow> delta_equivocation c
      | DuplicateMessage \<Rightarrow> delta_duplicate_message c)"

definition record_event :: "peer_scorer \<Rightarrow> peer_id \<Rightarrow> peer_event \<Rightarrow> peer_scorer" where
  "record_event s peer event =
     (let delta = event_delta (ps_config s) event;
          score = hm_get_or (ps_scores s) peer (initial_score (ps_config s))
      in s\<lparr>ps_scores := hm_insert (ps_scores s) peer
             (min (i64_wrapping_add score delta) (max_score (ps_config s)))\<rparr>)"

definition peer_score :: "peer_scorer \<Rightarrow> peer_id \<Rightarrow> i64" where
  "peer_score s peer = hm_get_or (ps_scores s) peer (initial_score (ps_config s))"

definition should_disconnect :: "peer_scorer \<Rightarrow> peer_id \<Rightarrow> bool" where
  "should_disconnect s peer = (peer_score s peer < disconnect_threshold (ps_config s))"

definition peers_to_disconnect :: "peer_scorer \<Rightarrow> peer_id list" where
  "peers_to_disconnect s =
     map fst (filter (\<lambda>(_, score). score < disconnect_threshold (ps_config s))
                (hm_entries (ps_scores s)))"

definition remove_peer :: "peer_scorer \<Rightarrow> peer_id \<Rightarrow> peer_scorer" where
  "remove_peer s peer = s\<lparr>ps_scores := hm_remove (ps_scores s) peer\<rparr>"

lemma i64_wrapping_add_fits:
  "i64_min \<le> a + b \<Longrightarrow> a + b \<le> i64_max \<Longrightarrow> i64_wrapping_add a b = a + b"
  by (simp add: i64_wrapping_add_def i64_min_def i64_max_def)

text \<open>The list of peers to disconnect is the single test on every tracked peer.\<close>

lemma peers_to_disconnect_iff:
  "peer \<in> set (peers_to_disconnect s) \<longleftrightarrow> hm_contains (ps_scores s) peer \<and> should_disconnect s peer"
  by (force simp: peers_to_disconnect_def should_disconnect_def peer_score_def hm_contains_def
      hm_get_or_def hm_in_entries image_iff split: option.split)

lemma record_event_capped: "peer_score (record_event s peer event) peer \<le> max_score (ps_config s)"
  by (simp add: record_event_def peer_score_def Let_def)

lemma record_event_other: "p \<noteq> peer \<Longrightarrow> peer_score (record_event s peer event) p = peer_score s p"
  by (simp add: record_event_def peer_score_def Let_def)

end
