(* ===== verification/Fee.thy ===== *)
theory Fee
  imports Primitives
begin

text \<open>
  \<open>crates/core/src/fee.rs\<close>: effective gas price and tip, the base fee of the next block, and
  the blob gas price with its integer exponential. \<open>U256\<close> is a 256-bit word.
\<close>

section \<open>Gas price\<close>

abbreviation (input) INITIAL_BASE_FEE :: u64 where
  "INITIAL_BASE_FEE \<equiv> 1000000000"

abbreviation (input) BASE_FEE_CHANGE_DENOMINATOR :: u64 where
  "BASE_FEE_CHANGE_DENOMINATOR \<equiv> 8"

definition effective_gas_price :: "u64 \<Rightarrow> u64 \<Rightarrow> u64 \<Rightarrow> u64" where
  "effective_gas_price max_fee max_priority_fee base_fee =
     min max_fee (sat_add base_fee max_priority_fee)"

definition miner_tip :: "u64 \<Rightarrow> u64 \<Rightarrow> u64 \<Rightarrow> u64" where
  "miner_tip max_fee max_priority_fee base_fee =
     sat_sub (effective_gas_price max_fee max_priority_fee base_fee) base_fee"

section \<open>Base fee\<close>

definition base_fee_delta :: "u64 \<Rightarrow> u64 \<Rightarrow> u64 \<Rightarrow> u64" where
  "base_fee_delta parent_base_fee gas_delta gas_target =
     (let delta = sat_mul (ucast parent_base_fee :: u128) (ucast gas_delta)
                    div ucast gas_target div ucast BASE_FEE_CHANGE_DENOMINATOR
      in ucast (min delta (ucast (u_max :: u64))))"

definition calculate_base_fee :: "u64 \<Rightarrow> u64 \<Rightarrow> u64 \<Rightarrow> u64" where
  "calculate_base_fee parent_gas_used parent_gas_limit parent_base_fee =
     (if parent_base_fee = 0 then INITIAL_BASE_FEE
      else
        let gas_target = parent_gas_limit div 2
        in if gas_target = 0 then parent_base_fee
           else if parent_gas_used = gas_target then parent_base_fee
           else if gas_target < parent_gas_used then
             (let delta = base_fee_delta parent_base_fee (sat_sub parent_gas_used gas_target) gas_target
              in sat_add parent_base_fee (max delta 1))
           else
             (let delta = base_fee_delta parent_base_fee (sat_sub gas_target parent_gas_used) gas_target
              in max (sat_sub parent_base_fee delta) 1))"

section \<open>Blob gas\<close>

abbreviation (input) TARGET_BLOB_GAS_PER_BLOCK :: u64 where
  "TARGET_BLOB_GAS_PER_BLOCK \<equiv> 393216"

abbreviation (input) BLOB_GAS_PER_BLOB :: u64 where
  "BLOB_GAS_PER_BLOB \<equiv> 131072"

abbreviation (input) MIN_BLOB_BASE_FEE :: u64 where
  "MIN_BLOB_BASE_FEE \<equiv> 1"

abbreviation (input) BLOB_BASE_FEE_UPDATE_FRACTION :: u64 where
  "BLOB_BASE_FEE_UPDATE_FRACTION \<equiv> 3338477"

text \<open>The loop; it ends at the latest when the counter overflows.\<close>

function exponential_loop :: "u256 \<Rightarrow> u256 \<Rightarrow> u256 \<Rightarrow> u64 \<Rightarrow> u256 \<Rightarrow> u256 \<Rightarrow> u64" where
  "exponential_loop numerator denominator saturation_limit i output numerator_accum =
     (if numerator_accum \<noteq> 0 then
        if saturation_limit - output \<le> numerator_accum then u_max
        else
          let output = output + numerator_accum;
              numerator_accum = numerator_accum * numerator div (denominator * ucast i)
          in case checked_add i 1 of
               None \<Rightarrow> u_max
             | Some i \<Rightarrow> exponential_loop numerator denominator saturation_limit i output numerator_accum
      else ucast (output div denominator))"
  by pat_completeness auto
termination
  by (relation "measure (\<lambda>(n, d, s, i, out, na). 2 ^ 64 - unat i)")
    (auto simp: checked_add_Some_iff unat_plus_fits)

declare exponential_loop.simps [simp del]

definition fake_exponential :: "u64 \<Rightarrow> u64 \<Rightarrow> u64 \<Rightarrow> u64" where
  "fake_exponential factor numerator denominator =
     (if denominator = 0 then u_max
      else
        let denominator = ucast denominator :: u256;
            numerator = ucast numerator :: u256;
            saturation_limit = ucast (u_max :: u64) * denominator
        in exponential_loop numerator denominator saturation_limit 1 0 (ucast factor * denominator))"

definition calc_blob_gas_price :: "u64 \<Rightarrow> u64" where
  "calc_blob_gas_price excess_blob_gas =
     fake_exponential MIN_BLOB_BASE_FEE excess_blob_gas BLOB_BASE_FEE_UPDATE_FRACTION"

definition calc_excess_blob_gas :: "u64 \<Rightarrow> u64 \<Rightarrow> u64" where
  "calc_excess_blob_gas parent_excess parent_used =
     sat_sub (sat_add parent_excess parent_used) TARGET_BLOB_GAS_PER_BLOCK"

section \<open>Facts on the base fee\<close>

lemma unat_base_fee_delta:
  assumes "gt \<noteq> 0"
  shows "unat (base_fee_delta fee gd gt) = min (unat fee * unat gd div unat gt div 8) (2 ^ 64 - 1)"
proof -
  have f: "unat fee \<le> 18446744073709551615" "unat gd \<le> 18446744073709551615"
    using unat_u64_less [of fee] unat_u64_less [of gd] by linarith+
  have "unat fee * unat gd \<le> 18446744073709551615 * 18446744073709551615"
    by (rule mult_mono) (use f in simp_all)
  then have prod: "unat (sat_mul (ucast fee :: u128) (ucast gd)) = unat fee * unat gd"
    by (simp add: unat_sat_mul)
  let ?d = "sat_mul (ucast fee :: u128) (ucast gd) div ucast gt div ucast BASE_FEE_CHANGE_DENOMINATOR"
  have d: "unat ?d = unat fee * unat gd div unat gt div 8"
    by (simp add: unat_div prod)
  have mx: "unat (ucast (u_max :: u64) :: u128) = 2 ^ 64 - 1" by (simp add: unat_u_max)
  have "unat (min ?d (ucast (u_max :: u64))) = min (unat ?d) (2 ^ 64 - 1)"
    unfolding min_def word_le_nat_alt mx using mx by auto
  then have "unat (min ?d (ucast (u_max :: u64))) < 2 ^ 64"
    by simp
  then show ?thesis
    unfolding base_fee_delta_def Let_def
    using d \<open>unat (min ?d _) = _\<close>
    by (simp add: unsigned_ucast_eq take_bit_nat_eq_self_iff)
qed

lemma delta_le_eighth:
  "gd \<le> gt \<Longrightarrow> 0 < gt \<Longrightarrow> p * gd div gt div 8 \<le> p div 8" for p gd gt :: nat
  by (rule div_le_mono) (metis div_le_mono div_mult_self_is_m mult_le_mono2)

section \<open>The exponential\<close>

text \<open>The terms of the Taylor series as the loop rounds them, and their sums.\<close>

fun taylor :: "nat \<Rightarrow> nat \<Rightarrow> nat \<Rightarrow> nat \<Rightarrow> nat" where
  "taylor f n d 0 = f * d"
| "taylor f n d (Suc i) = taylor f n d i * n div (d * Suc i)"

definition taylor_sum :: "nat \<Rightarrow> nat \<Rightarrow> nat \<Rightarrow> nat \<Rightarrow> nat" where
  "taylor_sum f n d k = (\<Sum>i<k. taylor f n d i)"

lemma taylor_zero_later: "taylor f n d i = 0 \<Longrightarrow> i \<le> j \<Longrightarrow> taylor f n d j = 0"
  by (induction j) (auto simp: le_Suc_eq)

lemma taylor_sum_Suc: "taylor_sum f n d (Suc k) = taylor_sum f n d k + taylor f n d k"
  by (simp add: taylor_sum_def)

lemma taylor_sum_mono: "j \<le> k \<Longrightarrow> taylor_sum f n d j \<le> taylor_sum f n d k"
  unfolding taylor_sum_def by (rule sum_mono2) auto

lemma taylor_le_sum: "i < k \<Longrightarrow> taylor f n d i \<le> taylor_sum f n d k"
  unfolding taylor_sum_def by (rule member_le_sum) auto

lemma taylor_sum_zero:
  assumes "taylor f n d j = 0" "j \<le> k"
  shows "taylor_sum f n d k = taylor_sum f n d j"
  using assms(2)
proof (induction k)
  case (Suc k)
  then show ?case
    using taylor_zero_later [OF assms(1), of k] by (auto simp: le_Suc_eq taylor_sum_Suc)
qed simp

lemma taylor_doubles:
  assumes "128 * d \<le> n" "0 < d" "j \<le> 64"
  shows "2 ^ j * (f * d) \<le> taylor f n d j"
  using assms(3)
proof (induction j)
  case (Suc j)
  have "d * Suc j * 2 \<le> n" using assms(1) Suc.prems by (auto intro: order_trans [rotated])
  then have "taylor f n d j * 2 * (d * Suc j) \<le> taylor f n d j * n"
    by (metis mult.assoc mult.commute mult_le_mono2)
  moreover have "0 < d * Suc j" using assms(2) by simp
  ultimately have "taylor f n d j * 2 \<le> taylor f n d (Suc j)"
    unfolding taylor.simps by (simp only: less_eq_div_iff_mult_less_eq)
  with Suc show ?case by simp
qed simp

lemma taylor_halves:
  assumes "n < 128 * d"
  shows "taylor f n d (255 + j) * 2 ^ j \<le> taylor f n d 255"
proof (induction j)
  case (Suc j)
  let ?i = "Suc (255 + j)"
  have "2 * n \<le> d * ?i" using assms by (auto intro: order_trans [of _ "d * 256"])
  have "taylor f n d ?i * (d * ?i) \<le> taylor f n d (255 + j) * n"
    unfolding taylor.simps by (rule div_times_less_eq_dividend)
  then have "taylor f n d ?i * 2 * (d * ?i) \<le> taylor f n d (255 + j) * n * 2" by linarith
  also have "\<dots> \<le> taylor f n d (255 + j) * (d * ?i)"
    using \<open>2 * n \<le> d * ?i\<close> by (metis mult.assoc mult.commute mult_le_mono2)
  finally have "taylor f n d ?i * 2 \<le> taylor f n d (255 + j)"
    using assms by (simp only: mult_le_cancel2) simp
  then have "taylor f n d ?i * 2 * 2 ^ j \<le> taylor f n d (255 + j) * 2 ^ j" by (rule mult_le_mono1)
  from order_trans [OF this Suc] show ?case by (simp add: mult.assoc)
qed simp

lemma taylor_vanishes:
  assumes "taylor_sum f n d 400 < (2 ^ 64 - 1) * d" "0 < d" "d < 2 ^ 64"
  shows "taylor f n d 399 = 0"
proof (cases "128 * d \<le> n")
  case True
  have "taylor f n d 64 < 2 ^ 64 * d"
    using taylor_le_sum [of 64 400 f n d] assms(1) by simp
  then have "2 ^ 64 * (f * d) < 2 ^ 64 * d" using taylor_doubles [OF True assms(2), of 64 f] by linarith
  then have "f = 0" using assms(2) by simp
  then have "taylor f n d 0 = 0" by simp
  then show ?thesis by (rule taylor_zero_later) simp
next
  case False
  have "taylor f n d 255 < 2 ^ 64 * d" using taylor_le_sum [of 255 400 f n d] assms(1) by simp
  also have "\<dots> < 2 ^ 64 * 2 ^ 64" using assms(3) by simp
  finally have "taylor f n d 399 * 2 ^ 144 < 2 ^ 64 * 2 ^ 64"
    using taylor_halves [of n d f 144] False by simp
  then show ?thesis by simp
qed

text \<open>The value the loop computes: the sum of the first 400 terms, which are all that are not zero.\<close>

definition exponential_spec :: "nat \<Rightarrow> nat \<Rightarrow> nat \<Rightarrow> nat" where
  "exponential_spec f n d =
     (if (2 ^ 64 - 1) * d \<le> taylor_sum f n d 400 then 2 ^ 64 - 1 else taylor_sum f n d 400 div d)"

lemma unat_next_term:
  assumes na: "unat na < 2 ^ 128" and nu: "unat nu < 2 ^ 64" and de: "unat de < 2 ^ 64"
  shows "unat (na * nu div (de * ucast (i :: u64)) :: u256) = unat na * unat nu div (unat de * unat i)"
proof -
  have "unat na * unat nu < 2 ^ 128 * 2 ^ 64" by (rule mult_strict_mono) (use na nu in simp_all)
  then have 1: "unat (na * nu) = unat na * unat nu" by (intro unat_mult_fits) simp
  have i: "unat (ucast i :: u256) = unat i"
    by (simp add: unsigned_ucast_eq take_bit_nat_eq_self_iff) (use unat_u64_less [of i] in linarith)
  have "unat de * unat i < 2 ^ 64 * 2 ^ 64"
    by (rule mult_strict_mono) (use de unat_u64_less [of i] in simp_all)
  then have "unat (de * ucast i) = unat de * unat i" using i by (subst unat_mult_fits) simp_all
  with 1 show ?thesis by (simp add: unat_div)
qed

lemma exponential_loop_taylor:
  fixes f n d :: nat and nu de lim out na :: u256
  assumes const: "unat nu = n" "n < 2 ^ 64" "unat de = d" "0 < d" "d < 2 ^ 64" "unat lim = (2 ^ 64 - 1) * d"
    and "k \<le> 399" "taylor_sum f n d k < (2 ^ 64 - 1) * d"
    and "unat out = taylor_sum f n d k" "unat na = taylor f n d k" "unat i = Suc k"
  shows "unat (exponential_loop nu de lim i out na) = exponential_spec f n d"
  using assms(7-)
proof (induction "399 - k" arbitrary: k i out na rule: less_induct)
  case less
  let ?S = "taylor_sum f n d" and ?T = "taylor f n d" and ?L = "(2 ^ 64 - 1) * d"
  have T: "unat na = ?T k" and S: "unat out = ?S k" "?S k < ?L" by (fact less.prems)+
  have L: "?L < 2 ^ 128" using const(5) by simp
  consider (zero) "?T k = 0" | (high) "?T k \<noteq> 0" "?L \<le> ?S (Suc k)"
    | (more_terms) "?T k \<noteq> 0" "?S (Suc k) < ?L" by linarith
  then show ?case
  proof cases
    case zero
    then have "?S 400 = ?S k" using less.prems(1) by (intro taylor_sum_zero) simp_all
    moreover have "?S k div d < 2 ^ 64" using S(2) const(4) by (intro less_mult_imp_div_less) simp
    ultimately show ?thesis
      using zero T S const(3)
      by (subst exponential_loop.simps)
        (simp add: exponential_spec_def unsigned_ucast_eq take_bit_nat_eq_self_iff unat_div unat_eq_zero)
  next
    case high
    have "unat (lim - out) = ?L - ?S k" using S const(6) by (simp add: unat_sub word_le_nat_alt)
    then have "lim - out \<le> na" using high(2) T by (simp add: word_le_nat_alt taylor_sum_Suc)
    moreover have "?S (Suc k) \<le> ?S 400" using less.prems(1) by (intro taylor_sum_mono) simp
    then have "?L \<le> ?S 400" using high(2) by (rule order_trans [rotated])
    ultimately show ?thesis
      using high(1) T by (subst exponential_loop.simps) (auto simp: exponential_spec_def unat_u_max)
  next
    case more_terms
    have "unat (lim - out) = ?L - ?S k" using S const(6) by (simp add: unat_sub word_le_nat_alt)
    then have cont: "\<not> lim - out \<le> na" using more_terms(2) T by (simp add: word_le_nat_alt taylor_sum_Suc)
    have k: "Suc k \<le> 399"
    proof (rule ccontr)
      assume "\<not> Suc k \<le> 399"
      then have "k = 399" using less.prems(1) by simp
      then show False using more_terms taylor_vanishes [of f n d] const(4,5) by simp
    qed
    have i: "checked_add i 1 = Some (i + 1)" "unat (i + 1) = Suc (Suc k)"
      using less.prems(5) k by (simp_all add: checked_add_Some_iff unat_plus_fits)
    have "unat out + unat na < 2 ^ 128" using more_terms(2) L T S by (simp add: taylor_sum_Suc)
    then have out: "unat (out + na) = ?S (Suc k)"
      using T S by (subst unat_plus_fits) (simp_all add: taylor_sum_Suc)
    have "?T k < 2 ^ 128" using more_terms(2) L by (simp add: taylor_sum_Suc)
    then have na: "unat (na * nu div (de * ucast i)) = ?T (Suc k)"
      using const T less.prems(5) by (subst unat_next_term) simp_all
    have "unat (exponential_loop nu de lim (i + 1) (out + na) (na * nu div (de * ucast i))) =
        exponential_spec f n d"
      using k more_terms(2) out na i less.prems(1) by (intro less.hyps [of "Suc k"]) simp_all
    then show ?thesis
      using more_terms(1) T cont i(1) by (subst exponential_loop.simps) auto
  qed
qed

lemma unat_ucast_u256: "unat (ucast (x :: u64) :: u256) = unat x"
  by (simp add: unsigned_ucast_eq take_bit_nat_eq_self_iff) (use unat_u64_less [of x] in linarith)

lemma fake_exponential_spec:
  assumes "d \<noteq> 0"
  shows "unat (fake_exponential f n d) = exponential_spec (unat f) (unat n) (unat d)"
proof -
  have pos: "0 < unat d" using assms by (simp add: unat_gt_0)
  have "unat f * unat d < 2 ^ 64 * 2 ^ 64"
    by (rule mult_strict_mono) (use unat_u64_less [of f] unat_u64_less [of d] in simp_all)
  then have na: "unat (ucast f * ucast d :: u256) = unat f * unat d"
    by (subst unat_mult_fits) (simp_all add: unat_ucast_u256)
  have "(2 ^ 64 - 1) * unat d < 2 ^ 64 * 2 ^ 64"
    by (rule mult_strict_mono) (use unat_u64_less [of d] in simp_all)
  then have lim: "unat (ucast (u_max :: u64) * ucast d :: u256) = (2 ^ 64 - 1) * unat d"
    by (subst unat_mult_fits) (simp_all add: unat_ucast_u256 unat_u_max)
  show ?thesis
    unfolding fake_exponential_def Let_def using assms
    by simp (rule exponential_loop_taylor [where k = 0];
      simp add: unat_ucast_u256 na lim pos taylor_sum_def)
qed

lemma taylor_mono: "n \<le> n' \<Longrightarrow> taylor f n d i \<le> taylor f n' d i"
  by (induction i) (auto intro!: div_le_mono mult_le_mono simp del: mult_Suc_right)

lemma exponential_spec_mono:
  assumes "n \<le> n'"
  shows "exponential_spec f n d \<le> exponential_spec f n' d"
proof (cases "d = 0")
  case False
  have le: "taylor_sum f n d 400 \<le> taylor_sum f n' d 400"
    unfolding taylor_sum_def by (rule sum_mono) (rule taylor_mono [OF assms])
  have "taylor_sum f n d 400 div d < 2 ^ 64 - 1" if "taylor_sum f n d 400 < (2 ^ 64 - 1) * d"
    using that False by (simp add: less_mult_imp_div_less)
  then show ?thesis using le div_le_mono [OF le, of d] by (auto simp: exponential_spec_def)
qed (simp add: exponential_spec_def)

section \<open>Properties\<close>

text \<open>
  C34: the integer exponential is the Taylor series it approximates: \<open>fake_exponential\<close>
  returns, for every input, the sum of the rounded terms divided by the denominator, or the
  largest 64-bit value when that sum is too large. No 256-bit operation overflows, and at most 400
  terms are not zero, so the loop takes at most 400 rounds.
\<close>

theorem fake_exponential_is_taylor_sum:
  "unat (fake_exponential f n d) =
     (if d = 0 then 2 ^ 64 - 1
      else if (2 ^ 64 - 1) * unat d \<le> taylor_sum (unat f) (unat n) (unat d) 400 then 2 ^ 64 - 1
      else taylor_sum (unat f) (unat n) (unat d) 400 div unat d)"
  using fake_exponential_spec [of d f n]
  by (cases "d = 0") (simp_all add: exponential_spec_def fake_exponential_def unat_u_max)

text \<open>
  The blob gas price never falls when there is more excess blob gas, and it is never below
  the minimum of 1.
\<close>

theorem blob_gas_price_monotone:
  assumes "excess \<le> excess'"
  shows "MIN_BLOB_BASE_FEE \<le> calc_blob_gas_price excess
       \<and> calc_blob_gas_price excess \<le> calc_blob_gas_price excess'"
proof -
  have d: "BLOB_BASE_FEE_UPDATE_FRACTION \<noteq> 0" and one: "unat MIN_BLOB_BASE_FEE = 1"
    by simp_all
  have "taylor 1 n m 0 \<le> taylor_sum 1 n m 400" for n m by (rule taylor_le_sum) simp
  then have "m \<le> taylor_sum 1 n m 400" for n m by simp
  then have "1 \<le> taylor_sum 1 n m 400 div m" if "0 < m" for n m
    using that by (simp add: less_eq_div_iff_mult_less_eq)
  then have "1 \<le> exponential_spec 1 n (unat BLOB_BASE_FEE_UPDATE_FRACTION)" for n
    by (simp add: exponential_spec_def)
  then show ?thesis
    using exponential_spec_mono [of "unat excess" "unat excess'"] assms
    by (simp add: calc_blob_gas_price_def word_le_nat_alt fake_exponential_spec [OF d] one)
qed

theorem blob_gas_price_monotone_witness:
  "MIN_BLOB_BASE_FEE \<le> calc_blob_gas_price 393216
     \<and> calc_blob_gas_price 393216 \<le> calc_blob_gas_price 786432"
  by (rule blob_gas_price_monotone) (simp add: word_le_nat_alt)

text \<open>
  The base fee moves by at most an eighth. After a block that used at most twice its gas
  target, the next base fee is positive, at most an eighth below the parent's, and at most an
  eighth, or 1, above it; it rises after a block above the target unless it is already the
  largest value, and does not rise after one below.
\<close>

theorem base_fee_step_bounded:
  assumes fee: "fee \<noteq> 0" and used: "unat used \<le> 2 * (unat limit div 2)"
  shows "0 < calculate_base_fee used limit fee
       \<and> unat fee - unat fee div 8 \<le> unat (calculate_base_fee used limit fee)
       \<and> unat (calculate_base_fee used limit fee) \<le> unat fee + max 1 (unat fee div 8)
       \<and> (limit div 2 < used \<longrightarrow> limit div 2 \<noteq> 0 \<longrightarrow>
            fee < calculate_base_fee used limit fee \<or> calculate_base_fee used limit fee = u_max)
       \<and> (used < limit div 2 \<longrightarrow> calculate_base_fee used limit fee \<le> fee)"
proof -
  let ?t = "limit div 2"
  have f: "0 < unat fee" "unat fee \<le> 18446744073709551615"
    using fee unat_u64_less [of fee] by (simp_all add: unat_gt_0, linarith)
  have t: "unat ?t = unat limit div 2" by (simp add: unat_div)
  have delta: "unat (base_fee_delta fee gd ?t) \<le> unat fee div 8"
    if "unat gd \<le> unat ?t" "?t \<noteq> 0" for gd
    using delta_le_eighth [of "unat gd" "unat ?t" "unat fee"] that
    by (simp add: unat_base_fee_delta unat_gt_0 min_def)
  have le8: "unat fee div 8 \<le> unat fee" by simp
  consider "?t = 0 \<or> used = ?t" | (up) "?t \<noteq> 0" "?t < used" | (down) "?t \<noteq> 0" "used < ?t" by fastforce
  then show ?thesis
  proof cases
    case 1
    then have "calculate_base_fee used limit fee = fee" using fee by (auto simp: calculate_base_fee_def Let_def)
    then show ?thesis using 1 f by (auto simp: word_less_nat_alt)
  next
    case up
    let ?d = "base_fee_delta fee (sat_sub used ?t) ?t"
    have d: "unat ?d \<le> unat fee div 8" using up used t by (intro delta) (simp_all add: unat_sat_sub)
    have m: "unat (max ?d 1) = max (unat ?d) 1" by (simp add: max_def word_le_nat_alt)
    have next_fee: "calculate_base_fee used limit fee = sat_add fee (max ?d 1)"
      using up fee by (auto simp: calculate_base_fee_def Let_def)
    have sum: "unat (sat_add fee (max ?d 1)) = min (unat fee + max (unat ?d) 1) 18446744073709551615"
      by (simp add: unat_sat_add m)
    then have "sat_add fee (max ?d 1) = u_max \<or> unat fee < unat (sat_add fee (max ?d 1))"
      unfolding word_unat_eq_iff unat_u_max using f by simp linarith
    then show ?thesis
      unfolding next_fee word_less_nat_alt word_le_nat_alt using sum d f le8 up
      by (simp add: word_less_nat_alt) linarith
  next
    case down
    let ?d = "base_fee_delta fee (sat_sub ?t used) ?t"
    have d: "unat ?d \<le> unat fee div 8" using down by (intro delta) (simp_all add: unat_sat_sub)
    have next_fee: "calculate_base_fee used limit fee = max (sat_sub fee ?d) 1"
      using down fee by (auto simp: calculate_base_fee_def Let_def)
    have "unat (max (sat_sub fee ?d) 1) = max (unat fee - unat ?d) 1"
      by (simp add: max_def word_le_nat_alt unat_sat_sub)
    then show ?thesis
      unfolding next_fee word_less_nat_alt word_le_nat_alt using d f le8 down
      by (simp add: word_less_nat_alt) linarith
  qed
qed

theorem base_fee_step_bounded_witness:
  "unat (calculate_base_fee 30000000 30000000 1000000000) \<le> 1125000000"
  using base_fee_step_bounded [of 1000000000 30000000 30000000] by simp

end
