(* ===== verification/Rlp.thy ===== *)
theory Rlp
  imports Crypto
begin

unbundle bit_operations_syntax

text \<open>
  The wire format. The sources encode with the third-party crate \<open>alloy_rlp\<close>: an
  \<open>rlp_codec\<close> holds the functions of that crate they call, and \<open>rlp_laws\<close> the behaviour
  the crate documents (the recursive length prefix format of Ethereum). On top of it the theory
  models the \<open>Encodable\<close> and \<open>Decodable\<close> instances of \<open>Bytes\<close>, \<open>Address\<close>,
  \<open>ShellHash\<close> (\<open>crates/primitives\<close>) and \<open>PQSignature\<close> (\<open>crates/crypto\<close>),
  the helper \<open>rlp_payload_end\<close> of \<open>crates/core\<close>, and the two idioms of every decoder of
  \<open>crates/core\<close>: the list whose declared length must be consumed exactly and the bounded loop
  over the items of a list.

  A decoder takes the buffer and returns the value and the rest of the buffer, or the error; the
  codec's functions are total. Lengths are lengths of buffers in memory, so \<open>saturating_add\<close>
  on them is addition. \<open>rlp_reference\<close> is an instance of the format that satisfies the laws.
\<close>

section \<open>The codec\<close>

text \<open>The errors the sources raise; \<open>CodecError\<close> stands for those raised inside the crate.\<close>

datatype rlp_error =
    InputTooShort
  | UnexpectedString
  | ListLengthMismatch usize usize
  | RlpCustom string
  | CodecError nat

type_synonym 'a decoder = "u8 list \<Rightarrow> rlp_error + 'a \<times> u8 list"

text \<open>
  \<open>list_header\<close> is \<open>Header { list: true, payload_length }\<close>; \<open>header_decode\<close> returns
  the flag and the length of a header; \<open>decode_bytes\<close> is \<open>Header::decode_bytes(buf, false)\<close>;
  \<open>array32_decode\<close> is \<open><[u8; 32]>::decode\<close>.
\<close>

record rlp_codec =
  list_header :: "usize \<Rightarrow> u8 list"
  list_header_length :: "usize \<Rightarrow> usize"
  header_decode :: "(bool \<times> usize) decoder"
  slice_encode :: "u8 list \<Rightarrow> u8 list"
  slice_length :: "u8 list \<Rightarrow> usize"
  decode_bytes :: "u8 list decoder"
  array32_decode :: "u8 list decoder"
  u8_encode :: "u8 \<Rightarrow> u8 list"
  u8_length :: "u8 \<Rightarrow> usize"
  u8_decode :: "u8 decoder"
  u64_encode :: "u64 \<Rightarrow> u8 list"
  u64_length :: "u64 \<Rightarrow> usize"
  u64_decode :: "u64 decoder"
  u256_encode :: "u256 \<Rightarrow> u8 list"
  u256_length :: "u256 \<Rightarrow> usize"
  u256_decode :: "u256 decoder"

text \<open>Decoding the encoding of a value gives the value back, whatever follows it.\<close>

definition decodes :: "'a decoder \<Rightarrow> u8 list \<Rightarrow> 'a \<Rightarrow> bool" where
  "decodes D e x \<longleftrightarrow> (length e < usize_bound \<longrightarrow> (\<forall>rest. D (e @ rest) = Inr (x, rest)))"

definition rlp_laws :: "rlp_codec \<Rightarrow> bool" where
  "rlp_laws R \<longleftrightarrow>
     (\<forall>n rest. n \<le> length rest \<longrightarrow> n < usize_bound \<longrightarrow>
        header_decode R (list_header R n @ rest) = Inr ((True, n), rest)) \<and>
     (\<forall>n. n < usize_bound \<longrightarrow> list_header R n \<noteq> [] \<and> hd (list_header R n) AND 0xC0 = 0xC0) \<and>
     (\<forall>n. n < 56 \<longrightarrow> list_header R n = [0xC0 + of_nat n]) \<and>
     (\<forall>bs. decodes (decode_bytes R) (slice_encode R bs) bs) \<and>
     (\<forall>bs. length bs = 32 \<longrightarrow> decodes (array32_decode R) (slice_encode R bs) bs) \<and>
     (\<forall>bs. 1 < length bs \<longrightarrow> length bs < 56 \<longrightarrow>
        slice_encode R bs = (0x80 + of_nat (length bs)) # bs) \<and>
     slice_encode R [] = [0x80] \<and>
     (\<forall>v. decodes (u8_decode R) (u8_encode R v) v) \<and>
     (\<forall>v. decodes (u64_decode R) (u64_encode R v) v) \<and>
     (\<forall>v. decodes (u256_decode R) (u256_encode R v) v) \<and>
     (\<forall>n. list_header_length R n = length (list_header R n)) \<and>
     (\<forall>bs. slice_length R bs = length (slice_encode R bs)) \<and>
     (\<forall>v. u8_length R v = length (u8_encode R v)) \<and>
     (\<forall>v. u64_length R v = length (u64_encode R v)) \<and>
     (\<forall>v. u256_length R v = length (u256_encode R v))"

section \<open>Decoders\<close>

definition dec_return :: "'a \<Rightarrow> 'a decoder" where
  "dec_return x buf = Inr (x, buf)"

definition dec_fail :: "rlp_error \<Rightarrow> 'a decoder" where
  "dec_fail e buf = Inl e"

text \<open>\<open>let x = D(buf)?; ...\<close>.\<close>

definition dec_bind :: "'a decoder \<Rightarrow> ('a \<Rightarrow> 'b decoder) \<Rightarrow> 'b decoder" where
  "dec_bind D K buf = (case D buf of Inl e \<Rightarrow> Inl e | Inr (x, rest) \<Rightarrow> K x rest)"

definition rlp_payload_end :: "usize \<Rightarrow> usize \<Rightarrow> rlp_error + usize" where
  "rlp_payload_end buf_len payload_length =
     (if payload_length \<le> buf_len then Inr (buf_len - payload_length) else Inl InputTooShort)"

text \<open>A list header, the fields, and the check that they take the declared length exactly.
  The fields see the declared length and the length of the buffer after the header.\<close>

definition decode_list :: "rlp_codec \<Rightarrow> (usize \<Rightarrow> usize \<Rightarrow> 'a decoder) \<Rightarrow> 'a decoder" where
  "decode_list R body =
     dec_bind (header_decode R) (\<lambda>(is_list, payload_length) buf.
       if \<not> is_list then Inl UnexpectedString
       else let remaining = length buf in
         (case body payload_length remaining buf of
            Inl e \<Rightarrow> Inl e
          | Inr (x, rest) \<Rightarrow>
              let consumed = remaining - length rest in
              if consumed \<noteq> payload_length then Inl (ListLengthMismatch payload_length consumed)
              else Inr (x, rest)))"

text \<open>\<open>while buf.len() > end\<close>: at most \<open>room\<close> further items, the error \<open>full\<close> when
  another one is needed.\<close>

fun decode_items :: "rlp_error \<Rightarrow> 'a decoder \<Rightarrow> usize \<Rightarrow> nat \<Rightarrow> 'a list decoder" where
  "decode_items full D end_pos 0 buf =
     (if end_pos < length buf then Inl full else Inr ([], buf))"
| "decode_items full D end_pos (Suc room) buf =
     (if end_pos < length buf then
        (case D buf of
           Inl e \<Rightarrow> Inl e
         | Inr (x, rest) \<Rightarrow>
             (case decode_items full D end_pos room rest of
                Inl e \<Rightarrow> Inl e
              | Inr (xs, rest') \<Rightarrow> Inr (x # xs, rest')))
      else Inr ([], buf))"

text \<open>The items of a list after its header, which must end where the header says.\<close>

definition decode_sequence :: "rlp_error \<Rightarrow> 'a decoder \<Rightarrow> nat \<Rightarrow> usize \<Rightarrow> 'a list decoder" where
  "decode_sequence full D room payload_length buf =
     (case rlp_payload_end (length buf) payload_length of
        Inl e \<Rightarrow> Inl e
      | Inr end_pos \<Rightarrow>
          (case decode_items full D end_pos room buf of
             Inl e \<Rightarrow> Inl e
           | Inr (xs, rest) \<Rightarrow>
               if length rest \<noteq> end_pos
               then Inl (ListLengthMismatch payload_length (length buf - length rest))
               else Inr (xs, rest)))"

text \<open>A list header that must announce a list; the payload length.\<close>

definition decode_list_header :: "rlp_codec \<Rightarrow> usize decoder" where
  "decode_list_header R =
     dec_bind (header_decode R) (\<lambda>(is_list, payload_length).
       if is_list then dec_return payload_length else dec_fail UnexpectedString)"

section \<open>Addresses, hashes and signatures\<close>

definition address_encode :: "rlp_codec \<Rightarrow> address \<Rightarrow> u8 list" where
  "address_encode R a = slice_encode R (address_as_bytes a)"

definition address_length :: "rlp_codec \<Rightarrow> address \<Rightarrow> usize" where
  "address_length R a = slice_length R (address_as_bytes a)"

definition address_decode :: "rlp_codec \<Rightarrow> address decoder" where
  "address_decode R =
     dec_bind (array32_decode R) (\<lambda>bs. dec_return (Address (of_nat (be_nat bs))))"

definition hash_encode :: "rlp_codec \<Rightarrow> shell_hash \<Rightarrow> u8 list" where
  "hash_encode R h = slice_encode R (hash_as_bytes h)"

definition hash_length :: "rlp_codec \<Rightarrow> shell_hash \<Rightarrow> usize" where
  "hash_length R h = slice_length R (hash_as_bytes h)"

definition hash_decode :: "rlp_codec \<Rightarrow> shell_hash decoder" where
  "hash_decode R =
     dec_bind (array32_decode R) (\<lambda>bs. dec_return (ShellHash (of_nat (be_nat bs))))"

definition bytes_encode :: "rlp_codec \<Rightarrow> u8 list \<Rightarrow> u8 list" where
  "bytes_encode R bs = slice_encode R bs"

definition bytes_length :: "rlp_codec \<Rightarrow> u8 list \<Rightarrow> usize" where
  "bytes_length R bs = slice_length R bs"

definition bytes_decode :: "rlp_codec \<Rightarrow> u8 list decoder" where
  "bytes_decode R = decode_bytes R"

definition pq_signature_fields_len :: "rlp_codec \<Rightarrow> pq_signature \<Rightarrow> usize" where
  "pq_signature_fields_len R s = u8_length R (sig_type_as_u8 (sig_type s)) + slice_length R (sig_data s)"

definition pq_signature_encode :: "rlp_codec \<Rightarrow> pq_signature \<Rightarrow> u8 list" where
  "pq_signature_encode R s =
     list_header R (pq_signature_fields_len R s)
     @ u8_encode R (sig_type_as_u8 (sig_type s)) @ slice_encode R (sig_data s)"

definition pq_signature_length :: "rlp_codec \<Rightarrow> pq_signature \<Rightarrow> usize" where
  "pq_signature_length R s =
     (let payload = pq_signature_fields_len R s in list_header_length R payload + payload)"

text \<open>
  The fields are decoded from the declared payload only. The slices \<open>buf.get(..payload_length)\<close>
  are in range because \<open>Header::decode\<close> checks the length; where a codec does not, the source
  panics, the value \<open>None\<close> of \<open>payload_slice\<close>, shown here as the error \<open>CodecError 0\<close>.
\<close>

definition payload_slice :: "usize \<Rightarrow> u8 list \<Rightarrow> (u8 list \<times> u8 list) option" where
  "payload_slice n buf = (if n \<le> length buf then Some (take n buf, drop n buf) else None)"

definition pq_signature_decode :: "rlp_codec \<Rightarrow> pq_signature decoder" where
  "pq_signature_decode R =
     dec_bind (decode_list_header R) (\<lambda>payload_length buf.
       case payload_slice payload_length buf of
         None \<Rightarrow> Inl (CodecError 0)
       | Some (payload, rest) \<Rightarrow>
           (case u8_decode R payload of
              Inl e \<Rightarrow> Inl e
            | Inr (t, payload1) \<Rightarrow>
                (case sig_type_from_u8 t of
                   None \<Rightarrow> Inl (RlpCustom ''unknown signature type'')
                 | Some ty \<Rightarrow>
                     (case decode_bytes R payload1 of
                        Inl e \<Rightarrow> Inl e
                      | Inr (d, payload2) \<Rightarrow>
                          if payload2 \<noteq> [] then
                            Inl (ListLengthMismatch payload_length
                                   (payload_length - length payload2))
                          else let s = \<lparr>sig_type = ty, sig_data = d\<rparr> in
                            (case validate_size s of
                               Inl _ \<Rightarrow> Inl (RlpCustom ''signature exceeds size limit'')
                             | Inr _ \<Rightarrow> Inr (s, rest))))))"

text \<open>An optional address: empty bytes for \<open>None\<close>, 32 bytes for \<open>Some\<close>, else an error.\<close>

definition opt_address_encode :: "rlp_codec \<Rightarrow> address option \<Rightarrow> u8 list" where
  "opt_address_encode R a =
     (case a of Some addr \<Rightarrow> address_encode R addr | None \<Rightarrow> slice_encode R [])"

definition opt_address_length :: "rlp_codec \<Rightarrow> address option \<Rightarrow> usize" where
  "opt_address_length R a = (case a of Some addr \<Rightarrow> address_length R addr | None \<Rightarrow> 1)"

definition opt_address_decode :: "rlp_codec \<Rightarrow> string \<Rightarrow> string \<Rightarrow> address option decoder" where
  "opt_address_decode R bad_bytes bad_length =
     dec_bind (decode_bytes R) (\<lambda>raw.
       if raw = [] then dec_return None
       else if length raw = 32 then
         (case address_try_from_slice raw of
            Inl _ \<Rightarrow> dec_fail (RlpCustom bad_bytes)
          | Inr a \<Rightarrow> dec_return (Some a))
       else dec_fail (RlpCustom bad_length))"


section \<open>Round trips\<close>

named_theorems rlp_decodes \<open>decoding the encoding of a value gives the value back\<close>

lemma decodesI: "(\<And>rest. length e < usize_bound \<Longrightarrow> D (e @ rest) = Inr (x, rest)) \<Longrightarrow> decodes D e x"
  by (simp add: decodes_def)

lemma decodesD: "decodes D e x \<Longrightarrow> length e < usize_bound \<Longrightarrow> D (e @ rest) = Inr (x, rest)"
  by (simp add: decodes_def)

lemma decodes_return [rlp_decodes]: "decodes (dec_return x) [] x"
  by (simp add: decodes_def dec_return_def)

lemma decodes_bind:
  "decodes D e x \<Longrightarrow> decodes (K x) e' y \<Longrightarrow> decodes (dec_bind D K) (e @ e') y"
  by (simp add: decodes_def dec_bind_def)

lemma decodes_bind_return: "decodes D e x \<Longrightarrow> decodes (dec_bind D (\<lambda>v. dec_return (f v))) e (f x)"
  using decodes_bind [of D e x "\<lambda>v. dec_return (f v)" "[]" "f x"] by (simp add: decodes_return)

lemma decodes_bind_last:
  "decodes D e x \<Longrightarrow> K x = dec_return y \<Longrightarrow> decodes (dec_bind D K) e y"
  using decodes_bind [of D e x K "[]" y] by (simp add: decodes_return)

lemma decodes_inject:
  "decodes D e x \<Longrightarrow> decodes D e y \<Longrightarrow> length e < usize_bound \<Longrightarrow> x = y"
  by (simp add: decodes_def)

lemmas rlp_law_header = rlp_laws_def [THEN iffD1, THEN conjunct1, rule_format]

lemma rlp_lawsD:
  assumes "rlp_laws R"
  shows rlp_header_shape: "n < usize_bound \<Longrightarrow> list_header R n \<noteq> [] \<and> hd (list_header R n) AND 0xC0 = 0xC0"
    and rlp_header_short: "n < 56 \<Longrightarrow> list_header R n = [0xC0 + of_nat n]"
    and rlp_slice [rlp_decodes]: "decodes (decode_bytes R) (slice_encode R bs) bs"
    and rlp_array32: "length bs = 32 \<Longrightarrow> decodes (array32_decode R) (slice_encode R bs) bs"
    and rlp_slice_short: "1 < length bs \<Longrightarrow> length bs < 56 \<Longrightarrow>
      slice_encode R bs = (0x80 + of_nat (length bs)) # bs"
    and rlp_slice_empty: "slice_encode R [] = [0x80]"
    and rlp_u8 [rlp_decodes]: "decodes (u8_decode R) (u8_encode R a) a"
    and rlp_u64 [rlp_decodes]: "decodes (u64_decode R) (u64_encode R b) b"
    and rlp_u256 [rlp_decodes]: "decodes (u256_decode R) (u256_encode R c) c"
  using assms by (auto simp: rlp_laws_def)

lemma rlp_lengths:
  assumes "rlp_laws R"
  shows "list_header_length R n = length (list_header R n)"
    and "slice_length R bs = length (slice_encode R bs)"
    and "u8_length R a = length (u8_encode R a)"
    and "u64_length R b = length (u64_encode R b)"
    and "u256_length R c = length (u256_encode R c)"
  using assms by (auto simp: rlp_laws_def)

lemma decodes_address [rlp_decodes]:
  "rlp_laws R \<Longrightarrow> decodes (address_decode R) (address_encode R a) a"
  using address_try_from_slice_as_bytes [of a]
  by (auto simp: address_decode_def address_encode_def address_try_from_slice_def
      intro!: decodes_bind_last rlp_array32)

lemma decodes_hash [rlp_decodes]: "rlp_laws R \<Longrightarrow> decodes (hash_decode R) (hash_encode R h) h"
  using hash_try_from_slice_as_bytes [of h]
  by (auto simp: hash_decode_def hash_encode_def hash_try_from_slice_def
      intro!: decodes_bind_last rlp_array32)

lemma decodes_bytes [rlp_decodes]: "rlp_laws R \<Longrightarrow> decodes (bytes_decode R) (bytes_encode R bs) bs"
  by (simp add: bytes_decode_def bytes_encode_def rlp_slice)

lemma address_bytes_nonempty [simp]: "address_as_bytes a \<noteq> []"
  using length_address_as_bytes [of a] by (metis length_0_conv zero_neq_numeral)

lemma hash_bytes_nonempty [simp]: "hash_as_bytes h \<noteq> []"
  using length_hash_as_bytes [of h] by (metis length_0_conv zero_neq_numeral)

lemma decodes_opt_address [rlp_decodes]:
  "rlp_laws R \<Longrightarrow> decodes (opt_address_decode R m m') (opt_address_encode R a) a"
  unfolding opt_address_decode_def opt_address_encode_def
  by (cases a) (auto simp: address_encode_def address_try_from_slice_as_bytes
      intro!: decodes_bind_last rlp_slice)

lemma length_address_encode: "rlp_laws R \<Longrightarrow> length (address_encode R a) = 33"
  by (simp add: address_encode_def rlp_slice_short)

lemma length_hash_encode: "rlp_laws R \<Longrightarrow> length (hash_encode R h) = 33"
  by (simp add: hash_encode_def rlp_slice_short)

lemma rlp_item_lengths:
  assumes "rlp_laws R"
  shows "address_length R a = length (address_encode R a)"
    and "hash_length R h = length (hash_encode R h)"
    and "bytes_length R bs = length (bytes_encode R bs)"
    and "opt_address_length R oa = length (opt_address_encode R oa)"
  using rlp_lengths [OF assms] rlp_slice_empty [OF assms]
  by (auto simp: address_length_def address_encode_def hash_length_def hash_encode_def
      bytes_length_def bytes_encode_def opt_address_length_def opt_address_encode_def
      split: option.split)

text \<open>A list: the header announces the length of the fields.\<close>

lemma header_decode_payload:
  "rlp_laws R \<Longrightarrow> length p < usize_bound \<Longrightarrow>
     header_decode R (list_header R (length p) @ p @ rest) = Inr ((True, length p), p @ rest)"
  by (rule rlp_law_header) simp_all

lemma decodes_list_at:
  assumes R: "rlp_laws R"
    and body: "\<And>rest. length p < usize_bound \<Longrightarrow> body (length p) (length (p @ rest)) (p @ rest) = Inr (x, rest)"
  shows "decodes (decode_list R body) (list_header R (length p) @ p) x"
proof (rule decodesI)
  fix rest
  assume "length (list_header R (length p) @ p) < usize_bound"
  then have p: "length p < usize_bound" by simp
  from body [OF p, of rest] header_decode_payload [OF R p, of rest]
  show "decode_list R body ((list_header R (length p) @ p) @ rest) = Inr (x, rest)"
    by (simp add: decode_list_def dec_bind_def)
qed

lemma decodes_list:
  "rlp_laws R \<Longrightarrow> (\<And>n m. decodes (body n m) p x) \<Longrightarrow>
     decodes (decode_list R body) (list_header R (length p) @ p) x"
  by (rule decodes_list_at) (simp_all add: decodesD)

lemma decode_list_header_payload:
  "rlp_laws R \<Longrightarrow> length p < usize_bound \<Longrightarrow>
     decode_list_header R (list_header R (length p) @ p @ rest) = Inr (length p, p @ rest)"
  by (simp add: decode_list_header_def dec_bind_def header_decode_payload dec_return_def)

lemma decode_items_concat:
  assumes "length xs \<le> room" and "\<And>x. x \<in> set xs \<Longrightarrow> decodes D (E x) x"
    and "\<And>x. x \<in> set xs \<Longrightarrow> E x \<noteq> []" and "length (concat (map E xs)) < usize_bound"
  shows "decode_items full D (length rest) room (concat (map E xs) @ rest) = Inr (xs, rest)"
  using assms
proof (induction xs arbitrary: room)
  case Nil
  then show ?case by (cases room) simp_all
next
  case (Cons x xs)
  then obtain m where m: "room = Suc m" by (cases room) auto
  have "D (E x @ concat (map E xs) @ rest) = Inr (x, concat (map E xs) @ rest)"
    by (rule decodesD) (use Cons.prems in auto)
  moreover have "decode_items full D (length rest) m (concat (map E xs) @ rest) = Inr (xs, rest)"
    by (rule Cons.IH) (use Cons.prems m in auto)
  moreover have "E x \<noteq> []" using Cons.prems by simp
  ultimately show ?case by (simp add: m)
qed

lemma decode_sequence_concat:
  assumes "length xs \<le> room" and "\<And>x. x \<in> set xs \<Longrightarrow> decodes D (E x) x"
    and "\<And>x. x \<in> set xs \<Longrightarrow> E x \<noteq> []"
  shows "decodes (decode_sequence full D room (length (concat (map E xs)))) (concat (map E xs)) xs"
  by (rule decodesI)
     (use assms decode_items_concat [of xs room D E full] in
       \<open>simp add: decode_sequence_def rlp_payload_end_def\<close>)

lemma decodes_pq_signature [rlp_decodes]:
  assumes R: "rlp_laws R" and size: "validate_size s = Inr ()"
  shows "decodes (pq_signature_decode R) (pq_signature_encode R s) s"
proof (rule decodesI)
  fix rest
  let ?t = "u8_encode R (sig_type_as_u8 (sig_type s))" and ?d = "slice_encode R (sig_data s)"
  assume "length (pq_signature_encode R s) < usize_bound"
  then have len: "length (?t @ ?d) < usize_bound" by (simp add: pq_signature_encode_def)
  have enc: "pq_signature_encode R s = list_header R (length (?t @ ?d)) @ ?t @ ?d"
    by (simp add: pq_signature_encode_def pq_signature_fields_len_def rlp_lengths [OF R])
  have "u8_decode R (?t @ ?d) = Inr (sig_type_as_u8 (sig_type s), ?d)"
    by (rule decodesD [OF rlp_u8]) (use R len in auto)
  moreover have "decode_bytes R ?d = Inr (sig_data s, [])"
    using decodesD [OF rlp_slice, of R "sig_data s" "[]"] R len by simp
  moreover have "sig_type_from_u8 (sig_type_as_u8 (sig_type s)) = Some (sig_type s)"
    by (cases "sig_type s") (simp_all add: sig_type_from_u8_def)
  ultimately show "pq_signature_decode R (pq_signature_encode R s @ rest) = Inr (s, rest)"
    using decode_list_header_payload [OF R len, of rest] size enc
    by (cases s) (simp add: pq_signature_decode_def dec_bind_def payload_slice_def Let_def)
qed

lemma pq_signature_length_eq:
  "rlp_laws R \<Longrightarrow> pq_signature_length R s = length (pq_signature_encode R s)"
  by (simp add: pq_signature_length_def pq_signature_encode_def pq_signature_fields_len_def
      rlp_lengths Let_def)


section \<open>An instance of the format\<close>

text \<open>The recursive length prefix of the Ethereum yellow paper, to show that the laws can hold.\<close>

fun nat_be :: "nat \<Rightarrow> u8 list" where
  "nat_be n = (if n = 0 then [] else nat_be (n div 256) @ [of_nat (n mod 256)])"

declare nat_be.simps [simp del]

definition ref_header :: "u8 \<Rightarrow> nat \<Rightarrow> u8 list" where
  "ref_header base n =
     (if n < 56 then [base + of_nat n]
      else (base + 55 + of_nat (length (nat_be n))) # nat_be n)"

definition ref_long :: "bool \<Rightarrow> nat \<Rightarrow> u8 list \<Rightarrow> rlp_error + (bool \<times> nat) \<times> u8 list" where
  "ref_long l k buf =
     (let n = be_nat (take k buf); rest = drop k buf
      in if n \<le> length rest then Inr ((l, n), rest) else Inl InputTooShort)"

definition ref_short :: "bool \<Rightarrow> nat \<Rightarrow> u8 list \<Rightarrow> rlp_error + (bool \<times> nat) \<times> u8 list" where
  "ref_short l n rest = (if n \<le> length rest then Inr ((l, n), rest) else Inl InputTooShort)"

fun ref_header_decode :: "(bool \<times> usize) decoder" where
  "ref_header_decode [] = Inl InputTooShort"
| "ref_header_decode (b # buf) =
     (if b < 0x80 then Inr ((False, 1), b # buf)
      else if b < 0xB8 then ref_short False (unat b - 0x80) buf
      else if b < 0xC0 then ref_long False (unat b - 0xB7) buf
      else if b < 0xF8 then ref_short True (unat b - 0xC0) buf
      else ref_long True (unat b - 0xF7) buf)"

definition ref_slice :: "u8 list \<Rightarrow> u8 list" where
  "ref_slice bs = (if length bs = 1 \<and> hd bs < 0x80 then bs else ref_header 0x80 (length bs) @ bs)"

definition ref_decode_bytes :: "u8 list decoder" where
  "ref_decode_bytes buf =
     (case ref_header_decode buf of
        Inl e \<Rightarrow> Inl e
      | Inr ((l, n), rest) \<Rightarrow>
          if l then Inl (CodecError 1) else Inr (take n rest, drop n rest))"

definition ref_array32 :: "u8 list decoder" where
  "ref_array32 = dec_bind ref_decode_bytes (\<lambda>bs.
     if length bs = 32 then dec_return bs else dec_fail (CodecError 2))"

definition ref_word :: "'a::len word \<Rightarrow> u8 list" where
  "ref_word v = ref_slice (nat_be (unat v))"

definition ref_word_decode :: "'a::len word decoder" where
  "ref_word_decode = dec_bind ref_decode_bytes (\<lambda>bs. dec_return (of_nat (be_nat bs)))"

definition rlp_reference :: rlp_codec where
  "rlp_reference =
     \<lparr>list_header = ref_header 0xC0, list_header_length = length \<circ> ref_header 0xC0,
      header_decode = ref_header_decode,
      slice_encode = ref_slice, slice_length = length \<circ> ref_slice,
      decode_bytes = ref_decode_bytes, array32_decode = ref_array32,
      u8_encode = ref_word, u8_length = length \<circ> ref_word, u8_decode = ref_word_decode,
      u64_encode = ref_word, u64_length = length \<circ> ref_word, u64_decode = ref_word_decode,
      u256_encode = ref_word, u256_length = length \<circ> ref_word, u256_decode = ref_word_decode\<rparr>"

lemma be_nat_snoc: "be_nat (bs @ [b]) = 256 * be_nat bs + unat b"
  by (simp add: be_nat_def)

lemma be_nat_nat_be: "be_nat (nat_be n) = n"
proof (induction n rule: nat_be.induct)
  case (1 n)
  show ?case
  proof (cases "n = 0")
    case True
    then show ?thesis by (simp add: nat_be.simps [of 0] be_nat_def)
  next
    case False
    have "unat (of_nat (n mod 256) :: u8) = n mod 256"
      by (simp add: unat_of_nat)
    then show ?thesis using 1 False by (simp add: nat_be.simps [of n] be_nat_snoc)
  qed
qed

lemma length_nat_be: "n < 256 ^ k \<Longrightarrow> length (nat_be n) \<le> k"
proof (induction k arbitrary: n)
  case 0
  then show ?case by (simp add: nat_be.simps)
next
  case (Suc k)
  then have "n div 256 < 256 ^ k" by (simp add: less_mult_imp_div_less mult.commute)
  then have "length (nat_be (n div 256)) \<le> k" by (rule Suc.IH)
  then show ?case by (simp add: nat_be.simps [of n])
qed

lemma nat_be_nonempty: "0 < n \<Longrightarrow> nat_be n \<noteq> []"
  by (simp add: nat_be.simps [of n])

text \<open>The first byte of a header, as a number.\<close>

lemma unat_base:
  "base \<in> {0x80, 0xC0} \<Longrightarrow> k < 64 \<Longrightarrow> unat (base + of_nat k :: u8) = unat base + k"
  by (auto simp: unat_word_ariths unat_of_nat)

lemma ref_header_cases:
  assumes "n < usize_bound"
  obtains "n < 56" "ref_header base n = [base + of_nat n]"
  | k where "1 \<le> k" "k \<le> 8" "length (nat_be n) = k" "56 \<le> n"
      "ref_header base n = (base + of_nat (55 + k)) # nat_be n"
proof (cases "n < 56")
  case True
  then show ?thesis using that(1) by (simp add: ref_header_def)
next
  case False
  have "n < 256 ^ 8" using assms by (simp add: usize_bound_def)
  then have "length (nat_be n) \<le> 8" by (rule length_nat_be)
  moreover have "nat_be n \<noteq> []" using nat_be_nonempty False by simp
  ultimately show ?thesis
    using that(2) [of "length (nat_be n)"] False
    by (simp add: ref_header_def Suc_le_eq ac_simps)
qed

lemma ref_header_decode:
  assumes n: "n < usize_bound" and rest: "n \<le> length rest" and base: "base \<in> {0x80, 0xC0}"
  shows "ref_header_decode (ref_header base n @ rest) = Inr ((base = 0xC0, n), rest)"
  using n
proof (cases rule: ref_header_cases [where base = base])
  case 1
  then show ?thesis
    using base rest unat_base [of base n]
    by (auto simp: word_less_nat_alt ref_short_def)
next
  case (2 k)
  then have "unat (base + of_nat (55 + k)) = unat base + (55 + k)"
    using base by (intro unat_base) auto
  then show ?thesis
    using base rest 2
    by (auto simp: word_less_nat_alt ref_long_def be_nat_nat_be Let_def)
qed

lemma decodes_ref_slice: "decodes ref_decode_bytes (ref_slice bs) bs"
proof (rule decodesI)
  fix rest
  assume len: "length (ref_slice bs) < usize_bound"
  show "ref_decode_bytes (ref_slice bs @ rest) = Inr (bs, rest)"
  proof (cases "length bs = 1 \<and> hd bs < 0x80")
    case True
    then obtain b where "bs = [b]" "b < 0x80" by (cases bs) auto
    then show ?thesis by (simp add: ref_slice_def ref_decode_bytes_def)
  next
    case False
    have "length bs < usize_bound"
      using len by (simp only: ref_slice_def False if_False length_append)
    then have "ref_header_decode (ref_header 0x80 (length bs) @ bs @ rest)
        = Inr ((False, length bs), bs @ rest)"
      by (subst ref_header_decode) auto
    moreover have "ref_slice bs = ref_header 0x80 (length bs) @ bs"
      by (simp only: ref_slice_def False if_False)
    ultimately show ?thesis by (simp add: ref_decode_bytes_def)
  qed
qed

lemma decodes_ref_word: "decodes ref_word_decode (ref_word v) v"
  unfolding ref_word_decode_def ref_word_def
  by (rule decodes_bind_last [OF decodes_ref_slice]) (simp add: be_nat_nat_be)

lemma ref_header_shape:
  assumes "n < usize_bound"
  shows "ref_header 0xC0 n \<noteq> [] \<and> hd (ref_header 0xC0 n) AND 0xC0 = (0xC0 :: u8)"
proof -
  have "\<forall>k\<in>set [0..<64]. (0xC0 + of_nat k) AND 0xC0 = (0xC0 :: u8)" by code_simp
  then have high: "k < 64 \<Longrightarrow> (0xC0 + of_nat k) AND 0xC0 = (0xC0 :: u8)" for k by simp
  show ?thesis
    using assms
    by (cases rule: ref_header_cases [where base = "0xC0"]) (simp_all add: high del: of_nat_add)
qed

lemma ref_slice_short:
  "1 < length bs \<Longrightarrow> length bs < 56 \<Longrightarrow> ref_slice bs = (0x80 + of_nat (length bs)) # bs"
  by (simp add: ref_slice_def ref_header_def)

lemma decodes_ref_array32: "length bs = 32 \<Longrightarrow> decodes ref_array32 (ref_slice bs) bs"
  unfolding ref_array32_def by (rule decodes_bind_last [OF decodes_ref_slice]) simp

lemma rlp_reference_laws: "rlp_laws rlp_reference"
  unfolding rlp_laws_def rlp_reference_def
  using ref_header_decode [of _ _ "0xC0"] ref_header_shape
  by (simp add: decodes_ref_slice decodes_ref_word decodes_ref_array32)
     (simp add: ref_slice_short, simp add: ref_header_def ref_slice_def)

end
