(* ===== verification/Transaction.thy ===== *)
theory Transaction
  imports Rlp Fee
begin

text \<open>
  \<open>crates/core/src/transaction.rs\<close>: transactions, account-abstraction bundles and signed
  transactions; their structural validation, gas and value sums; the wire format with its decoders;
  the signing hashes and the transaction identifier; the JSON form up to the text layer.
  The hash function BLAKE3 and the RLP crate are arguments. The lazily filled cache of the
  identifier is left out: \<open>hash\<close> returns what the cache is filled with.

  The theorems: decoding an encoded transaction gives it back, up to the representations the format
  cannot tell apart; the announced lengths are the lengths of the encodings; what a transaction
  that passes validation satisfies; what a signature over a transaction binds, and which different
  transactions share one signing hash.
\<close>

section \<open>Transactions\<close>

record access_list_item =
  ali_address :: address
  ali_storage_keys :: "shell_hash list"

abbreviation (input) MAX_BLOB_HASHES_PER_TX :: usize where
  "MAX_BLOB_HASHES_PER_TX \<equiv> 6"

abbreviation (input) BLOB_VERSIONED_HASH_VERSION_KZG :: u8 where
  "BLOB_VERSIONED_HASH_VERSION_KZG \<equiv> 1"

abbreviation (input) MAX_ACCESS_LIST_ENTRIES :: usize where
  "MAX_ACCESS_LIST_ENTRIES \<equiv> 256"

abbreviation (input) MAX_ACCESS_LIST_STORAGE_KEYS :: usize where
  "MAX_ACCESS_LIST_STORAGE_KEYS \<equiv> 512"

record transaction =
  tx_chain_id :: u64
  tx_nonce :: u64
  tx_to :: "address option"
  tx_value :: u256
  tx_data :: "u8 list"
  tx_gas_limit :: u64
  tx_max_fee_per_gas :: u64
  tx_max_priority_fee_per_gas :: u64
  tx_access_list :: "access_list_item list option"
  tx_type :: u8
  tx_max_fee_per_blob_gas :: "u64 option"
  tx_blob_versioned_hashes :: "shell_hash list option"

definition blob_gas :: "transaction \<Rightarrow> u64" where
  "blob_gas tx =
     (case tx_blob_versioned_hashes tx of
        Some hashes \<Rightarrow> sat_mul (of_nat (length hashes)) BLOB_GAS_PER_BLOB
      | None \<Rightarrow> 0)"

definition is_contract_creation :: "transaction \<Rightarrow> bool" where
  "is_contract_creation tx = (tx_to tx = None)"

fun access_list_keys_ok :: "access_list_item list \<Rightarrow> string + unit" where
  "access_list_keys_ok [] = Inr ()"
| "access_list_keys_ok (item # items) =
     (if MAX_ACCESS_LIST_STORAGE_KEYS < length (ali_storage_keys item)
      then Inl ''access list entry exceeds maximum storage key count''
      else access_list_keys_ok items)"

definition validate_access_list :: "transaction \<Rightarrow> string + unit" where
  "validate_access_list tx =
     (case tx_access_list tx of
        None \<Rightarrow> Inr ()
      | Some items \<Rightarrow>
          if MAX_ACCESS_LIST_ENTRIES < length items
          then Inl ''access list exceeds maximum entry count''
          else access_list_keys_ok items)"

definition validate_blob_tx :: "transaction \<Rightarrow> string + unit" where
  "validate_blob_tx tx =
     (if tx_type tx \<noteq> 3 then
        (if tx_max_fee_per_blob_gas tx \<noteq> None
         then Inl ''non-blob tx cannot have max_fee_per_blob_gas''
         else if tx_blob_versioned_hashes tx \<noteq> None
         then Inl ''non-blob tx cannot have blob_versioned_hashes''
         else Inr ())
      else
        (case tx_blob_versioned_hashes tx of
           None \<Rightarrow> Inl ''blob tx (type 3) must have blob_versioned_hashes''
         | Some hashes \<Rightarrow>
             if hashes = [] then Inl ''blob tx must have at least 1 blob hash''
             else if MAX_BLOB_HASHES_PER_TX < length hashes
             then Inl ''blob tx exceeds maximum blob hash count (6)''
             else if tx_max_fee_per_blob_gas tx = None
             then Inl ''blob tx must have max_fee_per_blob_gas''
             else if tx_to tx = None then Inl ''blob tx cannot be a contract creation''
             else if list_ex (\<lambda>h. hash_as_bytes h ! 0 \<noteq> BLOB_VERSIONED_HASH_VERSION_KZG) hashes
             then Inl ''blob tx has unsupported versioned hash version''
             else Inr ()))"

section \<open>The wire format of a transaction\<close>

abbreviation (input) item_keys_payload :: "rlp_codec \<Rightarrow> access_list_item \<Rightarrow> usize" where
  "item_keys_payload R item \<equiv> sum_list (map (hash_length R) (ali_storage_keys item))"

definition item_entry_payload :: "rlp_codec \<Rightarrow> access_list_item \<Rightarrow> usize" where
  "item_entry_payload R item =
     (let keys_payload = item_keys_payload R item;
          keys_list_len = list_header_length R keys_payload + keys_payload
      in address_length R (ali_address item) + keys_list_len)"

definition item_length :: "rlp_codec \<Rightarrow> access_list_item \<Rightarrow> usize" where
  "item_length R item =
     (let entry_payload = item_entry_payload R item
      in list_header_length R entry_payload + entry_payload)"

definition item_encode :: "rlp_codec \<Rightarrow> access_list_item \<Rightarrow> u8 list" where
  "item_encode R item =
     list_header R (item_entry_payload R item)
     @ address_encode R (ali_address item)
     @ list_header R (item_keys_payload R item)
     @ concat (map (hash_encode R) (ali_storage_keys item))"

definition encode_access_list :: "rlp_codec \<Rightarrow> access_list_item list option \<Rightarrow> u8 list" where
  "encode_access_list R al =
     (case al of
        None \<Rightarrow> list_header R 0
      | Some items \<Rightarrow>
          list_header R (sum_list (map (item_length R) items)) @ concat (map (item_encode R) items))"

definition access_list_rlp_len :: "rlp_codec \<Rightarrow> access_list_item list option \<Rightarrow> usize" where
  "access_list_rlp_len R al =
     (case al of
        None \<Rightarrow> list_header_length R 0
      | Some items \<Rightarrow>
          (let payload = sum_list (map (item_length R) items)
           in list_header_length R payload + payload))"

definition encode_blob_hashes :: "rlp_codec \<Rightarrow> shell_hash list option \<Rightarrow> u8 list" where
  "encode_blob_hashes R bh =
     (case bh of
        None \<Rightarrow> list_header R 0
      | Some hashes \<Rightarrow>
          list_header R (sum_list (map (hash_length R) hashes)) @ concat (map (hash_encode R) hashes))"

definition blob_hashes_rlp_len :: "rlp_codec \<Rightarrow> shell_hash list option \<Rightarrow> usize" where
  "blob_hashes_rlp_len R bh =
     (case bh of
        None \<Rightarrow> list_header_length R 0
      | Some hashes \<Rightarrow>
          (let payload = sum_list (map (hash_length R) hashes)
           in list_header_length R payload + payload))"

definition transaction_fields_len :: "rlp_codec \<Rightarrow> transaction \<Rightarrow> usize" where
  "transaction_fields_len R tx =
     (let blob_fee_len =
        (case tx_max_fee_per_blob_gas tx of
           Some fee \<Rightarrow> u8_length R 1 + u64_length R fee
         | None \<Rightarrow> u8_length R 0 + u64_length R 0)
      in u64_length R (tx_chain_id tx) + u64_length R (tx_nonce tx)
         + opt_address_length R (tx_to tx) + u256_length R (tx_value tx)
         + bytes_length R (tx_data tx) + u64_length R (tx_gas_limit tx)
         + u64_length R (tx_max_fee_per_gas tx) + u64_length R (tx_max_priority_fee_per_gas tx)
         + access_list_rlp_len R (tx_access_list tx) + u8_length R (tx_type tx)
         + blob_fee_len + blob_hashes_rlp_len R (tx_blob_versioned_hashes tx))"

definition blob_fee_encode :: "rlp_codec \<Rightarrow> u64 option \<Rightarrow> u8 list" where
  "blob_fee_encode R fee =
     (case fee of
        Some f \<Rightarrow> u8_encode R 1 @ u64_encode R f
      | None \<Rightarrow> u8_encode R 0 @ u64_encode R 0)"

definition transaction_encode :: "rlp_codec \<Rightarrow> transaction \<Rightarrow> u8 list" where
  "transaction_encode R tx =
     list_header R (transaction_fields_len R tx)
     @ u64_encode R (tx_chain_id tx) @ u64_encode R (tx_nonce tx)
     @ opt_address_encode R (tx_to tx) @ u256_encode R (tx_value tx)
     @ bytes_encode R (tx_data tx) @ u64_encode R (tx_gas_limit tx)
     @ u64_encode R (tx_max_fee_per_gas tx) @ u64_encode R (tx_max_priority_fee_per_gas tx)
     @ encode_access_list R (tx_access_list tx) @ u8_encode R (tx_type tx)
     @ blob_fee_encode R (tx_max_fee_per_blob_gas tx)
     @ encode_blob_hashes R (tx_blob_versioned_hashes tx)"

definition transaction_length :: "rlp_codec \<Rightarrow> transaction \<Rightarrow> usize" where
  "transaction_length R tx =
     (let payload = transaction_fields_len R tx in list_header_length R payload + payload)"

text \<open>One entry of the access list: the loop over the storage keys stops at the end of the keys,
  and only the end of the entry is compared.\<close>

definition item_decode :: "rlp_codec \<Rightarrow> access_list_item decoder" where
  "item_decode R =
     dec_bind (decode_list_header R) (\<lambda>entry_payload buf.
       case rlp_payload_end (length buf) entry_payload of
         Inl e \<Rightarrow> Inl e
       | Inr entry_end \<Rightarrow>
           dec_bind (address_decode R) (\<lambda>addr.
           dec_bind (decode_list_header R) (\<lambda>keys_payload buf1.
             case rlp_payload_end (length buf1) keys_payload of
               Inl e \<Rightarrow> Inl e
             | Inr keys_end \<Rightarrow>
                 (case decode_items
                     (RlpCustom ''access list entry exceeds maximum storage key count'')
                     (hash_decode R) keys_end MAX_ACCESS_LIST_STORAGE_KEYS buf1 of
                    Inl e \<Rightarrow> Inl e
                  | Inr (keys, rest) \<Rightarrow>
                      if length rest \<noteq> entry_end
                      then Inl (ListLengthMismatch entry_payload (length buf - length rest))
                      else Inr (\<lparr>ali_address = addr, ali_storage_keys = keys\<rparr>, rest)))) buf)"

definition decode_access_list :: "rlp_codec \<Rightarrow> access_list_item list option decoder" where
  "decode_access_list R =
     dec_bind (decode_list_header R) (\<lambda>payload_length.
       if payload_length = 0 then dec_return None
       else dec_bind
         (decode_sequence (RlpCustom ''access list exceeds maximum entry count'')
            (item_decode R) MAX_ACCESS_LIST_ENTRIES payload_length)
         (\<lambda>items. dec_return (Some items)))"

definition decode_blob_hashes :: "rlp_codec \<Rightarrow> shell_hash list option decoder" where
  "decode_blob_hashes R =
     dec_bind (decode_list_header R) (\<lambda>payload_length.
       if payload_length = 0 then dec_return None
       else dec_bind
         (decode_sequence (RlpCustom ''blob transaction exceeds maximum blob hash count'')
            (hash_decode R) MAX_BLOB_HASHES_PER_TX payload_length)
         (\<lambda>hashes. dec_return (Some hashes)))"

definition blob_fee_decode :: "rlp_codec \<Rightarrow> u64 option decoder" where
  "blob_fee_decode R =
     dec_bind (u8_decode R) (\<lambda>flag. dec_bind (u64_decode R) (\<lambda>fee.
       if flag = 0 then dec_return None
       else if flag = 1 then dec_return (Some fee)
       else dec_fail (RlpCustom ''invalid max_fee_per_blob_gas presence flag'')))"

definition transaction_decode :: "rlp_codec \<Rightarrow> transaction decoder" where
  "transaction_decode R = decode_list R (\<lambda>_ _.
     dec_bind (u64_decode R) (\<lambda>chain_id.
     dec_bind (u64_decode R) (\<lambda>nonce.
     dec_bind (opt_address_decode R ''invalid 'to' address bytes''
                 ''invalid 'to' address length: expected 32 bytes or empty'') (\<lambda>to.
     dec_bind (u256_decode R) (\<lambda>value.
     dec_bind (bytes_decode R) (\<lambda>data.
     dec_bind (u64_decode R) (\<lambda>gas_limit.
     dec_bind (u64_decode R) (\<lambda>max_fee.
     dec_bind (u64_decode R) (\<lambda>max_priority.
     dec_bind (decode_access_list R) (\<lambda>access_list.
     dec_bind (u8_decode R) (\<lambda>ty.
     dec_bind (blob_fee_decode R) (\<lambda>blob_fee.
     dec_bind (decode_blob_hashes R) (\<lambda>hashes.
       dec_return
         \<lparr>tx_chain_id = chain_id, tx_nonce = nonce, tx_to = to, tx_value = value,
          tx_data = data, tx_gas_limit = gas_limit, tx_max_fee_per_gas = max_fee,
          tx_max_priority_fee_per_gas = max_priority, tx_access_list = access_list,
          tx_type = ty, tx_max_fee_per_blob_gas = blob_fee,
          tx_blob_versioned_hashes = hashes\<rparr>)))))))))))))"

section \<open>Signing hashes of a transaction\<close>

abbreviation (input) PQTX_SIGNING_DOMAIN :: "u8 list" where
  "PQTX_SIGNING_DOMAIN \<equiv> ascii ''PQTX_SIGNING_V2'' @ [0]"

abbreviation (input) PQTX_BUNDLE_DOMAIN :: "u8 list" where
  "PQTX_BUNDLE_DOMAIN \<equiv> ascii ''PQTX_BUNDLE_V1'' @ [0, 0]"

abbreviation (input) PQTX_PAYMASTER_DOMAIN :: "u8 list" where
  "PQTX_PAYMASTER_DOMAIN \<equiv> ascii ''PQTX_PAYMASTER_V''"

abbreviation (input) PQTX_ID_DOMAIN :: "u8 list" where
  "PQTX_ID_DOMAIN \<equiv> ascii ''PQTX_IDENTITY_V1''"

abbreviation (input) PQTX_SESSION_DOMAIN :: "u8 list" where
  "PQTX_SESSION_DOMAIN \<equiv> ascii ''PQTX_SESSION_V2'' @ [0]"

abbreviation (input) recipient_bytes :: "address option \<Rightarrow> u8 list" where
  "recipient_bytes a \<equiv>
     (case a of Some addr \<Rightarrow> address_as_bytes addr | None \<Rightarrow> replicate 32 0)"

definition blob_signing_bytes :: "transaction \<Rightarrow> u8 list" where
  "blob_signing_bytes tx =
     (if tx_type tx = 3 then
        be_bytes 8 (case tx_max_fee_per_blob_gas tx of Some fee \<Rightarrow> fee | None \<Rightarrow> 0)
        @ (case tx_blob_versioned_hashes tx of
             Some hashes \<Rightarrow> concat (map hash_as_bytes hashes)
           | None \<Rightarrow> [])
      else [])"

definition signing_preimage :: "rlp_codec \<Rightarrow> transaction \<Rightarrow> u8 \<Rightarrow> u8 list" where
  "signing_preimage R tx sig_ty =
     PQTX_SIGNING_DOMAIN
     @ be_bytes 8 (tx_chain_id tx)
     @ be_bytes 8 (tx_nonce tx)
     @ recipient_bytes (tx_to tx)
     @ be_bytes 32 (tx_value tx)
     @ tx_data tx
     @ be_bytes 8 (tx_gas_limit tx)
     @ be_bytes 8 (tx_max_fee_per_gas tx)
     @ be_bytes 8 (tx_max_priority_fee_per_gas tx)
     @ encode_access_list R (tx_access_list tx)
     @ [sig_ty, tx_type tx]
     @ blob_signing_bytes tx"

definition signing_hash ::
    "(u8 list \<Rightarrow> shell_hash) \<Rightarrow> rlp_codec \<Rightarrow> transaction \<Rightarrow> u8 \<Rightarrow> shell_hash" where
  "signing_hash blake3 R tx sig_ty = blake3 (signing_preimage R tx sig_ty)"

section \<open>Account-abstraction bundles\<close>

abbreviation (input) AA_BUNDLE_TX_TYPE :: u8 where
  "AA_BUNDLE_TX_TYPE \<equiv> 0x7E"

abbreviation (input) MAX_INNER_CALLS :: usize where
  "MAX_INNER_CALLS \<equiv> 16"

abbreviation (input) MAX_INNER_CALLDATA :: usize where
  "MAX_INNER_CALLDATA \<equiv> 131072"

abbreviation (input) MAX_PAYMASTER_CONTEXT :: usize where
  "MAX_PAYMASTER_CONTEXT \<equiv> 4096"

abbreviation (input) MAX_SESSION_PUBKEY :: usize where
  "MAX_SESSION_PUBKEY \<equiv> 4096"

abbreviation (input) AA_INNER_CALL_INTRINSIC_GAS :: u64 where
  "AA_INNER_CALL_INTRINSIC_GAS \<equiv> 4000"

abbreviation (input) PQ_VERIFY_GAS :: u64 where
  "PQ_VERIFY_GAS \<equiv> 10000"

record session_auth =
  sa_session_pubkey :: "u8 list"
  sa_session_algo :: u8
  sa_target :: "address option"
  sa_value_cap :: u256
  sa_expiry_block :: u64
  sa_root_signature :: "u8 list"
  sa_session_signature :: "u8 list"

record inner_call =
  ic_to :: "address option"
  ic_value :: u256
  ic_data :: "u8 list"
  ic_gas_limit :: u64

record aa_bundle =
  ab_inner_calls :: "inner_call list"
  ab_paymaster :: "address option"
  ab_paymaster_signature :: "u8 list option"
  ab_paymaster_context :: "u8 list option"
  ab_session_auth :: "session_auth option"

definition session_auth_preimage :: "session_auth \<Rightarrow> u64 \<Rightarrow> u8 list" where
  "session_auth_preimage sa chain_id =
     PQTX_SESSION_DOMAIN @ sa_session_pubkey sa @ [sa_session_algo sa]
     @ (case sa_target sa of
          Some addr \<Rightarrow> 1 # address_as_bytes addr
        | None \<Rightarrow> 0 # replicate 32 0)
     @ be_bytes 32 (sa_value_cap sa) @ be_bytes 8 (sa_expiry_block sa) @ be_bytes 8 chain_id"

definition auth_hash :: "(u8 list \<Rightarrow> shell_hash) \<Rightarrow> session_auth \<Rightarrow> u64 \<Rightarrow> shell_hash" where
  "auth_hash blake3 sa chain_id = blake3 (session_auth_preimage sa chain_id)"

text \<open>The big-endian bytes of a value without leading zeros; one zero byte for zero.\<close>

definition trimmed_value :: "u256 \<Rightarrow> u8 list" where
  "trimmed_value v =
     (let value_buf = be_bytes 32 v; rest = dropWhile (\<lambda>b. b = 0) value_buf
      in if rest = [] then drop 31 value_buf else rest)"

definition session_signing_fields_len :: "rlp_codec \<Rightarrow> session_auth \<Rightarrow> usize" where
  "session_signing_fields_len R sa =
     slice_length R (sa_session_pubkey sa) + u64_length R (ucast (sa_session_algo sa))
     + opt_address_length R (sa_target sa) + slice_length R (trimmed_value (sa_value_cap sa))
     + u64_length R (sa_expiry_block sa)"

definition session_scope_encode :: "rlp_codec \<Rightarrow> session_auth \<Rightarrow> u8 list" where
  "session_scope_encode R sa =
     slice_encode R (sa_session_pubkey sa) @ u64_encode R (ucast (sa_session_algo sa))
     @ opt_address_encode R (sa_target sa) @ slice_encode R (trimmed_value (sa_value_cap sa))
     @ u64_encode R (sa_expiry_block sa)"

definition session_encode_for_signing :: "rlp_codec \<Rightarrow> session_auth \<Rightarrow> u8 list" where
  "session_encode_for_signing R sa =
     list_header R (session_signing_fields_len R sa) @ session_scope_encode R sa"

definition session_signing_length :: "rlp_codec \<Rightarrow> session_auth \<Rightarrow> usize" where
  "session_signing_length R sa =
     (let payload = session_signing_fields_len R sa in list_header_length R payload + payload)"

definition session_fields_len :: "rlp_codec \<Rightarrow> session_auth \<Rightarrow> usize" where
  "session_fields_len R sa =
     slice_length R (sa_session_pubkey sa) + u64_length R (ucast (sa_session_algo sa))
     + opt_address_length R (sa_target sa) + slice_length R (trimmed_value (sa_value_cap sa))
     + u64_length R (sa_expiry_block sa) + slice_length R (sa_root_signature sa)
     + slice_length R (sa_session_signature sa)"

definition session_encode :: "rlp_codec \<Rightarrow> session_auth \<Rightarrow> u8 list" where
  "session_encode R sa =
     list_header R (session_fields_len R sa) @ session_scope_encode R sa
     @ slice_encode R (sa_root_signature sa) @ slice_encode R (sa_session_signature sa)"

definition session_length :: "rlp_codec \<Rightarrow> session_auth \<Rightarrow> usize" where
  "session_length R sa =
     (let payload = session_fields_len R sa in list_header_length R payload + payload)"

text \<open>A byte string with an upper bound on its length.\<close>

definition bounded_bytes_decode :: "rlp_codec \<Rightarrow> usize \<Rightarrow> string \<Rightarrow> u8 list decoder" where
  "bounded_bytes_decode R limit msg =
     dec_bind (decode_bytes R) (\<lambda>raw.
       if limit < length raw then dec_fail (RlpCustom msg) else dec_return raw)"

definition session_algo_decode :: "rlp_codec \<Rightarrow> u8 decoder" where
  "session_algo_decode R =
     dec_bind (u64_decode R) (\<lambda>v.
       if (255 :: u64) < v
       then dec_fail (RlpCustom ''session_auth: session_algo out of range (must fit u8)'')
       else dec_return (ucast v))"

definition value_cap_decode :: "rlp_codec \<Rightarrow> u256 decoder" where
  "value_cap_decode R =
     dec_bind (decode_bytes R) (\<lambda>bs.
       if 32 < length bs then dec_fail (RlpCustom ''session_auth: value_cap exceeds 32 bytes'')
       else if bs = [] \<or> (1 < length bs \<and> bs ! 0 = 0)
       then dec_fail (RlpCustom ''session_auth: value_cap must use minimal big-endian encoding'')
       else dec_return (of_nat (be_nat bs)))"

definition session_decode :: "rlp_codec \<Rightarrow> session_auth decoder" where
  "session_decode R = decode_list R (\<lambda>_ _.
     dec_bind (bounded_bytes_decode R MAX_SESSION_PUBKEY
                 ''session_auth: session_pubkey exceeds size limit'') (\<lambda>pubkey.
     dec_bind (session_algo_decode R) (\<lambda>algo.
     dec_bind (opt_address_decode R ''''
                 ''session_auth: invalid target address length: expected 32 bytes or empty'') (\<lambda>target.
     dec_bind (value_cap_decode R) (\<lambda>value_cap.
     dec_bind (u64_decode R) (\<lambda>expiry.
     dec_bind (bounded_bytes_decode R MAX_SIGNATURE_BYTES
                 ''session_auth: root_signature exceeds size limit'') (\<lambda>root_sig.
     dec_bind (bounded_bytes_decode R MAX_SIGNATURE_BYTES
                 ''session_auth: session_signature exceeds size limit'') (\<lambda>session_sig.
       dec_return
         \<lparr>sa_session_pubkey = pubkey, sa_session_algo = algo, sa_target = target,
          sa_value_cap = value_cap, sa_expiry_block = expiry,
          sa_root_signature = root_sig, sa_session_signature = session_sig\<rparr>))))))))"

definition inner_call_fields_len :: "rlp_codec \<Rightarrow> inner_call \<Rightarrow> usize" where
  "inner_call_fields_len R c =
     opt_address_length R (ic_to c) + u256_length R (ic_value c) + bytes_length R (ic_data c)
     + u64_length R (ic_gas_limit c)"

definition inner_call_encode :: "rlp_codec \<Rightarrow> inner_call \<Rightarrow> u8 list" where
  "inner_call_encode R c =
     list_header R (inner_call_fields_len R c)
     @ opt_address_encode R (ic_to c) @ u256_encode R (ic_value c) @ bytes_encode R (ic_data c)
     @ u64_encode R (ic_gas_limit c)"

definition inner_call_length :: "rlp_codec \<Rightarrow> inner_call \<Rightarrow> usize" where
  "inner_call_length R c =
     (let payload = inner_call_fields_len R c in list_header_length R payload + payload)"

definition inner_call_decode :: "rlp_codec \<Rightarrow> inner_call decoder" where
  "inner_call_decode R = decode_list R (\<lambda>_ _.
     dec_bind (opt_address_decode R ''invalid 'to' address bytes''
                 ''invalid 'to' address length: expected 32 bytes or empty'') (\<lambda>to.
     dec_bind (u256_decode R) (\<lambda>value.
     dec_bind (bytes_decode R) (\<lambda>data.
       if MAX_INNER_CALLDATA < length data
       then dec_fail (RlpCustom ''inner call data exceeds size limit'')
       else dec_bind (u64_decode R) (\<lambda>gas_limit.
         dec_return \<lparr>ic_to = to, ic_value = value, ic_data = data, ic_gas_limit = gas_limit\<rparr>)))))"

definition encode_inner_calls :: "rlp_codec \<Rightarrow> aa_bundle \<Rightarrow> u8 list" where
  "encode_inner_calls R b =
     list_header R (sum_list (map (inner_call_length R) (ab_inner_calls b)))
     @ concat (map (inner_call_encode R) (ab_inner_calls b))"

fun session_structure :: "session_auth option \<Rightarrow> string + unit" where
  "session_structure None = Inr ()"
| "session_structure (Some sa) =
     (if sa_session_pubkey sa = [] then Inl ''aa bundle: session_auth.session_pubkey is empty''
      else if MAX_SESSION_PUBKEY < length (sa_session_pubkey sa)
      then Inl ''aa bundle: session_auth.session_pubkey exceeds size limit''
      else if sa_expiry_block sa = 0
      then Inl ''aa bundle: session_auth.expiry_block must be > 0''
      else if sa_root_signature sa = []
      then Inl ''aa bundle: session_auth.root_signature is empty''
      else if MAX_SIGNATURE_BYTES < length (sa_root_signature sa)
      then Inl ''aa bundle: session_auth.root_signature exceeds size limit''
      else if sa_session_signature sa = []
      then Inl ''aa bundle: session_auth.session_signature is empty''
      else if MAX_SIGNATURE_BYTES < length (sa_session_signature sa)
      then Inl ''aa bundle: session_auth.session_signature exceeds size limit''
      else Inr ())"

text \<open>The dispatch on paymaster, signature and context.\<close>

definition paymaster_structure ::
    "address option \<Rightarrow> u8 list option \<Rightarrow> u8 list option \<Rightarrow> string + unit" where
  "paymaster_structure paymaster signature ctx =
     (case (paymaster, signature, ctx) of
        (None, None, None) \<Rightarrow> Inr ()
      | (Some _, Some sig, None) \<Rightarrow>
          if sig \<noteq> [] then Inr ()
          else Inl ''aa bundle: paymaster set but signature missing/empty''
      | (Some _, None, Some c) \<Rightarrow>
          if c \<noteq> [] then
            (if MAX_PAYMASTER_CONTEXT < length c
             then Inl ''aa bundle: paymaster_context exceeds MAX_PAYMASTER_CONTEXT''
             else Inr ())
          else Inl ''aa bundle: invalid paymaster field combination''
      | (Some _, None, None) \<Rightarrow> Inl ''aa bundle: paymaster set but signature missing/empty''
      | (Some _, Some _, Some _) \<Rightarrow>
          Inl ''aa bundle: paymaster_signature and paymaster_context are mutually exclusive''
      | (None, Some _, _) \<Rightarrow> Inl ''aa bundle: paymaster_signature set but paymaster missing''
      | (None, None, Some _) \<Rightarrow> Inl ''aa bundle: paymaster_context set but paymaster missing'')"

definition validate_structure :: "aa_bundle \<Rightarrow> string + unit" where
  "validate_structure b =
     (if ab_inner_calls b = [] then Inl ''aa bundle: inner_calls must be non-empty''
      else if MAX_INNER_CALLS < length (ab_inner_calls b)
      then Inl ''aa bundle: inner_calls exceeds MAX_INNER_CALLS''
      else if list_ex (\<lambda>c. MAX_INNER_CALLDATA < length (ic_data c)) (ab_inner_calls b)
      then Inl ''aa bundle: inner call data exceeds MAX_INNER_CALLDATA''
      else
        (case paymaster_structure (ab_paymaster b) (ab_paymaster_signature b)
                (ab_paymaster_context b) of
           Inl e \<Rightarrow> Inl e
         | Inr _ \<Rightarrow> session_structure (ab_session_auth b)))"

text \<open>The sum in \<open>u128\<close> of at most $2^{64}$ values of 64 bits does not wrap.\<close>

definition inner_gas_sum :: "aa_bundle \<Rightarrow> u128" where
  "inner_gas_sum b = sum_list (map (\<lambda>c. ucast (ic_gas_limit c)) (ab_inner_calls b))"

definition checked_inner_value_sum :: "aa_bundle \<Rightarrow> u256 option" where
  "checked_inner_value_sum b = checked_sum_from 0 (map ic_value (ab_inner_calls b))"

definition inner_value_sum :: "aa_bundle \<Rightarrow> u256" where
  "inner_value_sum b = (case checked_inner_value_sum b of Some v \<Rightarrow> v | None \<Rightarrow> u_max)"

definition intrinsic_gas_surcharge :: "aa_bundle \<Rightarrow> u64" where
  "intrinsic_gas_surcharge b =
     (let extras = of_nat (length (ab_inner_calls b) - 1) :: u64;
          call_gas = sat_mul extras AA_INNER_CALL_INTRINSIC_GAS;
          session_gas = (if ab_session_auth b \<noteq> None then sat_mul 2 PQ_VERIFY_GAS else 0)
      in sat_add call_gas session_gas)"

section \<open>The wire format of a bundle\<close>

text \<open>An optional byte string whose empty value is written like its absence.\<close>

definition opt_bytes_encode :: "rlp_codec \<Rightarrow> u8 list option \<Rightarrow> u8 list" where
  "opt_bytes_encode R ob =
     (case ob of
        Some bs \<Rightarrow> if bs \<noteq> [] then slice_encode R bs else slice_encode R []
      | None \<Rightarrow> slice_encode R [])"

definition opt_bytes_length :: "rlp_codec \<Rightarrow> u8 list option \<Rightarrow> usize" where
  "opt_bytes_length R ob =
     (case ob of Some bs \<Rightarrow> if bs \<noteq> [] then slice_length R bs else 1 | None \<Rightarrow> 1)"

definition opt_bytes_decode :: "rlp_codec \<Rightarrow> usize \<Rightarrow> string \<Rightarrow> u8 list option decoder" where
  "opt_bytes_decode R limit msg =
     dec_bind (bounded_bytes_decode R limit msg) (\<lambda>raw.
       dec_return (if raw = [] then None else Some raw))"

definition inner_calls_rlp_len :: "rlp_codec \<Rightarrow> inner_call list \<Rightarrow> usize" where
  "inner_calls_rlp_len R calls =
     (let inner_payload = sum_list (map (inner_call_length R) calls)
      in list_header_length R inner_payload + inner_payload)"

definition bundle_fields_len :: "rlp_codec \<Rightarrow> aa_bundle \<Rightarrow> usize" where
  "bundle_fields_len R b =
     inner_calls_rlp_len R (ab_inner_calls b)
     + opt_address_length R (ab_paymaster b)
     + opt_bytes_length R (ab_paymaster_signature b)
     + opt_bytes_length R (ab_paymaster_context b)
     + (case ab_session_auth b of Some sa \<Rightarrow> session_length R sa | None \<Rightarrow> 1)"

definition bundle_encode :: "rlp_codec \<Rightarrow> aa_bundle \<Rightarrow> u8 list" where
  "bundle_encode R b =
     list_header R (bundle_fields_len R b)
     @ encode_inner_calls R b
     @ opt_address_encode R (ab_paymaster b)
     @ opt_bytes_encode R (ab_paymaster_signature b)
     @ opt_bytes_encode R (ab_paymaster_context b)
     @ (case ab_session_auth b of Some sa \<Rightarrow> session_encode R sa | None \<Rightarrow> slice_encode R [])"

definition bundle_length :: "rlp_codec \<Rightarrow> aa_bundle \<Rightarrow> usize" where
  "bundle_length R b =
     (let payload = bundle_fields_len R b in list_header_length R payload + payload)"

text \<open>The form that is signed: without the three signatures.\<close>

definition bundle_signing_fields_len :: "rlp_codec \<Rightarrow> aa_bundle \<Rightarrow> usize" where
  "bundle_signing_fields_len R b =
     inner_calls_rlp_len R (ab_inner_calls b)
     + opt_address_length R (ab_paymaster b)
     + opt_bytes_length R (ab_paymaster_context b)
     + (case ab_session_auth b of Some sa \<Rightarrow> session_signing_length R sa | None \<Rightarrow> 0)"

definition bundle_encode_for_signing :: "rlp_codec \<Rightarrow> aa_bundle \<Rightarrow> u8 list" where
  "bundle_encode_for_signing R b =
     list_header R (bundle_signing_fields_len R b)
     @ encode_inner_calls R b
     @ opt_address_encode R (ab_paymaster b)
     @ opt_bytes_encode R (ab_paymaster_context b)
     @ (case ab_session_auth b of Some sa \<Rightarrow> session_encode_for_signing R sa | None \<Rightarrow> [])"

text \<open>The trailing field: absent in older encodings, a list, or the empty marker.\<close>

definition session_field_decode :: "rlp_codec \<Rightarrow> usize \<Rightarrow> usize \<Rightarrow> session_auth option decoder" where
  "session_field_decode R payload_length remaining buf =
     (let consumed_so_far = remaining - length buf in
      if consumed_so_far < payload_length then
        (if buf \<noteq> [] \<and> buf ! 0 AND 0xC0 = 0xC0
         then dec_bind (session_decode R) (\<lambda>sa. dec_return (Some sa)) buf
         else dec_bind (decode_bytes R) (\<lambda>marker.
           if marker \<noteq> []
           then dec_fail (RlpCustom ''invalid session_auth marker: expected list or empty bytes'')
           else dec_return None) buf)
      else Inr (None, buf))"

definition bundle_fields_decode :: "rlp_codec \<Rightarrow> usize \<Rightarrow> usize \<Rightarrow> aa_bundle decoder" where
  "bundle_fields_decode R payload_length remaining =
     dec_bind (decode_list_header R) (\<lambda>inner_payload.
     dec_bind (decode_sequence (RlpCustom ''aa bundle exceeds maximum inner call count'')
                 (inner_call_decode R) MAX_INNER_CALLS inner_payload) (\<lambda>inner_calls.
     dec_bind (opt_address_decode R ''invalid paymaster address bytes''
                 ''invalid paymaster address length: expected 32 bytes or empty'') (\<lambda>paymaster.
     dec_bind (opt_bytes_decode R MAX_SIGNATURE_BYTES
                 ''paymaster signature exceeds size limit'') (\<lambda>paymaster_sig.
     dec_bind (opt_bytes_decode R MAX_PAYMASTER_CONTEXT
                 ''paymaster context exceeds size limit'') (\<lambda>paymaster_ctx.
     dec_bind (session_field_decode R payload_length remaining) (\<lambda>session.
       dec_return
         \<lparr>ab_inner_calls = inner_calls, ab_paymaster = paymaster,
          ab_paymaster_signature = paymaster_sig, ab_paymaster_context = paymaster_ctx,
          ab_session_auth = session\<rparr>))))))"

definition bundle_decode :: "rlp_codec \<Rightarrow> aa_bundle decoder" where
  "bundle_decode R = decode_list R (bundle_fields_decode R)"

section \<open>Signed transactions\<close>

datatype pubkey_mode = Embedded "u8 list" | Reference

fun is_embedded :: "pubkey_mode \<Rightarrow> bool" where
  "is_embedded (Embedded _) = True"
| "is_embedded Reference = False"

fun pubkey_bytes :: "pubkey_mode \<Rightarrow> u8 list option" where
  "pubkey_bytes (Embedded b) = Some b"
| "pubkey_bytes Reference = None"

record signed_transaction =
  st_from :: address
  st_tx :: transaction
  st_signature :: pq_signature
  st_pubkey_mode :: pubkey_mode
  st_aa_bundle :: "aa_bundle option"

definition signed_new :: "address \<Rightarrow> transaction \<Rightarrow> pq_signature \<Rightarrow> signed_transaction" where
  "signed_new from tx sig =
     \<lparr>st_from = from, st_tx = tx, st_signature = sig, st_pubkey_mode = Reference,
      st_aa_bundle = None\<rparr>"

definition with_aa_bundle ::
    "address \<Rightarrow> transaction \<Rightarrow> pq_signature \<Rightarrow> pubkey_mode \<Rightarrow> aa_bundle
       \<Rightarrow> string + signed_transaction" where
  "with_aa_bundle from tx sig mode bundle =
     (if tx_type tx \<noteq> AA_BUNDLE_TX_TYPE
      then Inl ''with_aa_bundle: tx.tx_type must equal AA_BUNDLE_TX_TYPE (0x7E)''
      else case validate_structure bundle of
        Inl e \<Rightarrow> Inl e
      | Inr _ \<Rightarrow>
          if ucast (tx_gas_limit tx) < inner_gas_sum bundle
          then Inl ''with_aa_bundle: sum(inner.gas_limit) exceeds outer gas_limit''
          else if ab_paymaster bundle = Some from
          then Inl ''with_aa_bundle: paymaster must differ from sender''
          else (case checked_inner_value_sum bundle of
              Some inner_value \<Rightarrow>
                if inner_value \<le> tx_value tx then
                  Inr \<lparr>st_from = from, st_tx = tx, st_signature = sig, st_pubkey_mode = mode,
                       st_aa_bundle = Some bundle\<rparr>
                else Inl ''with_aa_bundle: sum(inner.value) exceeds outer value''
            | None \<Rightarrow> Inl ''with_aa_bundle: sum(inner.value) overflows U256''))"

definition is_aa_bundle :: "signed_transaction \<Rightarrow> bool" where
  "is_aa_bundle s = (tx_type (st_tx s) = AA_BUNDLE_TX_TYPE \<and> st_aa_bundle s \<noteq> None)"

definition batch_signing_hash ::
    "(u8 list \<Rightarrow> shell_hash) \<Rightarrow> rlp_codec \<Rightarrow> signed_transaction \<Rightarrow> shell_hash option" where
  "batch_signing_hash blake3 R s =
     (case st_aa_bundle s of
        None \<Rightarrow> None
      | Some bundle \<Rightarrow>
          if tx_type (st_tx s) \<noteq> AA_BUNDLE_TX_TYPE then None
          else
            let tx_hash = signing_hash blake3 R (st_tx s) (sig_type_as_u8 (sig_type (st_signature s)))
            in Some (blake3 (PQTX_BUNDLE_DOMAIN @ hash_as_bytes tx_hash
                             @ bundle_encode_for_signing R bundle)))"

definition sender_signing_hash ::
    "(u8 list \<Rightarrow> shell_hash) \<Rightarrow> rlp_codec \<Rightarrow> signed_transaction \<Rightarrow> shell_hash" where
  "sender_signing_hash blake3 R s =
     (case batch_signing_hash blake3 R s of
        Some h \<Rightarrow> h
      | None \<Rightarrow> signing_hash blake3 R (st_tx s) (sig_type_as_u8 (sig_type (st_signature s))))"

definition paymaster_signing_hash ::
    "(u8 list \<Rightarrow> shell_hash) \<Rightarrow> rlp_codec \<Rightarrow> signed_transaction \<Rightarrow> shell_hash option" where
  "paymaster_signing_hash blake3 R s =
     (case st_aa_bundle s of
        None \<Rightarrow> None
      | Some bundle \<Rightarrow>
          (case ab_paymaster bundle of
             None \<Rightarrow> None
           | Some _ \<Rightarrow>
               (case batch_signing_hash blake3 R s of
                  None \<Rightarrow> None
                | Some batch_hash \<Rightarrow>
                    Some (blake3 (PQTX_PAYMASTER_DOMAIN @ address_as_bytes (st_from s)
                                  @ hash_as_bytes batch_hash)))))"

text \<open>The canonical transaction identifier.\<close>

definition signed_hash ::
    "(u8 list \<Rightarrow> shell_hash) \<Rightarrow> rlp_codec \<Rightarrow> signed_transaction \<Rightarrow> shell_hash" where
  "signed_hash blake3 R s =
     blake3 (PQTX_ID_DOMAIN @ address_as_bytes (st_from s)
             @ hash_as_bytes (sender_signing_hash blake3 R s))"

abbreviation (input) AA_BUNDLE_PRESENCE_FLAG :: u8 where
  "AA_BUNDLE_PRESENCE_FLAG \<equiv> 1"

definition pubkey_mode_encode :: "rlp_codec \<Rightarrow> pubkey_mode \<Rightarrow> u8 list" where
  "pubkey_mode_encode R m =
     (case m of Embedded pk \<Rightarrow> slice_encode R pk | Reference \<Rightarrow> slice_encode R [])"

definition signed_fields_len :: "rlp_codec \<Rightarrow> signed_transaction \<Rightarrow> usize" where
  "signed_fields_len R s =
     (let pk_len = (case st_pubkey_mode s of Embedded pk \<Rightarrow> slice_length R pk | Reference \<Rightarrow> 1);
          aa_len = (case st_aa_bundle s of Some b \<Rightarrow> 1 + bundle_length R b | None \<Rightarrow> 0)
      in address_length R (st_from s) + transaction_length R (st_tx s)
         + pq_signature_length R (st_signature s) + pk_len + aa_len)"

definition signed_encode :: "rlp_codec \<Rightarrow> signed_transaction \<Rightarrow> u8 list" where
  "signed_encode R s =
     list_header R (signed_fields_len R s)
     @ address_encode R (st_from s)
     @ transaction_encode R (st_tx s)
     @ pq_signature_encode R (st_signature s)
     @ pubkey_mode_encode R (st_pubkey_mode s)
     @ (case st_aa_bundle s of
          Some b \<Rightarrow> AA_BUNDLE_PRESENCE_FLAG # bundle_encode R b
        | None \<Rightarrow> [])"

definition signed_length :: "rlp_codec \<Rightarrow> signed_transaction \<Rightarrow> usize" where
  "signed_length R s =
     (let payload = signed_fields_len R s in list_header_length R payload + payload)"

definition bundle_field_decode ::
    "rlp_codec \<Rightarrow> transaction \<Rightarrow> usize \<Rightarrow> usize \<Rightarrow> aa_bundle option decoder" where
  "bundle_field_decode R tx payload_length remaining buf =
     (let consumed_so_far = remaining - length buf in
      if consumed_so_far < payload_length then
        (case buf of
           [] \<Rightarrow> Inl (RlpCustom ''missing aa bundle presence flag'')
         | flag # rest \<Rightarrow>
             if flag \<noteq> AA_BUNDLE_PRESENCE_FLAG
             then Inl (RlpCustom ''invalid aa bundle presence flag'')
             else if tx_type tx \<noteq> AA_BUNDLE_TX_TYPE
             then Inl (RlpCustom ''aa bundle requires AA_BUNDLE_TX_TYPE'')
             else dec_bind (bundle_decode R) (\<lambda>b. dec_return (Some b)) rest)
      else Inr (None, buf))"

definition signed_fields_decode :: "rlp_codec \<Rightarrow> usize \<Rightarrow> usize \<Rightarrow> signed_transaction decoder" where
  "signed_fields_decode R payload_length remaining =
     dec_bind (address_decode R) (\<lambda>from.
     dec_bind (transaction_decode R) (\<lambda>tx.
     dec_bind (pq_signature_decode R) (\<lambda>sig.
     dec_bind (decode_bytes R) (\<lambda>pk.
     dec_bind (bundle_field_decode R tx payload_length remaining) (\<lambda>bundle.
       dec_return
         \<lparr>st_from = from, st_tx = tx, st_signature = sig,
          st_pubkey_mode = (if pk = [] then Reference else Embedded pk),
          st_aa_bundle = bundle\<rparr>)))))"

definition signed_decode :: "rlp_codec \<Rightarrow> signed_transaction decoder" where
  "signed_decode R = decode_list R (signed_fields_decode R)"

section \<open>The JSON form\<close>

text \<open>The fields that \<open>serde\<close> reads, and those it writes.\<close>

datatype signature_field = Structured pq_signature | RawSignature "u8 list"

record signed_helper =
  sh_from :: address
  sh_tx :: transaction
  sh_signature :: signature_field
  sh_sig_type :: "u8 option"
  sh_pubkey_mode :: "pubkey_mode option"
  sh_sender_pubkey :: "u8 list option"
  sh_public_key :: "u8 list option"
  sh_aa_bundle :: "aa_bundle option"

definition signed_serialize :: "signed_transaction \<Rightarrow> signed_helper" where
  "signed_serialize s =
     \<lparr>sh_from = st_from s, sh_tx = st_tx s,
      sh_signature = RawSignature (sig_data (st_signature s)),
      sh_sig_type = Some (sig_type_as_u8 (sig_type (st_signature s))),
      sh_pubkey_mode = None, sh_sender_pubkey = None,
      sh_public_key = pubkey_bytes (st_pubkey_mode s), sh_aa_bundle = st_aa_bundle s\<rparr>"

definition helper_signature :: "signed_helper \<Rightarrow> string + pq_signature" where
  "helper_signature h =
     (case sh_signature h of
        Structured sig \<Rightarrow>
          (case sh_sig_type h of
             None \<Rightarrow> Inr sig
           | Some t \<Rightarrow>
               (case sig_type_from_u8 t of
                  None \<Rightarrow> Inl ''unknown sig_type''
                | Some expected \<Rightarrow>
                    if sig_type sig \<noteq> expected
                    then Inl ''sig_type does not match structured signature.sig_type''
                    else Inr sig))
      | RawSignature bs \<Rightarrow>
          (case sh_sig_type h of
             None \<Rightarrow> Inl ''sig_type is required for raw signature bytes''
           | Some t \<Rightarrow>
               (case sig_type_from_u8 t of
                  None \<Rightarrow> Inl ''unknown sig_type''
                | Some ty \<Rightarrow>
                    (let sig = pq_signature_new ty bs in
                     case validate_size sig of
                       Inl _ \<Rightarrow> Inl ''signature size''
                     | Inr _ \<Rightarrow> Inr sig))))"

definition helper_pubkey_mode :: "signed_helper \<Rightarrow> pubkey_mode" where
  "helper_pubkey_mode h =
     (case sh_pubkey_mode h of
        Some mode \<Rightarrow> mode
      | None \<Rightarrow>
          (case (case sh_public_key h of Some pk \<Rightarrow> Some pk | None \<Rightarrow> sh_sender_pubkey h) of
             Some pk \<Rightarrow> if pk \<noteq> [] then Embedded pk else Reference
           | None \<Rightarrow> Reference))"

definition signed_deserialize :: "signed_helper \<Rightarrow> string + signed_transaction" where
  "signed_deserialize h =
     (if sh_pubkey_mode h \<noteq> None \<and> (sh_sender_pubkey h \<noteq> None \<or> sh_public_key h \<noteq> None)
      then Inl ''signed transaction must not specify both pubkey_mode and sender_pubkey''
      else if sh_sender_pubkey h \<noteq> None \<and> sh_public_key h \<noteq> None
      then Inl ''signed transaction must not specify both sender_pubkey and public_key''
      else case helper_signature h of
        Inl e \<Rightarrow> Inl e
      | Inr sig \<Rightarrow>
          Inr \<lparr>st_from = sh_from h, st_tx = sh_tx h, st_signature = sig,
               st_pubkey_mode = helper_pubkey_mode h, st_aa_bundle = sh_aa_bundle h\<rparr>)"

section \<open>Announced lengths\<close>

lemma sum_lengths: "(\<And>x. f x = length (g x)) \<Longrightarrow> sum_list (map f xs) = length (concat (map g xs))"
  by (induction xs) auto

lemma sum_hash_lengths:
  "rlp_laws R \<Longrightarrow> sum_list (map (hash_length R) hs) = length (concat (map (hash_encode R) hs))"
  by (rule sum_lengths) (rule rlp_item_lengths)

lemma item_length_eq: "rlp_laws R \<Longrightarrow> item_length R i = length (item_encode R i)"
  by (simp add: item_length_def item_entry_payload_def item_encode_def
      rlp_lengths rlp_item_lengths sum_hash_lengths Let_def)

lemma sum_item_lengths:
  "rlp_laws R \<Longrightarrow> sum_list (map (item_length R) is) = length (concat (map (item_encode R) is))"
  by (rule sum_lengths) (rule item_length_eq)

lemma access_list_length_eq:
  "rlp_laws R \<Longrightarrow> access_list_rlp_len R al = length (encode_access_list R al)"
  by (simp add: access_list_rlp_len_def encode_access_list_def rlp_lengths sum_item_lengths
      Let_def split: option.split)

lemma blob_hashes_length_eq:
  "rlp_laws R \<Longrightarrow> blob_hashes_rlp_len R bh = length (encode_blob_hashes R bh)"
  by (simp add: blob_hashes_rlp_len_def encode_blob_hashes_def rlp_lengths sum_hash_lengths
      Let_def split: option.split)

lemma transaction_fields_len_eq:
  "rlp_laws R \<Longrightarrow> transaction_fields_len R tx =
     length (u64_encode R (tx_chain_id tx) @ u64_encode R (tx_nonce tx)
       @ opt_address_encode R (tx_to tx) @ u256_encode R (tx_value tx)
       @ bytes_encode R (tx_data tx) @ u64_encode R (tx_gas_limit tx)
       @ u64_encode R (tx_max_fee_per_gas tx) @ u64_encode R (tx_max_priority_fee_per_gas tx)
       @ encode_access_list R (tx_access_list tx) @ u8_encode R (tx_type tx)
       @ blob_fee_encode R (tx_max_fee_per_blob_gas tx)
       @ encode_blob_hashes R (tx_blob_versioned_hashes tx))"
  by (simp add: transaction_fields_len_def blob_fee_encode_def rlp_lengths rlp_item_lengths
      access_list_length_eq blob_hashes_length_eq Let_def split: option.split)

lemma transaction_length_eq: "rlp_laws R \<Longrightarrow> transaction_length R tx = length (transaction_encode R tx)"
  by (simp add: transaction_length_def transaction_encode_def transaction_fields_len_eq
      rlp_lengths Let_def)

lemma session_signing_fields_len_eq:
  "rlp_laws R \<Longrightarrow> session_signing_fields_len R sa = length (session_scope_encode R sa)"
  by (simp add: session_signing_fields_len_def session_scope_encode_def rlp_lengths rlp_item_lengths)

lemma session_signing_length_eq:
  "rlp_laws R \<Longrightarrow> session_signing_length R sa = length (session_encode_for_signing R sa)"
  by (simp add: session_signing_length_def session_encode_for_signing_def
      session_signing_fields_len_eq rlp_lengths Let_def)

lemma session_fields_len_eq:
  "rlp_laws R \<Longrightarrow> session_fields_len R sa =
     length (session_scope_encode R sa @ slice_encode R (sa_root_signature sa)
       @ slice_encode R (sa_session_signature sa))"
  by (simp add: session_fields_len_def session_scope_encode_def rlp_lengths rlp_item_lengths)

lemma session_length_eq: "rlp_laws R \<Longrightarrow> session_length R sa = length (session_encode R sa)"
  by (simp add: session_length_def session_encode_def session_fields_len_eq rlp_lengths Let_def)

lemma inner_call_fields_len_eq:
  "rlp_laws R \<Longrightarrow> inner_call_fields_len R c =
     length (opt_address_encode R (ic_to c) @ u256_encode R (ic_value c)
       @ bytes_encode R (ic_data c) @ u64_encode R (ic_gas_limit c))"
  by (simp add: inner_call_fields_len_def rlp_lengths rlp_item_lengths)

lemma inner_call_length_eq: "rlp_laws R \<Longrightarrow> inner_call_length R c = length (inner_call_encode R c)"
  by (simp add: inner_call_length_def inner_call_encode_def inner_call_fields_len_eq
      rlp_lengths Let_def)

lemma sum_inner_call_lengths:
  "rlp_laws R \<Longrightarrow>
     sum_list (map (inner_call_length R) cs) = length (concat (map (inner_call_encode R) cs))"
  by (rule sum_lengths) (rule inner_call_length_eq)

lemma inner_calls_length_eq:
  "rlp_laws R \<Longrightarrow> inner_calls_rlp_len R (ab_inner_calls b) = length (encode_inner_calls R b)"
  by (simp add: inner_calls_rlp_len_def encode_inner_calls_def sum_inner_call_lengths rlp_lengths
      Let_def)

lemma opt_bytes_length_eq: "rlp_laws R \<Longrightarrow> opt_bytes_length R ob = length (opt_bytes_encode R ob)"
  by (simp add: opt_bytes_length_def opt_bytes_encode_def rlp_lengths rlp_slice_empty
      split: option.split)

definition session_field_encode :: "rlp_codec \<Rightarrow> session_auth option \<Rightarrow> u8 list" where
  "session_field_encode R osa =
     (case osa of Some sa \<Rightarrow> session_encode R sa | None \<Rightarrow> slice_encode R [])"

lemma bundle_fields_len_eq:
  "rlp_laws R \<Longrightarrow> bundle_fields_len R b =
     length (encode_inner_calls R b @ opt_address_encode R (ab_paymaster b)
       @ opt_bytes_encode R (ab_paymaster_signature b) @ opt_bytes_encode R (ab_paymaster_context b)
       @ session_field_encode R (ab_session_auth b))"
  by (simp add: bundle_fields_len_def inner_calls_length_eq rlp_item_lengths opt_bytes_length_eq
      session_field_encode_def session_length_eq rlp_slice_empty split: option.split)

lemma bundle_length_eq: "rlp_laws R \<Longrightarrow> bundle_length R b = length (bundle_encode R b)"
  by (simp add: bundle_length_def bundle_encode_def bundle_fields_len_eq session_field_encode_def
      rlp_lengths Let_def)

definition bundle_field_encode :: "rlp_codec \<Rightarrow> aa_bundle option \<Rightarrow> u8 list" where
  "bundle_field_encode R ob =
     (case ob of Some b \<Rightarrow> AA_BUNDLE_PRESENCE_FLAG # bundle_encode R b | None \<Rightarrow> [])"

lemma signed_fields_len_eq:
  "rlp_laws R \<Longrightarrow> signed_fields_len R s =
     length (address_encode R (st_from s) @ transaction_encode R (st_tx s)
       @ pq_signature_encode R (st_signature s) @ pubkey_mode_encode R (st_pubkey_mode s)
       @ bundle_field_encode R (st_aa_bundle s))"
  by (simp add: signed_fields_len_def rlp_item_lengths transaction_length_eq pq_signature_length_eq
      pubkey_mode_encode_def bundle_field_encode_def bundle_length_eq rlp_lengths rlp_slice_empty
      Let_def split: option.split pubkey_mode.split)

lemma signed_length_eq: "rlp_laws R \<Longrightarrow> signed_length R s = length (signed_encode R s)"
  by (simp add: signed_length_def signed_encode_def signed_fields_len_eq bundle_field_encode_def
      rlp_lengths Let_def)

section \<open>Round trips\<close>

text \<open>The bounds the decoders impose, and the values the format tells apart.\<close>

definition access_list_ok :: "access_list_item list option \<Rightarrow> bool" where
  "access_list_ok al \<longleftrightarrow>
     (case al of
        None \<Rightarrow> True
      | Some items \<Rightarrow>
          length items \<le> MAX_ACCESS_LIST_ENTRIES
          \<and> list_all (\<lambda>i. length (ali_storage_keys i) \<le> MAX_ACCESS_LIST_STORAGE_KEYS) items)"

definition transaction_wire_ok :: "transaction \<Rightarrow> bool" where
  "transaction_wire_ok tx \<longleftrightarrow>
     access_list_ok (tx_access_list tx)
     \<and> (case tx_blob_versioned_hashes tx of
          None \<Rightarrow> True
        | Some hashes \<Rightarrow> length hashes \<le> MAX_BLOB_HASHES_PER_TX)"

fun some_nonempty :: "'a list option \<Rightarrow> 'a list option" where
  "some_nonempty (Some []) = None"
| "some_nonempty ob = ob"

definition transaction_canonical :: "transaction \<Rightarrow> transaction" where
  "transaction_canonical tx =
     tx\<lparr>tx_access_list := some_nonempty (tx_access_list tx),
        tx_blob_versioned_hashes := some_nonempty (tx_blob_versioned_hashes tx)\<rparr>"

lemma decodes_item [rlp_decodes]:
  assumes R: "rlp_laws R" and keys: "length (ali_storage_keys i) \<le> MAX_ACCESS_LIST_STORAGE_KEYS"
  shows "decodes (item_decode R) (item_encode R i) i"
proof (rule decodesI)
  fix rest
  let ?a = "address_encode R (ali_address i)" and ?k = "concat (map (hash_encode R) (ali_storage_keys i))"
  let ?p = "?a @ list_header R (length ?k) @ ?k"
  have enc: "item_encode R i = list_header R (length ?p) @ ?p"
    by (simp add: item_encode_def item_entry_payload_def rlp_lengths [OF R]
        rlp_item_lengths [OF R] sum_hash_lengths [OF R] Let_def)
  assume "length (item_encode R i) < usize_bound"
  then have p: "length ?p < usize_bound" by (simp add: enc)
  then have k: "length ?k < usize_bound" by simp
  have "decode_items full (hash_decode R) (length rest) MAX_ACCESS_LIST_STORAGE_KEYS (?k @ rest)
      = Inr (ali_storage_keys i, rest)" for full
    by (rule decode_items_concat [OF keys])
       (use R k in \<open>auto simp: decodes_hash length_hash_encode [OF R] simp flip: length_0_conv\<close>)
  moreover have "address_decode R (?a @ list_header R (length ?k) @ ?k @ rest)
      = Inr (ali_address i, list_header R (length ?k) @ ?k @ rest)"
    by (rule decodesD [OF decodes_address [OF R]]) (use p in simp)
  ultimately show "item_decode R (item_encode R i @ rest) = Inr (i, rest)"
    using decode_list_header_payload [OF R p, of rest] decode_list_header_payload [OF R k, of rest]
    by (simp add: enc item_decode_def dec_bind_def rlp_payload_end_def)
qed

lemma item_encode_nonempty: "rlp_laws R \<Longrightarrow> item_encode R i \<noteq> []"
  using length_address_encode [of R "ali_address i"] by (auto simp: item_encode_def)

text \<open>An optional list of items behind a header, absent when the header announces no bytes.\<close>

lemma decodes_opt_sequence:
  assumes R: "rlp_laws R" and len: "length xs \<le> room"
    and item: "\<And>x. x \<in> set xs \<Longrightarrow> decodes D (E x) x" "\<And>x. x \<in> set xs \<Longrightarrow> E x \<noteq> []"
  shows "decodes
      (dec_bind (decode_list_header R) (\<lambda>n. if n = 0 then dec_return None
         else dec_bind (decode_sequence full D room n) (\<lambda>ys. dec_return (Some ys))))
      (list_header R (length (concat (map E xs))) @ concat (map E xs)) (some_nonempty (Some xs))"
proof (rule decodesI)
  fix rest
  let ?p = "concat (map E xs)"
  assume "length (list_header R (length ?p) @ ?p) < usize_bound"
  then have p: "length ?p < usize_bound" by simp
  have "decode_sequence full D room (length ?p) (?p @ rest) = Inr (xs, rest)"
    by (rule decodesD [OF decode_sequence_concat [OF len item] p])
  moreover have "?p = [] \<longleftrightarrow> xs = []" using item(2) by (cases xs) auto
  ultimately show "dec_bind (decode_list_header R) (\<lambda>n. if n = 0 then dec_return None
         else dec_bind (decode_sequence full D room n) (\<lambda>ys. dec_return (Some ys)))
      ((list_header R (length ?p) @ ?p) @ rest) = Inr (some_nonempty (Some xs), rest)"
    using decode_list_header_payload [OF R p, of rest]
    by (cases xs) (simp_all add: dec_bind_def dec_return_def)
qed

lemma decodes_access_list [rlp_decodes]:
  assumes R: "rlp_laws R" and ok: "access_list_ok al"
  shows "decodes (decode_access_list R) (encode_access_list R al) (some_nonempty al)"
proof (cases al)
  case None
  then show ?thesis
    using decodes_opt_sequence [OF R, of "[]"] by (simp add: decode_access_list_def encode_access_list_def)
next
  case (Some items)
  have "decodes (item_decode R) (item_encode R x) x" if "x \<in> set items" for x
    using ok that R by (intro decodes_item) (auto simp: access_list_ok_def Some list_all_iff)
  then show ?thesis
    unfolding Some decode_access_list_def encode_access_list_def option.case sum_item_lengths [OF R]
    by (intro decodes_opt_sequence R)
       (use ok in \<open>auto simp: access_list_ok_def Some item_encode_nonempty [OF R]\<close>)
qed

lemma decodes_blob_hashes [rlp_decodes]:
  assumes R: "rlp_laws R" and ok: "\<And>hs. bh = Some hs \<Longrightarrow> length hs \<le> MAX_BLOB_HASHES_PER_TX"
  shows "decodes (decode_blob_hashes R) (encode_blob_hashes R bh) (some_nonempty bh)"
proof (cases bh)
  case None
  then show ?thesis
    using decodes_opt_sequence [OF R, of "[]"] by (simp add: decode_blob_hashes_def encode_blob_hashes_def)
next
  case (Some hs)
  show ?thesis
    unfolding Some decode_blob_hashes_def encode_blob_hashes_def option.case sum_hash_lengths [OF R]
    by (intro decodes_opt_sequence R)
       (use ok Some length_hash_encode [OF R] in
         \<open>auto simp: decodes_hash R simp flip: length_0_conv\<close>)
qed

lemma decodes_blob_fee [rlp_decodes]:
  assumes R: "rlp_laws R"
  shows "decodes (blob_fee_decode R) (blob_fee_encode R fee) fee"
  unfolding blob_fee_decode_def blob_fee_encode_def
  by (cases fee)
     (auto intro!: decodes_bind [OF rlp_u8 [OF R]] decodes_bind_last [OF rlp_u64 [OF R]])

lemma transaction_canonical_fields:
  "\<lparr>tx_chain_id = tx_chain_id tx, tx_nonce = tx_nonce tx, tx_to = tx_to tx,
    tx_value = tx_value tx, tx_data = tx_data tx, tx_gas_limit = tx_gas_limit tx,
    tx_max_fee_per_gas = tx_max_fee_per_gas tx,
    tx_max_priority_fee_per_gas = tx_max_priority_fee_per_gas tx,
    tx_access_list = some_nonempty (tx_access_list tx), tx_type = tx_type tx,
    tx_max_fee_per_blob_gas = tx_max_fee_per_blob_gas tx,
    tx_blob_versioned_hashes = some_nonempty (tx_blob_versioned_hashes tx)\<rparr>
   = transaction_canonical tx"
  by (cases tx) (simp add: transaction_canonical_def)

lemma decodes_transaction [rlp_decodes]:
  assumes R: "rlp_laws R" and ok: "transaction_wire_ok tx"
  shows "decodes (transaction_decode R) (transaction_encode R tx) (transaction_canonical tx)"
proof -
  have "access_list_ok (tx_access_list tx)"
    and "\<And>hs. tx_blob_versioned_hashes tx = Some hs \<Longrightarrow> length hs \<le> MAX_BLOB_HASHES_PER_TX"
    using ok by (auto simp: transaction_wire_ok_def)
  then show ?thesis
    unfolding transaction_decode_def transaction_encode_def transaction_fields_len_eq [OF R]
    by (intro decodes_list [OF R] decodes_bind [OF rlp_u64 [OF R]]
        decodes_bind [OF decodes_opt_address [OF R]] decodes_bind [OF rlp_u256 [OF R]]
        decodes_bind [OF decodes_bytes [OF R]] decodes_bind [OF decodes_access_list [OF R]]
        decodes_bind [OF rlp_u8 [OF R]] decodes_bind [OF decodes_blob_fee [OF R]]
        decodes_bind_last [OF decodes_blob_hashes [OF R]])
       (auto simp: transaction_canonical_fields)
qed

lemma be_nat_dropWhile_zero: "be_nat (dropWhile (\<lambda>b. b = 0) bs) = be_nat bs"
  by (induction bs) (auto simp: be_nat_Cons)

lemma be_nat_trimmed: "be_nat (trimmed_value v) = unat v"
proof -
  let ?b = "be_bytes 32 v" and ?d = "dropWhile (\<lambda>b. b = 0) (be_bytes 32 v)"
  have v: "be_nat ?b = unat v" by (simp add: be_nat_be_bytes)
  show ?thesis
  proof (cases "?d = []")
    case False
    then show ?thesis using v by (simp only: trimmed_value_def Let_def be_nat_dropWhile_zero if_False)
  next
    case True
    then have zero: "b = 0" if "b \<in> set ?b" for b using that by (auto simp: dropWhile_eq_Nil_conv)
    then have "?b = replicate 32 0" by (metis length_be_bytes replicate_eqI)
    then have "trimmed_value v = [0]" by (simp add: trimmed_value_def Let_def eval_nat_numeral)
    moreover have "unat v = 0"
      using v be_nat_dropWhile_zero [of ?b] unfolding True by (simp add: be_nat_def)
    ultimately show ?thesis by (simp add: be_nat_def)
  qed
qed

lemma trimmed_value_shape:
  "length (trimmed_value v) \<le> 32 \<and> trimmed_value v \<noteq> []
   \<and> \<not> (1 < length (trimmed_value v) \<and> trimmed_value v ! 0 = 0)"
proof -
  let ?b = "be_bytes 32 v" and ?d = "dropWhile (\<lambda>b. b = 0) (be_bytes 32 v)"
  have "length ?d \<le> 32" using length_dropWhile_le [of "\<lambda>b. b = 0" ?b] by simp
  moreover have "?d \<noteq> [] \<Longrightarrow> ?d ! 0 \<noteq> 0" using hd_dropWhile [of "\<lambda>b. b = 0" ?b] by (auto simp: hd_conv_nth)
  moreover have "length (drop 31 ?b) = 1" by simp
  ultimately show ?thesis by (auto simp: trimmed_value_def Let_def)
qed

lemma decodes_value_cap [rlp_decodes]:
  assumes R: "rlp_laws R"
  shows "decodes (value_cap_decode R) (slice_encode R (trimmed_value v)) v"
  unfolding value_cap_decode_def
  by (rule decodes_bind_last [OF rlp_slice [OF R]])
     (use trimmed_value_shape [of v] in \<open>auto simp: be_nat_trimmed\<close>)

lemma decodes_bounded_bytes [rlp_decodes]:
  "rlp_laws R \<Longrightarrow> length bs \<le> limit \<Longrightarrow> decodes (bounded_bytes_decode R limit msg) (slice_encode R bs) bs"
  unfolding bounded_bytes_decode_def by (rule decodes_bind_last [OF rlp_slice]) simp_all

lemma unat_ucast_u8: "unat (ucast (a :: u8) :: u64) = unat a" "\<not> 255 < unat a"
  using unat_bound [of a] by (simp_all add: unsigned_ucast_eq take_bit_nat_eq_self_iff)

lemma decodes_session_algo [rlp_decodes]:
  "rlp_laws R \<Longrightarrow> decodes (session_algo_decode R) (u64_encode R (ucast (a :: u8))) a"
  unfolding session_algo_decode_def
  by (rule decodes_bind_last [OF rlp_u64])
     (simp_all add: word_less_nat_alt unat_ucast_u8 ucast_down_ucast_id is_down)

lemma decodes_opt_bytes [rlp_decodes]:
  assumes "rlp_laws R" and "\<And>bs. ob = Some bs \<Longrightarrow> length bs \<le> limit"
  shows "decodes (opt_bytes_decode R limit msg) (opt_bytes_encode R ob) (some_nonempty ob)"
  unfolding opt_bytes_decode_def opt_bytes_encode_def
  by (cases ob rule: some_nonempty.cases)
     (use assms in \<open>auto intro!: decodes_bind_last [OF decodes_bounded_bytes]\<close>)

definition session_wire_ok :: "session_auth \<Rightarrow> bool" where
  "session_wire_ok sa \<longleftrightarrow>
     length (sa_session_pubkey sa) \<le> MAX_SESSION_PUBKEY
     \<and> length (sa_root_signature sa) \<le> MAX_SIGNATURE_BYTES
     \<and> length (sa_session_signature sa) \<le> MAX_SIGNATURE_BYTES"

lemma session_auth_fields:
  "\<lparr>sa_session_pubkey = sa_session_pubkey sa, sa_session_algo = sa_session_algo sa,
    sa_target = sa_target sa, sa_value_cap = sa_value_cap sa, sa_expiry_block = sa_expiry_block sa,
    sa_root_signature = sa_root_signature sa,
    sa_session_signature = sa_session_signature sa\<rparr> = sa"
  by (cases sa) simp

lemma inner_call_fields:
  "\<lparr>ic_to = ic_to c, ic_value = ic_value c, ic_data = ic_data c, ic_gas_limit = ic_gas_limit c\<rparr> = c"
  by (cases c) simp

lemma decodes_session [rlp_decodes]:
  assumes R: "rlp_laws R" and ok: "session_wire_ok sa"
  shows "decodes (session_decode R) (session_encode R sa) sa"
  unfolding session_decode_def session_encode_def session_fields_len_eq [OF R]
    session_scope_encode_def append.assoc
  by (intro decodes_list [OF R] decodes_bind [OF decodes_session_algo [OF R]]
      decodes_bind [OF decodes_opt_address [OF R]] decodes_bind [OF decodes_value_cap [OF R]]
      decodes_bind [OF rlp_u64 [OF R]] decodes_bind [OF decodes_bounded_bytes [OF R]]
      decodes_bind_last [OF decodes_bounded_bytes [OF R]])
     (use ok in \<open>auto simp: session_wire_ok_def session_auth_fields\<close>)

lemma decodes_inner_call [rlp_decodes]:
  assumes R: "rlp_laws R" and ok: "length (ic_data c) \<le> MAX_INNER_CALLDATA"
  shows "decodes (inner_call_decode R) (inner_call_encode R c) c"
proof -
  have gas: "decodes (dec_bind (u64_decode R) (\<lambda>g. dec_return
      \<lparr>ic_to = ic_to c, ic_value = ic_value c, ic_data = ic_data c, ic_gas_limit = g\<rparr>))
      (u64_encode R (ic_gas_limit c)) c"
    by (rule decodes_bind_last [OF rlp_u64 [OF R]]) (simp add: inner_call_fields)
  show ?thesis
    unfolding inner_call_decode_def inner_call_encode_def inner_call_fields_len_eq [OF R]
    by (intro decodes_list [OF R] decodes_bind [OF decodes_opt_address [OF R]]
        decodes_bind [OF rlp_u256 [OF R]] decodes_bind [OF decodes_bytes [OF R]])
       (use ok gas in simp)
qed

text \<open>The trailing fields are read up to the end the outer header announces.\<close>

lemma session_field_round_trip:
  assumes R: "rlp_laws R" and ok: "\<And>sa. osa = Some sa \<Longrightarrow> session_wire_ok sa"
    and len: "length (session_field_encode R osa) < usize_bound"
  shows "session_field_decode R (n + length (session_field_encode R osa))
           (n + length (session_field_encode R osa @ rest)) (session_field_encode R osa @ rest)
         = Inr (osa, rest)"
proof (cases osa)
  case None
  have "decode_bytes R (slice_encode R [] @ rest) = Inr ([], rest)"
    by (rule decodesD [OF rlp_slice [OF R]]) (use len None in \<open>simp add: session_field_encode_def\<close>)
  then show ?thesis
    by (simp add: None session_field_encode_def session_field_decode_def rlp_slice_empty [OF R]
        dec_bind_def dec_return_def)
next
  case (Some sa)
  let ?e = "session_encode R sa"
  have e: "length ?e < usize_bound" using len by (simp add: Some session_field_encode_def)
  then have n: "session_fields_len R sa < usize_bound"
    by (simp add: session_encode_def session_fields_len_eq [OF R])
  have shape: "?e \<noteq> [] \<and> ?e ! 0 AND 0xC0 = 0xC0"
    using rlp_header_shape [OF R n]
    by (auto simp: session_encode_def nth_append hd_conv_nth)
  have "session_decode R (?e @ rest) = Inr (sa, rest)"
    by (rule decodesD [OF decodes_session [OF R ok [OF Some]] e])
  then show ?thesis
    using shape by (simp add: Some session_field_encode_def session_field_decode_def nth_append
        dec_bind_def dec_return_def)
qed

definition bundle_wire_ok :: "aa_bundle \<Rightarrow> bool" where
  "bundle_wire_ok b \<longleftrightarrow>
     length (ab_inner_calls b) \<le> MAX_INNER_CALLS
     \<and> list_all (\<lambda>c. length (ic_data c) \<le> MAX_INNER_CALLDATA) (ab_inner_calls b)
     \<and> pred_option (\<lambda>bs. length bs \<le> MAX_SIGNATURE_BYTES) (ab_paymaster_signature b)
     \<and> pred_option (\<lambda>bs. length bs \<le> MAX_PAYMASTER_CONTEXT) (ab_paymaster_context b)
     \<and> pred_option session_wire_ok (ab_session_auth b)"

definition bundle_canonical :: "aa_bundle \<Rightarrow> aa_bundle" where
  "bundle_canonical b =
     b\<lparr>ab_paymaster_signature := some_nonempty (ab_paymaster_signature b),
       ab_paymaster_context := some_nonempty (ab_paymaster_context b)\<rparr>"

lemma dec_bind_step: "D buf = Inr (x, rest) \<Longrightarrow> dec_bind D K buf = K x rest"
  by (simp add: dec_bind_def)

lemma decodes_step:
  "decodes D e x \<Longrightarrow> length e < usize_bound \<Longrightarrow> dec_bind D K (e @ rest) = K x rest"
  by (simp add: dec_bind_step decodesD)

lemma inner_calls_step:
  assumes R: "rlp_laws R" and ok: "bundle_wire_ok b" and len: "length (encode_inner_calls R b) < usize_bound"
  shows "dec_bind (decode_list_header R) (\<lambda>n.
           dec_bind (decode_sequence full (inner_call_decode R) MAX_INNER_CALLS n) K)
           (encode_inner_calls R b @ rest) = K (ab_inner_calls b) rest"
proof -
  let ?p = "concat (map (inner_call_encode R) (ab_inner_calls b))"
  have enc: "encode_inner_calls R b = list_header R (length ?p) @ ?p"
    by (simp add: encode_inner_calls_def sum_inner_call_lengths [OF R])
  then have p: "length ?p < usize_bound" using len by simp
  have "inner_call_encode R c \<noteq> []" for c
    using decodesD [OF rlp_u64 [OF R], of "ic_gas_limit c" "[]"]
      decodesD [OF rlp_u64 [OF R], of "ic_gas_limit c + 1" "[]"]
    by (auto simp: inner_call_encode_def opt_address_encode_def address_encode_def
        rlp_slice_empty [OF R] rlp_slice_short [OF R] split: option.splits)
  then have "decodes (decode_sequence full (inner_call_decode R) MAX_INNER_CALLS (length ?p)) ?p
      (ab_inner_calls b)"
    using ok by (intro decode_sequence_concat decodes_inner_call R)
      (auto simp: bundle_wire_ok_def list_all_iff)
  from decodes_step [OF this p, of K rest] show ?thesis
    using decode_list_header_payload [OF R p, of rest] by (simp add: enc dec_bind_step)
qed

lemma bundle_canonical_fields:
  "\<lparr>ab_inner_calls = ab_inner_calls b, ab_paymaster = ab_paymaster b,
    ab_paymaster_signature = some_nonempty (ab_paymaster_signature b),
    ab_paymaster_context = some_nonempty (ab_paymaster_context b),
    ab_session_auth = ab_session_auth b\<rparr> = bundle_canonical b"
  by (cases b) (simp add: bundle_canonical_def)

lemma decodes_bundle [rlp_decodes]:
  assumes R: "rlp_laws R" and ok: "bundle_wire_ok b"
  shows "decodes (bundle_decode R) (bundle_encode R b) (bundle_canonical b)"
proof -
  let ?s = "session_field_encode R (ab_session_auth b)"
  let ?q = "encode_inner_calls R b @ opt_address_encode R (ab_paymaster b)
       @ opt_bytes_encode R (ab_paymaster_signature b) @ opt_bytes_encode R (ab_paymaster_context b)"
  have enc: "bundle_encode R b = list_header R (length (?q @ ?s)) @ (?q @ ?s)"
    by (simp add: bundle_encode_def bundle_fields_len_eq [OF R] session_field_encode_def)
  have pm: "\<And>bs. ab_paymaster_signature b = Some bs \<Longrightarrow> length bs \<le> MAX_SIGNATURE_BYTES"
    "\<And>bs. ab_paymaster_context b = Some bs \<Longrightarrow> length bs \<le> MAX_PAYMASTER_CONTEXT"
    "\<And>sa. ab_session_auth b = Some sa \<Longrightarrow> session_wire_ok sa"
    using ok by (auto simp: bundle_wire_ok_def)
  show ?thesis
    unfolding enc bundle_decode_def
  proof (rule decodes_list_at [OF R])
    fix rest
    assume len: "length (?q @ ?s) < usize_bound"
    have "session_field_decode R (length ?q + length ?s) (length ?q + length (?s @ rest)) (?s @ rest)
        = Inr (ab_session_auth b, rest)"
      by (rule session_field_round_trip [OF R pm(3)]) (use len in auto)
    with len show "bundle_fields_decode R (length (?q @ ?s)) (length ((?q @ ?s) @ rest))
        ((?q @ ?s) @ rest) = Inr (bundle_canonical b, rest)"
      by (simp add: bundle_fields_decode_def inner_calls_step [OF R ok] dec_bind_step
          decodes_step [OF decodes_opt_address [OF R]] decodes_step [OF decodes_opt_bytes [OF R pm(1)]]
          decodes_step [OF decodes_opt_bytes [OF R pm(2)]] ac_simps)
        (simp add: dec_return_def bundle_canonical_fields)
  qed
qed

section \<open>Round trip of a signed transaction\<close>

text \<open>The limits the decoder imposes on a signed transaction.\<close>

definition signed_wire_ok :: "signed_transaction \<Rightarrow> bool" where
  "signed_wire_ok s \<longleftrightarrow>
     transaction_wire_ok (st_tx s)
     \<and> validate_size (st_signature s) = Inr ()
     \<and> (case st_aa_bundle s of
          None \<Rightarrow> True
        | Some b \<Rightarrow> tx_type (st_tx s) = AA_BUNDLE_TX_TYPE \<and> bundle_wire_ok b)"

fun pubkey_mode_canonical :: "pubkey_mode \<Rightarrow> pubkey_mode" where
  "pubkey_mode_canonical (Embedded []) = Reference"
| "pubkey_mode_canonical m = m"

definition signed_canonical :: "signed_transaction \<Rightarrow> signed_transaction" where
  "signed_canonical s =
     s\<lparr>st_tx := transaction_canonical (st_tx s),
       st_pubkey_mode := pubkey_mode_canonical (st_pubkey_mode s),
       st_aa_bundle := map_option bundle_canonical (st_aa_bundle s)\<rparr>"

lemma signed_canonical_fields:
  "\<lparr>st_from = st_from s, st_tx = transaction_canonical (st_tx s), st_signature = st_signature s,
    st_pubkey_mode = pubkey_mode_canonical (st_pubkey_mode s),
    st_aa_bundle = map_option bundle_canonical (st_aa_bundle s)\<rparr> = signed_canonical s"
  by (cases s) (simp add: signed_canonical_def)

lemma bundle_field_round_trip:
  assumes R: "rlp_laws R" and len: "length (bundle_field_encode R ob) < usize_bound"
    and ok: "\<And>b. ob = Some b \<Longrightarrow> tx_type tx = AA_BUNDLE_TX_TYPE \<and> bundle_wire_ok b"
  shows "bundle_field_decode R tx (n + length (bundle_field_encode R ob))
           (n + length (bundle_field_encode R ob @ rest)) (bundle_field_encode R ob @ rest)
         = Inr (map_option bundle_canonical ob, rest)"
proof (cases ob)
  case None
  then show ?thesis by (simp add: bundle_field_encode_def bundle_field_decode_def)
next
  case (Some b)
  have "bundle_decode R (bundle_encode R b @ rest) = Inr (bundle_canonical b, rest)"
    by (rule decodesD [OF decodes_bundle [OF R]])
       (use len ok Some in \<open>auto simp: bundle_field_encode_def\<close>)
  then show ?thesis
    using ok [OF Some]
    by (simp add: Some bundle_field_encode_def bundle_field_decode_def dec_bind_def dec_return_def)
qed

lemma pubkey_mode_step:
  assumes R: "rlp_laws R" and len: "length (pubkey_mode_encode R m) < usize_bound"
  shows "\<exists>pk. decode_bytes R (pubkey_mode_encode R m @ rest) = Inr (pk, rest)
           \<and> (if pk = [] then Reference else Embedded pk) = pubkey_mode_canonical m"
  using len decodesD [OF rlp_slice [OF R], of "[]" rest]
  by (cases m rule: pubkey_mode_canonical.cases)
     (auto simp: pubkey_mode_encode_def decodesD [OF rlp_slice [OF R]])

lemma decodes_signed [rlp_decodes]:
  assumes R: "rlp_laws R" and ok: "signed_wire_ok s"
  shows "decodes (signed_decode R) (signed_encode R s) (signed_canonical s)"
proof -
  let ?b = "bundle_field_encode R (st_aa_bundle s)"
  let ?q = "address_encode R (st_from s) @ transaction_encode R (st_tx s)
       @ pq_signature_encode R (st_signature s) @ pubkey_mode_encode R (st_pubkey_mode s)"
  have enc: "signed_encode R s = list_header R (length (?q @ ?b)) @ (?q @ ?b)"
    by (simp add: signed_encode_def signed_fields_len_eq [OF R] bundle_field_encode_def)
  have ok': "transaction_wire_ok (st_tx s)" "validate_size (st_signature s) = Inr ()"
    "\<And>b. st_aa_bundle s = Some b \<Longrightarrow>
      tx_type (transaction_canonical (st_tx s)) = AA_BUNDLE_TX_TYPE \<and> bundle_wire_ok b"
    using ok by (auto simp: signed_wire_ok_def transaction_canonical_def)
  show ?thesis
    unfolding enc signed_decode_def
  proof (rule decodes_list_at [OF R])
    fix rest
    assume len: "length (?q @ ?b) < usize_bound"
    then obtain pk where pk:
      "decode_bytes R (pubkey_mode_encode R (st_pubkey_mode s) @ ?b @ rest) = Inr (pk, ?b @ rest)"
      "(if pk = [] then Reference else Embedded pk) = pubkey_mode_canonical (st_pubkey_mode s)"
      using pubkey_mode_step [OF R, of "st_pubkey_mode s" "?b @ rest"] by auto
    have "bundle_field_decode R (transaction_canonical (st_tx s)) (length ?q + length ?b)
        (length ?q + length (?b @ rest)) (?b @ rest)
        = Inr (map_option bundle_canonical (st_aa_bundle s), rest)"
      by (rule bundle_field_round_trip [OF R]) (use len ok'(3) in auto)
    with len pk show "signed_fields_decode R (length (?q @ ?b)) (length ((?q @ ?b) @ rest))
        ((?q @ ?b) @ rest) = Inr (signed_canonical s, rest)"
      by (simp add: signed_fields_decode_def dec_bind_step decodes_step [OF decodes_address [OF R]]
          decodes_step [OF decodes_transaction [OF R ok'(1)]]
          decodes_step [OF decodes_pq_signature [OF R ok'(2)]] ac_simps)
        (simp add: dec_return_def signed_canonical_fields)
  qed
qed

lemma json_round_trip:
  assumes "validate_size (st_signature s) = Inr ()"
  shows "signed_deserialize (signed_serialize s)
         = Inr (s\<lparr>st_pubkey_mode := pubkey_mode_canonical (st_pubkey_mode s)\<rparr>)"
proof -
  have ty: "sig_type_from_u8 (sig_type_as_u8 (sig_type (st_signature s))) = Some (sig_type (st_signature s))"
    by (cases "sig_type (st_signature s)") (simp_all add: sig_type_from_u8_def)
  have sig: "pq_signature_new (sig_type (st_signature s)) (sig_data (st_signature s)) = st_signature s"
    by (cases "st_signature s") (simp add: pq_signature_new_def)
  have "helper_signature (signed_serialize s) = Inr (st_signature s)"
    using assms by (simp add: helper_signature_def signed_serialize_def ty sig Let_def)
  moreover have "helper_pubkey_mode (signed_serialize s) = pubkey_mode_canonical (st_pubkey_mode s)"
    by (cases "st_pubkey_mode s" rule: pubkey_mode_canonical.cases)
       (simp_all add: helper_pubkey_mode_def signed_serialize_def)
  ultimately show ?thesis
    by (cases s) (simp add: signed_deserialize_def, simp add: signed_serialize_def)
qed

text \<open>
  C26: a signed transaction within the limits of the format survives the wire: decoding its encoding,
  whatever bytes follow, returns it up to the representations the format does not tell apart (an empty
  access list or blob list and its absence, an empty embedded key and a reference, an empty paymaster
  field and its absence). The limits are those the decoders impose: on the entries and keys of the
  access list, the blob hashes, the inner calls and their calldata, the sizes of the signature, of the
  paymaster fields and of the session fields, and a bundle only on its transaction type. The encoders
  do not check them, and the decoders refuse what exceeds them. The length announced to the outer
  layers is the length of the encoding for every transaction, and the JSON form is read back for every
  transaction whose signature has the size of its algorithm.
\<close>

theorem signed_transaction_round_trip:
  assumes "rlp_laws R" and "length (signed_encode R s) < usize_bound"
  shows "(signed_wire_ok s \<longrightarrow> signed_decode R (signed_encode R s @ rest) = Inr (signed_canonical s, rest))
    \<and> signed_length R s = length (signed_encode R s)
    \<and> (validate_size (st_signature s) = Inr () \<longrightarrow> signed_deserialize (signed_serialize s)
        = Inr (s\<lparr>st_pubkey_mode := pubkey_mode_canonical (st_pubkey_mode s)\<rparr>))"
  using assms decodesD [OF decodes_signed [of R s]] json_round_trip [of s]
  by (simp add: signed_length_eq)

section \<open>Structural validation\<close>

lemma access_list_keys_ok_iff:
  "access_list_keys_ok items = Inr () \<longleftrightarrow>
     list_all (\<lambda>i. length (ali_storage_keys i) \<le> MAX_ACCESS_LIST_STORAGE_KEYS) items"
  by (induction items) auto

lemma validate_access_list_iff: "validate_access_list tx = Inr () \<longleftrightarrow> access_list_ok (tx_access_list tx)"
  by (auto simp: validate_access_list_def access_list_ok_def access_list_keys_ok_iff
      split: option.split)

lemma validate_blob_tx_iff:
  "validate_blob_tx tx = Inr () \<longleftrightarrow>
     (if tx_type tx = 3 then
        \<exists>hashes fee addr. tx_blob_versioned_hashes tx = Some hashes \<and> hashes \<noteq> []
          \<and> length hashes \<le> MAX_BLOB_HASHES_PER_TX \<and> tx_max_fee_per_blob_gas tx = Some fee
          \<and> tx_to tx = Some addr
          \<and> list_all (\<lambda>h. hash_as_bytes h ! 0 = BLOB_VERSIONED_HASH_VERSION_KZG) hashes
      else tx_max_fee_per_blob_gas tx = None \<and> tx_blob_versioned_hashes tx = None)"
  by (auto simp: validate_blob_tx_def list_ex_iff list_all_iff split: option.splits)

lemma validated_wire_ok:
  "validate_access_list tx = Inr () \<Longrightarrow> validate_blob_tx tx = Inr () \<Longrightarrow> transaction_wire_ok tx"
  by (auto simp: validate_access_list_iff validate_blob_tx_iff transaction_wire_ok_def
      split: if_splits)

lemma paymaster_structure_iff:
  "paymaster_structure pm sig ctx = Inr () \<longleftrightarrow>
     (pm = None \<and> sig = None \<and> ctx = None)
     \<or> (pm \<noteq> None \<and> ctx = None \<and> (\<exists>bs. sig = Some bs \<and> bs \<noteq> []))
     \<or> (pm \<noteq> None \<and> sig = None \<and> (\<exists>bs. ctx = Some bs \<and> bs \<noteq> [] \<and> length bs \<le> MAX_PAYMASTER_CONTEXT))"
  by (auto simp: paymaster_structure_def split: option.splits)

lemma session_structure_iff:
  "session_structure (Some sa) = Inr () \<longleftrightarrow>
     sa_session_pubkey sa \<noteq> [] \<and> sa_root_signature sa \<noteq> [] \<and> sa_session_signature sa \<noteq> []
     \<and> sa_expiry_block sa \<noteq> 0 \<and> session_wire_ok sa"
  by (auto simp: session_wire_ok_def)

lemma unat_gas_sum_list:
  "length gs \<le> 2 ^ 64 \<Longrightarrow>
     unat (sum_list (map (\<lambda>g :: u64. ucast g :: u128) gs)) = sum_list (map unat gs)
     \<and> sum_list (map unat gs) \<le> length gs * (2 ^ 64 - 1)"
proof (induction gs)
  case Nil
  show ?case by simp
next
  case (Cons g gs)
  then have IH: "unat (sum_list (map (\<lambda>g :: u64. ucast g :: u128) gs)) = sum_list (map unat gs)"
    "sum_list (map unat gs) \<le> length gs * (2 ^ 64 - 1)" by auto
  have g: "unat g \<le> 18446744073709551615" using unat_u64_less [of g] by linarith
  then have bound: "unat g + sum_list (map unat gs) \<le> length (g # gs) * (2 ^ 64 - 1)"
    using IH(2) by simp
  also have "\<dots> \<le> 2 ^ 64 * (2 ^ 64 - 1)" using Cons.prems by (intro mult_le_mono1) simp
  finally have "unat g + sum_list (map unat gs) < 2 ^ 128" by simp
  then show ?case using IH bound by (simp add: unat_plus_fits)
qed

lemma unat_inner_gas_sum:
  "length (ab_inner_calls b) \<le> MAX_INNER_CALLS \<Longrightarrow>
     unat (inner_gas_sum b) = sum_list (map (\<lambda>c. unat (ic_gas_limit c)) (ab_inner_calls b))"
  using unat_gas_sum_list [of "map ic_gas_limit (ab_inner_calls b)"]
  by (simp add: inner_gas_sum_def comp_def)

lemma checked_inner_value_sum_le:
  "(\<exists>v. checked_inner_value_sum b = Some v \<and> v \<le> w) \<longleftrightarrow>
     sum_list (map (\<lambda>c. unat (ic_value c)) (ab_inner_calls b)) \<le> unat w"
proof -
  let ?s = "sum_list (map (\<lambda>c. unat (ic_value c)) (ab_inner_calls b))"
  have some: "checked_inner_value_sum b = Some v \<longleftrightarrow> ?s < 2 ^ 256 \<and> unat v = ?s" for v
    by (simp add: checked_inner_value_sum_def checked_sum_from_Some_iff comp_def)
  show ?thesis
  proof
    assume "?s \<le> unat w"
    moreover from this have "?s < 2 ^ 256" using unat_bound [of w] by simp
    moreover from this have "unat (of_nat ?s :: u256) = ?s" by (simp add: unat_of_nat)
    ultimately show "\<exists>v. checked_inner_value_sum b = Some v \<and> v \<le> w"
      using some [of "of_nat ?s"] by (auto simp: word_le_nat_alt)
  qed (auto simp: some word_le_nat_alt)
qed

text \<open>
  C27: a bundle is attached exactly when it has between one and sixteen calls of bounded size, a
  consistent paymaster (none, a signature or a bounded context; never the sender) and a complete
  session authorisation, and the gas limits and the values of its calls, added without wrapping,
  stay within the gas limit and the value of the outer transaction.
\<close>

theorem bundle_attached_exactly_within_limits:
  "with_aa_bundle from tx sig mode b = Inr s \<longleftrightarrow>
     tx_type tx = AA_BUNDLE_TX_TYPE
     \<and> 1 \<le> length (ab_inner_calls b) \<and> length (ab_inner_calls b) \<le> MAX_INNER_CALLS
     \<and> list_all (\<lambda>c. length (ic_data c) \<le> MAX_INNER_CALLDATA) (ab_inner_calls b)
     \<and> paymaster_structure (ab_paymaster b) (ab_paymaster_signature b) (ab_paymaster_context b) = Inr ()
     \<and> ab_paymaster b \<noteq> Some from
     \<and> session_structure (ab_session_auth b) = Inr ()
     \<and> sum_list (map (\<lambda>c. unat (ic_gas_limit c)) (ab_inner_calls b)) \<le> unat (tx_gas_limit tx)
     \<and> sum_list (map (\<lambda>c. unat (ic_value c)) (ab_inner_calls b)) \<le> unat (tx_value tx)
     \<and> s = \<lparr>st_from = from, st_tx = tx, st_signature = sig, st_pubkey_mode = mode,
            st_aa_bundle = Some b\<rparr>"
    (is "?lhs \<longleftrightarrow> ?rhs")
proof -
  have struct: "validate_structure b = Inr () \<longleftrightarrow>
     1 \<le> length (ab_inner_calls b) \<and> length (ab_inner_calls b) \<le> MAX_INNER_CALLS
     \<and> list_all (\<lambda>c. length (ic_data c) \<le> MAX_INNER_CALLDATA) (ab_inner_calls b)
     \<and> paymaster_structure (ab_paymaster b) (ab_paymaster_signature b) (ab_paymaster_context b) = Inr ()
     \<and> session_structure (ab_session_auth b) = Inr ()"
    by (auto simp: validate_structure_def list_ex_iff list_all_iff Suc_le_eq not_less [symmetric]
        split: sum.splits)
  have gas: "\<not> ucast (tx_gas_limit tx) < inner_gas_sum b \<longleftrightarrow>
      sum_list (map (\<lambda>c. unat (ic_gas_limit c)) (ab_inner_calls b)) \<le> unat (tx_gas_limit tx)"
    if "length (ab_inner_calls b) \<le> MAX_INNER_CALLS"
    using unat_inner_gas_sum [OF that] by (simp add: word_less_nat_alt not_less)
  have "?lhs \<longleftrightarrow> tx_type tx = AA_BUNDLE_TX_TYPE \<and> validate_structure b = Inr ()
      \<and> \<not> ucast (tx_gas_limit tx) < inner_gas_sum b \<and> ab_paymaster b \<noteq> Some from
      \<and> (\<exists>v. checked_inner_value_sum b = Some v \<and> v \<le> tx_value tx)
      \<and> s = \<lparr>st_from = from, st_tx = tx, st_signature = sig, st_pubkey_mode = mode,
            st_aa_bundle = Some b\<rparr>"
    by (auto simp: with_aa_bundle_def split: sum.splits option.splits)
  then show ?thesis
    unfolding struct checked_inner_value_sum_le using gas by blast
qed

section \<open>What a signature binds\<close>

text \<open>Recipients that the signing hash does not tell apart: none, and the zero address.\<close>

definition same_recipient :: "address option \<Rightarrow> address option \<Rightarrow> bool" where
  "same_recipient a b \<longleftrightarrow> a = b \<or> {a, b} = {None, Some address_zero}"

lemma be_bytes_zero: "be_bytes n (0 :: 'a::len word) = replicate n 0"
proof -
  have "le_bytes n (0 :: 'a word) = replicate n 0" by (induction n) simp_all
  then show ?thesis by (simp add: be_bytes_def)
qed

lemma recipient_bytes_zero: "replicate 32 0 = address_as_bytes address_zero"
  by (simp add: address_as_bytes_def be_bytes_zero)

lemma length_recipient_bytes [simp]: "length (recipient_bytes a) = 32"
  by (simp split: option.split)

lemma recipient_bytes_eq: "recipient_bytes a = recipient_bytes b \<longleftrightarrow> same_recipient a b"
proof -
  have some: "recipient_bytes (Some x) = recipient_bytes (Some y) \<longleftrightarrow> x = y" for x y
    by simp
  show ?thesis
    by (cases a; cases b)
       (auto simp: same_recipient_def recipient_bytes_zero some doubleton_eq_iff)
qed

lemma concat_hash_bytes_inject:
  "concat (map hash_as_bytes hs) = concat (map hash_as_bytes hs') \<Longrightarrow> hs = hs'"
proof (induction hs arbitrary: hs')
  case Nil
  then show ?case by (cases hs') auto
next
  case (Cons h hs)
  then obtain h' hs'' where hs': "hs' = h' # hs''" by (cases hs') auto
  have "hash_as_bytes h = hash_as_bytes h' \<and> concat (map hash_as_bytes hs) = concat (map hash_as_bytes hs'')"
    using Cons.prems by (intro append_eq_append_conv [THEN iffD1]) (auto simp: hs')
  then show ?case
    using Cons.IH [of hs''] hash_try_from_slice_as_bytes [of h] hash_try_from_slice_as_bytes [of h']
    by (auto simp: hs')
qed

lemma concat_hash_bytes_eq:
  "concat (map hash_as_bytes hs) = concat (map hash_as_bytes hs') \<longleftrightarrow> hs = hs'"
  using concat_hash_bytes_inject by blast

lemma signing_preimage_parts:
  assumes eq: "signing_preimage R tx t = signing_preimage R tx' t'"
    and data: "length (tx_data tx) = length (tx_data tx')"
  shows "tx_chain_id tx = tx_chain_id tx' \<and> tx_nonce tx = tx_nonce tx'
    \<and> same_recipient (tx_to tx) (tx_to tx') \<and> tx_value tx = tx_value tx' \<and> tx_data tx = tx_data tx'
    \<and> tx_gas_limit tx = tx_gas_limit tx' \<and> tx_max_fee_per_gas tx = tx_max_fee_per_gas tx'
    \<and> tx_max_priority_fee_per_gas tx = tx_max_priority_fee_per_gas tx'
    \<and> encode_access_list R (tx_access_list tx) @ [t, tx_type tx] @ blob_signing_bytes tx
      = encode_access_list R (tx_access_list tx') @ [t', tx_type tx'] @ blob_signing_bytes tx'"
proof -
  have val_eq: "be_bytes 32 v = be_bytes 32 w \<longleftrightarrow> v = w" for v w :: u256
    by (rule be_bytes_inject) simp
  show ?thesis
    using eq data
    by (simp add: signing_preimage_def append_eq_append_conv recipient_bytes_eq val_eq)
qed

lemma access_list_prefix_inject:
  assumes R: "rlp_laws R" and ok: "access_list_ok al" "access_list_ok al'"
    and len: "length (encode_access_list R al) < usize_bound" "length (encode_access_list R al') < usize_bound"
    and eq: "encode_access_list R al @ u = encode_access_list R al' @ u'"
  shows "some_nonempty al = some_nonempty al' \<and> u = u'"
  using decodesD [OF decodes_access_list [OF R ok(1)] len(1), of u]
    decodesD [OF decodes_access_list [OF R ok(2)] len(2), of u'] eq by simp

lemma blob_fields_inject:
  assumes ok: "validate_blob_tx tx = Inr ()" "validate_blob_tx tx' = Inr ()"
    and ty: "tx_type tx = tx_type tx'" and eq: "blob_signing_bytes tx = blob_signing_bytes tx'"
  shows "tx_max_fee_per_blob_gas tx = tx_max_fee_per_blob_gas tx'
    \<and> tx_blob_versioned_hashes tx = tx_blob_versioned_hashes tx'"
  using ok ty eq
  by (auto simp: validate_blob_tx_iff blob_signing_bytes_def concat_hash_bytes_eq
      split: if_splits)

text \<open>
  C28: two valid transactions with calldata of one length and one signing hash are one transaction,
  except for what the preimage cannot tell apart: an empty access list and none, a call to the zero
  address and a contract creation. The two preimages are assumed not to collide under BLAKE3.
\<close>

theorem signing_hash_binds_fields:
  assumes "rlp_laws R"
    and "signing_hash blake3 R tx t = signing_hash blake3 R tx' t'"
    and "inj_on blake3 {signing_preimage R tx t, signing_preimage R tx' t'}"
    and "length (tx_data tx) = length (tx_data tx')"
    and "validate_access_list tx = Inr ()" and "validate_blob_tx tx = Inr ()"
    and "validate_access_list tx' = Inr ()" and "validate_blob_tx tx' = Inr ()"
    and "length (encode_access_list R (tx_access_list tx)) < usize_bound"
    and "length (encode_access_list R (tx_access_list tx')) < usize_bound"
  shows "t = t' \<and> same_recipient (tx_to tx) (tx_to tx')
    \<and> transaction_canonical tx = (transaction_canonical tx')\<lparr>tx_to := tx_to tx\<rparr>"
proof -
  have eq: "signing_preimage R tx t = signing_preimage R tx' t'"
    using assms(2) unfolding signing_hash_def by (rule inj_onD [OF assms(3)]) simp_all
  note parts = signing_preimage_parts [OF eq assms(4)]
  have ok: "access_list_ok (tx_access_list tx)" "access_list_ok (tx_access_list tx')"
    using assms(5,7) by (simp_all add: validate_access_list_iff)
  have "some_nonempty (tx_access_list tx) = some_nonempty (tx_access_list tx')
      \<and> [t, tx_type tx] @ blob_signing_bytes tx = [t', tx_type tx'] @ blob_signing_bytes tx'"
    by (rule access_list_prefix_inject [OF assms(1) ok assms(9,10)]) (use parts in blast)
  then have al: "some_nonempty (tx_access_list tx) = some_nonempty (tx_access_list tx')"
    and rest: "t = t'" "tx_type tx = tx_type tx'" "blob_signing_bytes tx = blob_signing_bytes tx'"
    by simp_all
  have "tx_max_fee_per_blob_gas tx = tx_max_fee_per_blob_gas tx'
    \<and> tx_blob_versioned_hashes tx = tx_blob_versioned_hashes tx'"
    by (rule blob_fields_inject [OF assms(6,8) rest(2,3)])
  then show ?thesis
    using parts al rest
    by (intro conjI transaction.equality) (simp_all add: transaction_canonical_def)
qed

section \<open>Signatures that fit two transactions\<close>

lemma be_bytes_of_be_nat:
  assumes "length bs = 8"
  shows "be_bytes 8 (of_nat (be_nat bs) :: u64) = bs"
proof -
  have "be_nat bs < 2 ^ 64" using be_nat_bound [of bs] assms by simp
  then have "unat (of_nat (be_nat bs) :: u64) = be_nat bs" by (simp add: unat_of_nat)
  then have "be_nat (be_bytes 8 (of_nat (be_nat bs) :: u64)) = be_nat bs"
    by (simp add: be_nat_be_bytes)
  then show ?thesis
    using be_nat_less_iff [of "be_bytes 8 (of_nat (be_nat bs) :: u64)" bs]
      be_nat_less_iff [of bs "be_bytes 8 (of_nat (be_nat bs) :: u64)"] assms
    by (metis length_be_bytes less_irrefl linorder_neqE)
qed

lemma encode_keyless_entry:
  assumes "rlp_laws R"
  shows "encode_access_list R (Some [\<lparr>ali_address = a, ali_storage_keys = []\<rparr>])
         = [0xE3, 0xE2, 0xA0] @ address_as_bytes a @ encode_access_list R None"
  by (simp add: encode_access_list_def item_encode_def item_length_def item_entry_payload_def
      address_length_def address_encode_def rlp_lengths [OF assms]
      rlp_header_short [OF assms] rlp_slice_short [OF assms] Let_def)

lemma be_nat_replicate_zero: "be_nat (replicate n 0) = 0"
  by (induction n) (simp_all add: be_nat_Cons, simp add: be_nat_def)

text \<open>The transaction that reads the fee fields and the list entry of another one as calldata.\<close>

definition calldata_shifted :: "transaction \<Rightarrow> address \<Rightarrow> transaction" where
  "calldata_shifted tx a =
     (let bs = address_as_bytes a in
      tx\<lparr>tx_data := tx_data tx @ be_bytes 8 (tx_gas_limit tx) @ be_bytes 8 (tx_max_fee_per_gas tx)
           @ be_bytes 8 (tx_max_priority_fee_per_gas tx) @ [0xE3, 0xE2, 0xA0] @ take 8 bs,
         tx_gas_limit := of_nat (be_nat (take 8 (drop 8 bs))),
         tx_max_fee_per_gas := of_nat (be_nat (take 8 (drop 16 bs))),
         tx_max_priority_fee_per_gas := of_nat (be_nat (drop 24 bs)),
         tx_access_list := None\<rparr>)"

lemma bytes_in_eights:
  "length bs = 32 \<Longrightarrow> take 8 bs @ take 8 (drop 8 bs) @ take 8 (drop 16 bs) @ drop 24 bs = bs"
  using append_take_drop_id [of 8 bs] append_take_drop_id [of 8 "drop 8 bs"]
    append_take_drop_id [of 8 "drop 16 bs"] by simp

lemma calldata_shifted_preimage:
  assumes R: "rlp_laws R" and al: "tx_access_list tx = Some [\<lparr>ali_address = a, ali_storage_keys = []\<rparr>]"
  shows "signing_preimage R (calldata_shifted tx a) t = signing_preimage R tx t"
proof -
  let ?bs = "address_as_bytes a"
  have eights: "take 8 ?bs @ take 8 (drop 8 ?bs) @ take 8 (drop 16 ?bs) @ drop 24 ?bs @ u = ?bs @ u" for u
    using bytes_in_eights [of ?bs] by (metis append.assoc length_address_as_bytes)
  have "blob_signing_bytes (calldata_shifted tx a) = blob_signing_bytes tx"
    by (simp add: blob_signing_bytes_def calldata_shifted_def Let_def)
  then show ?thesis
    by (simp add: signing_preimage_def al encode_keyless_entry [OF R])
       (simp add: calldata_shifted_def Let_def be_bytes_of_be_nat eights)
qed

text \<open>
  C39: the signing hash does not determine the transaction. A signature over any valid transaction whose
  access list is one entry without storage keys is also one over a transaction without access list
  whose calldata swallows the fee fields and the head of the entry and whose gas limit and fees are
  the last 24 bytes of the listed address; and a signature over a call to the zero address is also
  one over the creation of a contract with the calldata as its code. In both cases the identifier
  under which pools and indexes file the transaction is shared too.
\<close>

theorem signature_fits_two_transactions:
  assumes "rlp_laws R"
    and "tx_access_list tx = Some [\<lparr>ali_address = a, ali_storage_keys = []\<rparr>]"
    and "validate_blob_tx tx = Inr ()"
  shows "validate_access_list (calldata_shifted tx a) = Inr ()
    \<and> validate_blob_tx (calldata_shifted tx a) = Inr ()
    \<and> calldata_shifted tx a \<noteq> tx
    \<and> signed_hash blake3 R (signed_new from (calldata_shifted tx a) sig)
      = signed_hash blake3 R (signed_new from tx sig)
    \<and> signed_hash blake3 R (signed_new from (other\<lparr>tx_to := None\<rparr>) sig)
      = signed_hash blake3 R (signed_new from (other\<lparr>tx_to := Some address_zero\<rparr>) sig)"
proof -
  have shift: "tx_access_list (calldata_shifted tx a) = None" "tx_type (calldata_shifted tx a) = tx_type tx"
    "tx_to (calldata_shifted tx a) = tx_to tx"
    "tx_max_fee_per_blob_gas (calldata_shifted tx a) = tx_max_fee_per_blob_gas tx"
    "tx_blob_versioned_hashes (calldata_shifted tx a) = tx_blob_versioned_hashes tx"
    by (simp_all add: calldata_shifted_def Let_def)
  have hash: "signing_preimage R tx1 t = signing_preimage R tx2 t \<Longrightarrow>
      signing_hash blake3 R tx1 t = signing_hash blake3 R tx2 t" for tx1 tx2 t
    by (simp add: signing_hash_def)
  have "signing_preimage R (other\<lparr>tx_to := None\<rparr>) t
      = signing_preimage R (other\<lparr>tx_to := Some address_zero\<rparr>) t" for t
    by (simp add: signing_preimage_def recipient_bytes_zero blob_signing_bytes_def)
  note eqs = hash [OF calldata_shifted_preimage [OF assms(1,2)]] hash [OF this]
  have "calldata_shifted tx a \<noteq> tx"
    using shift(1) assms(2) by auto
  moreover have "validate_blob_tx (calldata_shifted tx a) = Inr ()"
    using assms(3) unfolding validate_blob_tx_def shift .
  ultimately show ?thesis
    using shift(1) eqs
    by (simp add: signed_hash_def sender_signing_hash_def batch_signing_hash_def signed_new_def
        validate_access_list_def)
qed

section \<open>Instances\<close>

definition sample_tx :: transaction where
  "sample_tx =
     \<lparr>tx_chain_id = 1, tx_nonce = 7, tx_to = Some address_zero, tx_value = 300, tx_data = [1, 2],
      tx_gas_limit = 50000, tx_max_fee_per_gas = 9, tx_max_priority_fee_per_gas = 1,
      tx_access_list = Some [\<lparr>ali_address = address_zero, ali_storage_keys = []\<rparr>],
      tx_type = AA_BUNDLE_TX_TYPE, tx_max_fee_per_blob_gas = None, tx_blob_versioned_hashes = None\<rparr>"

definition sample_bundle :: aa_bundle where
  "sample_bundle =
     \<lparr>ab_inner_calls = [\<lparr>ic_to = None, ic_value = 200, ic_data = [5], ic_gas_limit = 4000\<rparr>],
      ab_paymaster = Some address_zero, ab_paymaster_signature = None,
      ab_paymaster_context = Some [0],
      ab_session_auth = Some \<lparr>sa_session_pubkey = [3], sa_session_algo = 1, sa_target = None,
        sa_value_cap = 400, sa_expiry_block = 12, sa_root_signature = [4],
        sa_session_signature = [6]\<rparr>\<rparr>"

definition sample_signed :: signed_transaction where
  "sample_signed =
     \<lparr>st_from = Address 5, st_tx = sample_tx, st_signature = \<lparr>sig_type = MlDsa65, sig_data = [8, 9]\<rparr>,
      st_pubkey_mode = Reference, st_aa_bundle = Some sample_bundle\<rparr>"

lemmas reference_codec =
  rlp_reference_def ref_word_def ref_slice_def ref_header_def nat_be.simps

lemma length_sample_tx: "length (transaction_encode rlp_reference sample_tx) \<le> 200"
  unfolding transaction_encode_def transaction_fields_len_eq [OF rlp_reference_laws]
  by (simp add: sample_tx_def opt_address_encode_def bytes_encode_def
      encode_keyless_entry [OF rlp_reference_laws] blob_fee_encode_def encode_blob_hashes_def
      length_address_encode [OF rlp_reference_laws])
    (simp add: reference_codec encode_access_list_def)

lemma length_ref_header: "length (list_header rlp_reference n) \<le> n + 1"
proof -
  have "length (nat_be n) \<le> n"
  proof (induction n rule: nat_be.induct)
    case (1 n)
    then show ?case by (cases "n = 0") (auto simp: nat_be.simps [of 0] nat_be.simps [of n])
  qed
  then show ?thesis by (simp add: rlp_reference_def ref_header_def)
qed

lemma length_sample_bundle: "length (bundle_encode rlp_reference sample_bundle) \<le> 300"
proof -
  let ?sa = "the (ab_session_auth sample_bundle)"
  have "trimmed_value 400 = [1, 144]" by code_simp
  then have "length (session_encode rlp_reference ?sa) \<le> 40"
    unfolding session_encode_def session_fields_len_eq [OF rlp_reference_laws] session_scope_encode_def
    by (simp add: sample_bundle_def opt_address_encode_def) (simp add: reference_codec)
  moreover have "length (inner_call_encode rlp_reference (hd (ab_inner_calls sample_bundle))) \<le> 40"
    unfolding inner_call_encode_def inner_call_fields_len_eq [OF rlp_reference_laws]
    by (simp add: sample_bundle_def opt_address_encode_def bytes_encode_def) (simp add: reference_codec)
  ultimately have "bundle_fields_len rlp_reference sample_bundle \<le> 149"
    using length_ref_header [of "inner_call_length rlp_reference (hd (ab_inner_calls sample_bundle))"]
    by (simp add: bundle_fields_len_eq [OF rlp_reference_laws] encode_inner_calls_def
        session_field_encode_def opt_address_encode_def opt_bytes_encode_def sample_bundle_def
        inner_call_length_eq [OF rlp_reference_laws] length_address_encode [OF rlp_reference_laws])
      (simp add: reference_codec)
  then show ?thesis
    using length_ref_header [of "bundle_fields_len rlp_reference sample_bundle"]
    by (simp flip: bundle_length_eq [OF rlp_reference_laws])
       (simp add: bundle_length_def rlp_lengths [OF rlp_reference_laws] Let_def)
qed

lemma length_sample_signed: "length (signed_encode rlp_reference sample_signed) < usize_bound"
proof -
  have sig: "length (pq_signature_encode rlp_reference (st_signature sample_signed)) \<le> 10"
    by (simp add: sample_signed_def pq_signature_encode_def pq_signature_fields_len_def
        rlp_lengths [OF rlp_reference_laws]) (simp add: reference_codec)
  have "length (pubkey_mode_encode rlp_reference (st_pubkey_mode sample_signed)) = 1"
    by (simp add: sample_signed_def pubkey_mode_encode_def rlp_slice_empty [OF rlp_reference_laws])
  moreover have "length (bundle_field_encode rlp_reference (st_aa_bundle sample_signed)) \<le> 301"
    using length_sample_bundle by (simp add: sample_signed_def bundle_field_encode_def)
  ultimately have "signed_fields_len rlp_reference sample_signed \<le> 1000"
    using sig length_sample_tx
    by (simp add: signed_fields_len_eq [OF rlp_reference_laws] length_address_encode [OF rlp_reference_laws]
        sample_signed_def)
  then show ?thesis
    using length_ref_header [of "signed_fields_len rlp_reference sample_signed"]
    by (simp add: usize_bound_def flip: signed_length_eq [OF rlp_reference_laws])
       (simp add: signed_length_def rlp_lengths [OF rlp_reference_laws] Let_def)
qed


theorem signed_transaction_round_trip_witness:
  "signed_decode rlp_reference (signed_encode rlp_reference sample_signed @ [0xFF])
     = Inr (sample_signed, [0xFF])"
proof -
  have "signed_wire_ok sample_signed"
    by (simp add: signed_wire_ok_def sample_signed_def sample_tx_def sample_bundle_def
        transaction_wire_ok_def access_list_ok_def bundle_wire_ok_def session_wire_ok_def
        validate_size_def)
  moreover have "signed_canonical sample_signed = sample_signed"
    by (simp add: signed_canonical_def sample_signed_def transaction_canonical_def sample_tx_def
        bundle_canonical_def sample_bundle_def)
  ultimately show ?thesis
    using signed_transaction_round_trip [OF rlp_reference_laws length_sample_signed, of "[0xFF]"]
    by simp
qed

lemma length_sample_access_list:
  "length (encode_access_list rlp_reference (tx_access_list sample_tx)) < usize_bound"
  using encode_keyless_entry [OF rlp_reference_laws, of address_zero]
  by (simp add: sample_tx_def encode_access_list_def rlp_header_short [OF rlp_reference_laws]
      usize_bound_def)

theorem signing_hash_binds_fields_witness:
  "same_recipient (Some address_zero) None
   \<and> transaction_canonical sample_tx
     = (transaction_canonical (sample_tx\<lparr>tx_to := None\<rparr>))\<lparr>tx_to := Some address_zero\<rparr>"
proof -
  let ?tx = "sample_tx\<lparr>tx_to := None\<rparr>" and ?blake3 = "\<lambda>bs. ShellHash (of_nat (length bs))"
  have to: "tx_to sample_tx = Some address_zero" by (simp add: sample_tx_def)
  have "signing_preimage rlp_reference sample_tx 1 = signing_preimage rlp_reference ?tx 1"
    by (simp add: signing_preimage_def to recipient_bytes_zero blob_signing_bytes_def)
  moreover have "validate_access_list sample_tx = Inr ()" "validate_blob_tx sample_tx = Inr ()"
    "validate_access_list ?tx = Inr ()" "validate_blob_tx ?tx = Inr ()"
    by (simp_all add: validate_access_list_def validate_blob_tx_def sample_tx_def)
  ultimately show ?thesis
    using signing_hash_binds_fields [OF rlp_reference_laws, of ?blake3 sample_tx 1 ?tx 1]
      length_sample_access_list
    by (simp add: signing_hash_def to)
qed

theorem signature_fits_two_transactions_witness:
  "calldata_shifted sample_tx address_zero \<noteq> sample_tx
   \<and> tx_gas_limit (calldata_shifted sample_tx address_zero) = 0
   \<and> signed_hash (\<lambda>bs. ShellHash (of_nat (be_nat bs))) rlp_reference
       (signed_new (Address 5) (calldata_shifted sample_tx address_zero) \<lparr>sig_type = MlDsa65, sig_data = [8]\<rparr>)
     = signed_hash (\<lambda>bs. ShellHash (of_nat (be_nat bs))) rlp_reference
       (signed_new (Address 5) sample_tx \<lparr>sig_type = MlDsa65, sig_data = [8]\<rparr>)"
proof -
  have "tx_access_list sample_tx = Some [\<lparr>ali_address = address_zero, ali_storage_keys = []\<rparr>]"
    by (simp add: sample_tx_def)
  moreover have "validate_blob_tx sample_tx = Inr ()"
    by (simp add: validate_blob_tx_def sample_tx_def)
  moreover have "tx_gas_limit (calldata_shifted sample_tx address_zero) = 0"
    by (simp add: calldata_shifted_def address_as_bytes_def be_bytes_zero
        be_nat_replicate_zero Let_def)
  ultimately show ?thesis
    using signature_fits_two_transactions [OF rlp_reference_laws, of sample_tx address_zero] by blast
qed

end
