(* ===== verification/Btree_Map.thy ===== *)
theory Btree_Map
  imports Shell_Prelude
begin

text \<open>
  Rust's \<open>BTreeMap\<close>: a map of the prelude whose iteration is in the order of its keys. The
  first entry and the ranges are read off the sorted entries. The second part has the sums over the
  values of a map that an insertion or a removal changes by one term.
\<close>

type_synonym ('k, 'v) btreemap = "('k, 'v) hashmap"

definition bt_entries :: "('k::linorder, 'v) btreemap \<Rightarrow> ('k \<times> 'v) list" where
  "bt_entries m = sort_key fst (hm_entries m)"

definition bt_keys :: "('k::linorder, 'v) btreemap \<Rightarrow> 'k list" where
  "bt_keys m = map fst (bt_entries m)"

definition bt_values :: "('k::linorder, 'v) btreemap \<Rightarrow> 'v list" where
  "bt_values m = map snd (bt_entries m)"

text \<open>\<open>first_key_value\<close>, \<open>range(k..)\<close> and \<open>range(..k)\<close>.\<close>

definition bt_first :: "('k::linorder, 'v) btreemap \<Rightarrow> ('k \<times> 'v) option" where
  "bt_first m = (case bt_entries m of [] \<Rightarrow> None | e # _ \<Rightarrow> Some e)"

definition bt_range_from :: "('k::linorder, 'v) btreemap \<Rightarrow> 'k \<Rightarrow> ('k \<times> 'v) list" where
  "bt_range_from m k = filter (\<lambda>e. k \<le> fst e) (bt_entries m)"

definition bt_range_to :: "('k::linorder, 'v) btreemap \<Rightarrow> 'k \<Rightarrow> ('k \<times> 'v) list" where
  "bt_range_to m k = filter (\<lambda>e. fst e < k) (bt_entries m)"

section \<open>Order\<close>

lemma set_bt_entries: "set (bt_entries m) = set (hm_entries m)"
  by (simp add: bt_entries_def)

lemma bt_in_entries: "(k, v) \<in> set (bt_entries m) \<longleftrightarrow> hm_get m k = Some v"
  by (simp add: set_bt_entries hm_in_entries)

lemma distinct_bt_keys: "distinct (bt_keys m)"
proof -
  have "mset (bt_keys m) = mset (map fst (hm_entries m))" by (simp add: bt_keys_def bt_entries_def)
  then show ?thesis by (metis distinct_fst_hm_entries mset_eq_imp_distinct_iff)
qed

lemma sorted_bt_keys: "sorted_wrt (<) (bt_keys m)"
  using distinct_bt_keys [of m] by (simp add: strict_sorted_iff bt_keys_def bt_entries_def)

lemma set_bt_keys: "set (bt_keys m) = dom (hm_get m)"
  by (simp add: bt_keys_def set_bt_entries flip: set_hm_keys) (simp add: hm_keys_def)

lemma set_bt_values: "v \<in> set (bt_values m) \<longleftrightarrow> (\<exists>k. hm_get m k = Some v)"
  by (force simp: bt_values_def bt_in_entries [symmetric])

lemma bt_entries_empty: "bt_entries m = [] \<longleftrightarrow> (\<forall>k. hm_get m k = None)"
proof
  assume "\<forall>k. hm_get m k = None"
  then have "dom (hm_get m) = {}" by (simp add: dom_def)
  then show "bt_entries m = []" by (simp add: bt_keys_def flip: set_bt_keys)
next
  assume "bt_entries m = []"
  then have "dom (hm_get m) = {}" by (simp add: bt_keys_def flip: set_bt_keys)
  then show "\<forall>k. hm_get m k = None" by (simp add: domIff set_eq_iff)
qed

lemma bt_first_None: "bt_first m = None \<longleftrightarrow> (\<forall>k. hm_get m k = None)"
  by (simp add: bt_first_def flip: bt_entries_empty split: list.split)

lemma bt_first_SomeD:
  assumes "bt_first m = Some (k, v)"
  shows "hm_get m k = Some v \<and> (\<forall>k' v'. hm_get m k' = Some v' \<longrightarrow> k \<le> k')"
proof -
  obtain rest where e: "bt_entries m = (k, v) # rest"
    using assms by (auto simp: bt_first_def split: list.splits)
  then have "\<forall>k' \<in> set (bt_keys m). k \<le> k'"
    using sorted_bt_keys [of m] by (auto simp: bt_keys_def)
  then show ?thesis using e by (auto simp: set_bt_keys dom_def bt_in_entries [symmetric])
qed

lemma bt_in_range_from: "(k', v) \<in> set (bt_range_from m k) \<longleftrightarrow> k \<le> k' \<and> hm_get m k' = Some v"
  by (auto simp: bt_range_from_def bt_in_entries)

lemma bt_in_range_to: "(k', v) \<in> set (bt_range_to m k) \<longleftrightarrow> k' < k \<and> hm_get m k' = Some v"
  by (auto simp: bt_range_to_def bt_in_entries)

text \<open>The head of \<open>range(k..)\<close> is the entry of \<open>k\<close> when there is one.\<close>

lemma bt_range_from_hit:
  assumes "hm_get m k = Some v"
  shows "\<exists>rest. bt_range_from m k = (k, v) # rest"
proof -
  obtain xs ys where e: "bt_entries m = xs @ (k, v) # ys"
    using assms split_list [of "(k, v)" "bt_entries m"] by (auto simp: bt_in_entries)
  then have "\<forall>x \<in> set xs. fst x < k"
    using sorted_bt_keys [of m] by (auto simp: bt_keys_def sorted_wrt_append)
  then have "filter (\<lambda>e. k \<le> fst e) xs = []" by (auto simp: filter_empty_conv not_le)
  then show ?thesis by (simp add: bt_range_from_def e)
qed

lemma bt_range_from_hd:
  "(case bt_range_from m k of [] \<Rightarrow> None | e # _ \<Rightarrow> if fst e = k then Some (snd e) else None) = hm_get m k"
proof (cases "hm_get m k")
  case None
  have "fst e \<noteq> k" if "bt_range_from m k = e # es" for e es
    using that bt_in_range_from [of "fst e" "snd e" m k] None by auto
  then show ?thesis using None by (auto split: list.split)
next
  case (Some v)
  then show ?thesis using bt_range_from_hit [OF Some] by auto
qed

section \<open>Sums over the values\<close>

lemma hm_keys_Suc: "hm_get m k = Some v \<Longrightarrow> hm_len m = Suc (hm_len (hm_remove m k))"
proof -
  assume "hm_get m k = Some v"
  then have "dom (hm_get m) = insert k (dom (hm_get (hm_remove m k)))"
    by (auto split: if_splits)
  then show ?thesis by (simp add: hm_len_card card_insert_if domIff)
qed

lemma sum_hm_values_dom:
  "sum_list (map f (hm_values m)) = (\<Sum>k \<in> dom (hm_get m). f (the (hm_get m k)))" for f :: "'v \<Rightarrow> nat"
  by (simp add: sum_hm_values set_hm_keys)

lemma sum_hm_remove:
  fixes f :: "'v \<Rightarrow> nat"
  assumes "hm_get m k = Some v"
  shows "sum_list (map f (hm_values m)) = f v + sum_list (map f (hm_values (hm_remove m k)))"
proof -
  have dom: "dom (hm_get (hm_remove m k)) = dom (hm_get m) - {k}" by (auto split: if_splits)
  have "(\<Sum>x \<in> dom (hm_get m). f (the (hm_get m x))) =
      f v + (\<Sum>x \<in> dom (hm_get m) - {k}. f (the (hm_get m x)))"
    using assms by (subst sum.remove [of _ k]) auto
  also have "(\<Sum>x \<in> dom (hm_get m) - {k}. f (the (hm_get m x))) =
      (\<Sum>x \<in> dom (hm_get m) - {k}. f (the (hm_get (hm_remove m k) x)))"
    by (rule sum.cong) auto
  finally show ?thesis by (simp add: sum_hm_values_dom dom)
qed

lemma sum_hm_insert:
  fixes f :: "'v \<Rightarrow> nat"
  assumes "hm_get m k = None"
  shows "sum_list (map f (hm_values (hm_insert m k v))) = f v + sum_list (map f (hm_values m))"
proof -
  have "hm_get (hm_remove (hm_insert m k v) k) = hm_get m" using assms by auto
  then show ?thesis
    using sum_hm_remove [of "hm_insert m k v" k v f] by (simp add: sum_hm_values_dom)
qed

end
