(* ===== verification/Kv_Store.thy ===== *)
theory Kv_Store
  imports Btree_Map "HOL-Library.List_Lexorder"
begin

text \<open>
  The key-value interface of \<open>crates/storage/src/kv_store.rs\<close> and its in-memory implementation
  \<open>memory_db.rs\<close>. Keys and values are byte strings, ordered like \<open>Vec<u8>\<close>.

  The trait \<open>KvStore\<close> is a record of operations on a state; the methods with a default body are
  functions of the others. The locale \<open>lawful_store\<close> has what its clients rely on: a read returns
  the current value, a batch applies its operations in order, a scan returns exactly the matching
  entries in the order of the keys. \<open>MemoryDb\<close> is an interpretation. Errors of a poisoned lock are
  left out: no thread panics while it holds one.

  The range scans do not look at every key. \<open>prefix_range_bounds\<close> turns a prefix into an interval
  of keys, and the theorem says that the interval has exactly the keys with the prefix.
\<close>

section \<open>The interface\<close>

type_synonym kv_key = "u8 list"
type_synonym kv_value = "u8 list"

datatype storage_error =
    NotFound
  | StorageInvalidInput string
  | Database string
  | Serialization string
  | Trie string
  | Codec string
  | StateError string

datatype write_batch_op = Put kv_key kv_value | Delete kv_key

type_synonym write_batch = "write_batch_op list"

text \<open>\<open>key.starts_with(prefix)\<close>.\<close>

definition starts_with :: "kv_key \<Rightarrow> kv_key \<Rightarrow> bool" where
  "starts_with key prefix = (take (length prefix) key = prefix)"

record 's kv_ops =
  kv_get :: "'s \<Rightarrow> kv_key \<Rightarrow> storage_error + kv_value option"
  kv_put :: "'s \<Rightarrow> kv_key \<Rightarrow> kv_value \<Rightarrow> storage_error + 's"
  kv_delete :: "'s \<Rightarrow> kv_key \<Rightarrow> storage_error + 's"
  kv_write_batch :: "'s \<Rightarrow> write_batch \<Rightarrow> storage_error + 's"
  kv_scan_prefix :: "'s \<Rightarrow> kv_key \<Rightarrow> storage_error + (kv_key \<times> kv_value) list"
  kv_scan_prefix_after :: "'s \<Rightarrow> kv_key \<Rightarrow> kv_key option \<Rightarrow> usize \<Rightarrow> storage_error + (kv_key \<times> kv_value) list"
  kv_snapshot_prefixes :: "'s \<Rightarrow> kv_key list \<Rightarrow> usize \<Rightarrow> storage_error + (kv_key, kv_value) btreemap"

definition default_scan_prefix_range ::
    "(kv_key \<Rightarrow> storage_error + (kv_key \<times> kv_value) list) \<Rightarrow> kv_key \<Rightarrow> kv_key \<Rightarrow> kv_key option
       \<Rightarrow> storage_error + (kv_key \<times> kv_value) list" where
  "default_scan_prefix_range scan_prefix prefix start end_key =
     (if (case end_key of None \<Rightarrow> False | Some e \<Rightarrow> e \<le> start) then Inr []
      else bind_ok (scan_prefix prefix) (\<lambda>entries.
        Inr (filter (\<lambda>(key, _). start \<le> key \<and> (case end_key of None \<Rightarrow> True | Some e \<Rightarrow> key < e)) entries)))"

definition default_scan_prefix_after ::
    "(kv_key \<Rightarrow> storage_error + (kv_key \<times> kv_value) list) \<Rightarrow> kv_key \<Rightarrow> kv_key option \<Rightarrow> usize
       \<Rightarrow> storage_error + (kv_key \<times> kv_value) list" where
  "default_scan_prefix_after scan_prefix prefix after limit =
     (if limit = 0 then Inr []
      else bind_ok (scan_prefix prefix) (\<lambda>entries.
        Inr (take limit
          (filter (\<lambda>(key, _). \<not> (case after of None \<Rightarrow> False | Some a \<Rightarrow> key \<le> a)) entries))))"

section \<open>The range of a prefix\<close>

definition prefix_range_bounds :: "kv_key \<Rightarrow> kv_key \<Rightarrow> kv_key option \<Rightarrow> kv_key \<times> kv_key option" where
  "prefix_range_bounds prefix start end_key =
     (let lower = max start prefix;
          next_key = rev (dropWhile (\<lambda>b. b = u_max) (rev prefix));
          prefix_end = (if next_key = [] then None else Some (butlast next_key @ [last next_key + 1]));
          upper = (case (prefix_end, end_key) of
                     (Some p, Some e) \<Rightarrow> Some (min p e)
                   | (Some p, None) \<Rightarrow> Some p
                   | (None, e) \<Rightarrow> e)
      in (lower, upper))"

text \<open>\<open>map.range((Included(start), end))\<close> of a \<open>BTreeMap\<close>.\<close>

definition bt_between :: "('k::linorder, 'v) btreemap \<Rightarrow> 'k \<Rightarrow> 'k option \<Rightarrow> ('k \<times> 'v) list" where
  "bt_between m lower upper =
     filter (\<lambda>e. lower \<le> fst e \<and> (case upper of None \<Rightarrow> True | Some u \<Rightarrow> fst e < u)) (bt_entries m)"

section \<open>The in-memory store\<close>

type_synonym memory_db = "(kv_key, kv_value) btreemap"

definition apply_op :: "memory_db \<Rightarrow> write_batch_op \<Rightarrow> memory_db" where
  "apply_op data op = (case op of Put key value \<Rightarrow> hm_insert data key value | Delete key \<Rightarrow> hm_remove data key)"

definition mem_scan_prefix :: "memory_db \<Rightarrow> kv_key \<Rightarrow> storage_error + (kv_key \<times> kv_value) list" where
  "mem_scan_prefix data prefix = Inr (sort_key fst (filter (\<lambda>(k, _). starts_with k prefix) (bt_entries data)))"

definition mem_scan_prefix_range ::
    "memory_db \<Rightarrow> kv_key \<Rightarrow> kv_key \<Rightarrow> kv_key option \<Rightarrow> storage_error + (kv_key \<times> kv_value) list" where
  "mem_scan_prefix_range data prefix start end_key =
     (if (case end_key of None \<Rightarrow> False | Some e \<Rightarrow> e \<le> start) then Inr []
      else Inr (sort_key fst (filter (\<lambda>(key, _). starts_with key prefix \<and> start \<le> key
                 \<and> (case end_key of None \<Rightarrow> True | Some e \<Rightarrow> key < e)) (bt_entries data))))"

text \<open>The visitor threads a state, and returns whether to go on.\<close>

fun visit_entries ::
    "(kv_key \<Rightarrow> kv_value \<Rightarrow> 'a \<Rightarrow> storage_error + bool \<times> 'a) \<Rightarrow> (kv_key \<times> kv_value) list \<Rightarrow> 'a
       \<Rightarrow> storage_error + 'a" where
  "visit_entries visitor [] acc = Inr acc"
| "visit_entries visitor ((key, value) # entries) acc =
     bind_ok (visitor key value acc) (\<lambda>(go_on, acc).
       if go_on then visit_entries visitor entries acc else Inr acc)"

definition mem_visit_prefix_range ::
    "memory_db \<Rightarrow> kv_key \<Rightarrow> kv_key \<Rightarrow> kv_key option \<Rightarrow> bool
       \<Rightarrow> (kv_key \<Rightarrow> kv_value \<Rightarrow> 'a \<Rightarrow> storage_error + bool \<times> 'a) \<Rightarrow> 'a \<Rightarrow> storage_error + 'a" where
  "mem_visit_prefix_range data prefix start end_key reverse visitor acc =
     (case prefix_range_bounds prefix start end_key of (lower, upper) \<Rightarrow>
        if (case upper of None \<Rightarrow> False | Some u \<Rightarrow> u \<le> lower) then Inr acc
        else visit_entries visitor ((if reverse then rev else id) (bt_between data lower upper)) acc)"

definition mem_scan_prefix_after ::
    "memory_db \<Rightarrow> kv_key \<Rightarrow> kv_key option \<Rightarrow> usize \<Rightarrow> storage_error + (kv_key \<times> kv_value) list" where
  "mem_scan_prefix_after data prefix after limit =
     (if limit = 0 then Inr []
      else case prefix_range_bounds prefix (case after of Some a \<Rightarrow> a | None \<Rightarrow> prefix) None of (lower, upper) \<Rightarrow>
        if (case upper of None \<Rightarrow> False | Some u \<Rightarrow> u \<le> lower) then Inr []
        else Inr (take limit
          (filter (\<lambda>(key, _). case after of None \<Rightarrow> True | Some a \<Rightarrow> a < key) (bt_between data lower upper))))"

definition insert_snapshot_entry ::
    "usize \<Rightarrow> kv_key \<times> kv_value \<Rightarrow> memory_db \<times> usize \<Rightarrow> storage_error + memory_db \<times> usize" where
  "insert_snapshot_entry max_bytes kv acc =
     (case kv of (key, value) \<Rightarrow>
        (case acc of (entries, bytes) \<Rightarrow>
           if hm_contains entries key then Inr (entries, bytes)
           else let bytes = usize_sat_add (usize_sat_add (usize_sat_add bytes (length key)) (length value)) 128
                in if max_bytes < bytes then Inl (Database ''prefix snapshot exceeds memory limit'')
                   else Inr (hm_insert entries key value, bytes)))"

fun mem_snapshot_loop ::
    "usize \<Rightarrow> (kv_key \<times> kv_value) list \<Rightarrow> memory_db \<times> usize \<Rightarrow> storage_error + memory_db \<times> usize" where
  "mem_snapshot_loop max_bytes [] acc = Inr acc"
| "mem_snapshot_loop max_bytes (kv # kvs) acc =
     bind_ok (insert_snapshot_entry max_bytes kv acc) (mem_snapshot_loop max_bytes kvs)"

definition mem_ops :: "memory_db kv_ops" where
  "mem_ops =
     \<lparr>kv_get = (\<lambda>data key. Inr (hm_get data key)),
      kv_put = (\<lambda>data key value. Inr (hm_insert data key value)),
      kv_delete = (\<lambda>data key. Inr (hm_remove data key)),
      kv_write_batch = (\<lambda>data batch. Inr (foldl apply_op data batch)),
      kv_scan_prefix = mem_scan_prefix,
      kv_scan_prefix_after = mem_scan_prefix_after,
      kv_snapshot_prefixes = (\<lambda>data prefixes max_bytes.
        bind_ok (mem_snapshot_loop max_bytes
            (filter (\<lambda>(key, _). list_ex (starts_with key) prefixes) (bt_entries data)) (hm_new, 0))
          (\<lambda>(entries, _). Inr entries))\<rparr>"

section \<open>A prefix is an interval\<close>

lemma starts_with_simps [simp]:
  "starts_with k []"
  "\<not> starts_with [] (b # p)"
  "starts_with (c # k) (b # p) \<longleftrightarrow> c = b \<and> starts_with k p"
  by (auto simp: starts_with_def)

lemma starts_with_iff: "starts_with k p \<longleftrightarrow> (\<exists>rest. k = p @ rest)"
  by (metis append_eq_conv_conj append_take_drop_id starts_with_def)

lemma starts_with_append [simp]: "starts_with (p @ k) (p @ q) \<longleftrightarrow> starts_with k q"
  by (simp add: starts_with_iff)

text \<open>The least key above all keys with the prefix, by recursion on the prefix.\<close>

fun next_prefix :: "kv_key \<Rightarrow> kv_key option" where
  "next_prefix [] = None"
| "next_prefix (b # p) =
     (case next_prefix p of Some q \<Rightarrow> Some (b # q) | None \<Rightarrow> if b = u_max then None else Some [b + 1])"

lemma next_prefix_strips:
  "next_prefix p = (let n = rev (dropWhile (\<lambda>b. b = u_max) (rev p)) in
     if n = [] then None else Some (butlast n @ [last n + 1]))"
proof (induction p)
  case (Cons b p)
  have "rev (dropWhile (\<lambda>b. b = u_max) (rev (b # p))) =
      (let n = rev (dropWhile (\<lambda>b. b = u_max) (rev p)) in
       if n = [] then if b = u_max then [] else [b] else b # n)"
    by (auto simp: dropWhile_append Let_def)
  then show ?case using Cons.IH by (auto simp: Let_def)
qed simp

lemma u8_succ_less: "b \<noteq> u_max \<Longrightarrow> c < b + 1 \<longleftrightarrow> c \<le> b" for b c :: u8
proof -
  assume "b \<noteq> u_max"
  then have "unat b \<noteq> unat (u_max :: u8)" by (metis word_unat_eq_iff)
  then have "unat b \<noteq> 255" by (simp add: unat_u_max)
  moreover have "unat b < 256" using unat_bound [of b] by simp
  ultimately have "unat b < 255" by linarith
  then have "unat (b + 1) = unat b + 1" by (simp add: unat_plus_fits)
  then show ?thesis by (simp add: word_less_nat_alt word_le_nat_alt less_Suc_eq_le)
qed

lemma prefix_interval:
  "p \<le> k \<and> (case next_prefix p of None \<Rightarrow> True | Some q \<Rightarrow> k < q) \<longleftrightarrow> starts_with k p"
proof (induction p arbitrary: k)
  case (Cons b p)
  show ?case
  proof (cases k)
    case (Cons c k')
    have "b < c \<Longrightarrow> b \<noteq> u_max" by (metis leD word_order.extremum)
    then show ?thesis
      using Cons.IH [of k'] Cons by (auto simp: u8_succ_less split: option.splits if_splits)
  qed simp
qed simp

section \<open>The range scans\<close>

lemma prefix_range_bounds_exact:
  assumes "prefix_range_bounds p start end_key = (lower, upper)"
  shows "lower \<le> k \<and> (case upper of None \<Rightarrow> True | Some u \<Rightarrow> k < u)
    \<longleftrightarrow> starts_with k p \<and> start \<le> k \<and> (case end_key of None \<Rightarrow> True | Some e \<Rightarrow> k < e)"
proof -
  have "lower = max start p"
    and "upper = (case (next_prefix p, end_key) of
        (Some q, Some e) \<Rightarrow> Some (min q e) | (Some q, None) \<Rightarrow> Some q | (None, e) \<Rightarrow> e)"
    using assms by (simp_all add: prefix_range_bounds_def next_prefix_strips Let_def)
  then show ?thesis
    using prefix_interval [of p k] by (auto split: option.splits)
qed

lemma starts_with_le: "starts_with k p \<Longrightarrow> p \<le> k"
  using prefix_interval [of p k] by simp

lemma bt_between_prefix:
  assumes "prefix_range_bounds p start end_key = (lower, upper)"
  shows "bt_between m lower upper = filter (\<lambda>(k, _). starts_with k p \<and> start \<le> k
    \<and> (case end_key of None \<Rightarrow> True | Some e \<Rightarrow> k < e)) (bt_entries m)"
  unfolding bt_between_def by (rule filter_cong) (auto simp: prefix_range_bounds_exact [OF assms] split: option.splits)

lemma bt_between_empty: "upper = Some u \<Longrightarrow> u \<le> lower \<Longrightarrow> bt_between m lower upper = []"
  by (auto simp: bt_between_def filter_empty_conv)

lemma sorted_map_bt_entries: "sorted (map fst (filter P (bt_entries m)))"
  using sorted_bt_keys [of m] unfolding bt_keys_def
  by (intro sorted_filter) (simp add: strict_sorted_imp_sorted)

lemma sort_bt_filter [simp]: "sort_key fst (filter P (bt_entries m)) = filter P (bt_entries m)"
  by (rule sort_key_id_if_sorted) (rule sorted_map_bt_entries)

lemma mem_scan_prefix_range_default:
  "mem_scan_prefix_range m p start end_key = default_scan_prefix_range (mem_scan_prefix m) p start end_key"
  by (auto simp: mem_scan_prefix_range_def default_scan_prefix_range_def mem_scan_prefix_def bind_ok_def
      intro!: filter_cong split: option.split)

lemma mem_scan_prefix_after_default:
  "mem_scan_prefix_after m p after limit = default_scan_prefix_after (mem_scan_prefix m) p after limit"
proof -
  let ?start = "case after of Some a \<Rightarrow> a | None \<Rightarrow> p"
  obtain lower upper where b: "prefix_range_bounds p ?start None = (lower, upper)" by (cases "prefix_range_bounds p ?start None")
  have "filter (\<lambda>(key, _). case after of None \<Rightarrow> True | Some a \<Rightarrow> a < key) (bt_between m lower upper)
      = filter (\<lambda>(key, _). \<not> (case after of None \<Rightarrow> False | Some a \<Rightarrow> key \<le> a))
          (filter (\<lambda>(k, _). starts_with k p) (bt_entries m))"
    unfolding bt_between_prefix [OF b] filter_filter
    by (rule filter_cong) (auto dest: starts_with_le split: option.splits)
  then show ?thesis
    using bt_between_empty [of upper _ lower m]
    by (auto simp: mem_scan_prefix_after_def default_scan_prefix_after_def mem_scan_prefix_def bind_ok_def b
        split: option.splits)
qed

lemma mem_visit_default:
  "mem_visit_prefix_range m p start end_key reverse visitor acc
   = bind_ok (default_scan_prefix_range (mem_scan_prefix m) p start end_key) (\<lambda>entries.
       visit_entries visitor ((if reverse then rev else id) entries) acc)"
proof -
  obtain lower upper where b: "prefix_range_bounds p start end_key = (lower, upper)"
    by (cases "prefix_range_bounds p start end_key")
  have scan: "default_scan_prefix_range (mem_scan_prefix m) p start end_key = Inr (bt_between m lower upper)"
    unfolding mem_scan_prefix_range_default [symmetric] bt_between_prefix [OF b]
    by (auto simp: mem_scan_prefix_range_def intro: filter_False [symmetric] split: option.splits)
  show ?thesis
    using bt_between_empty [of upper _ lower m]
    by (auto simp: mem_visit_prefix_range_def b scan bind_ok_def split: option.splits)
qed

section \<open>Lawful stores\<close>

text \<open>The abstract store is a partial function, and a batch applies its operations in order.\<close>

definition apply_view :: "(kv_key \<Rightarrow> kv_value option) \<Rightarrow> write_batch_op \<Rightarrow> kv_key \<Rightarrow> kv_value option" where
  "apply_view m op = (case op of Put key value \<Rightarrow> m(key := Some value) | Delete key \<Rightarrow> m(key := None))"

abbreviation apply_views :: "write_batch \<Rightarrow> (kv_key \<Rightarrow> kv_value option) \<Rightarrow> kv_key \<Rightarrow> kv_value option" where
  "apply_views batch m \<equiv> foldl apply_view m batch"

definition lists_prefix :: "(kv_key \<Rightarrow> kv_value option) \<Rightarrow> kv_key \<Rightarrow> (kv_key \<times> kv_value) list \<Rightarrow> bool" where
  "lists_prefix m p entries \<longleftrightarrow>
     sorted_wrt (<) (map fst entries) \<and> (\<forall>k v. (k, v) \<in> set entries \<longleftrightarrow> starts_with k p \<and> m k = Some v)"

locale lawful_store =
  fixes K :: "'s kv_ops" and inv :: "'s \<Rightarrow> bool" and view :: "'s \<Rightarrow> kv_key \<Rightarrow> kv_value option"
  assumes finite_view: "inv s \<Longrightarrow> finite (dom (view s))"
    and get_law: "inv s \<Longrightarrow> kv_get K s k = Inr r \<Longrightarrow> r = view s k"
    and put_law: "inv s \<Longrightarrow> kv_put K s k v = Inr s' \<Longrightarrow> inv s' \<and> view s' = (view s)(k := Some v)"
    and delete_law: "inv s \<Longrightarrow> kv_delete K s k = Inr s' \<Longrightarrow> inv s' \<and> view s' = (view s)(k := None)"
    and write_law: "inv s \<Longrightarrow> kv_write_batch K s batch = Inr s' \<Longrightarrow> inv s' \<and> view s' = apply_views batch (view s)"
    and scan_law: "inv s \<Longrightarrow> kv_scan_prefix K s p = Inr entries \<Longrightarrow> lists_prefix (view s) p entries"
    and after_law: "inv s \<Longrightarrow> kv_scan_prefix_after K s p after limit = Inr entries \<Longrightarrow>
      \<exists>all. lists_prefix (view s) p all
        \<and> entries = take limit (filter (\<lambda>(k, _). \<not> (case after of None \<Rightarrow> False | Some a \<Rightarrow> k \<le> a)) all)"
    and snapshot_law: "inv s \<Longrightarrow> kv_snapshot_prefixes K s prefixes max_bytes = Inr m \<Longrightarrow>
      hm_get m k = (if list_ex (starts_with k) prefixes then view s k else None)"

text \<open>A store whose operations do not fail, as the in-memory one.\<close>

locale reliable_store = lawful_store +
  assumes get_ok: "inv s \<Longrightarrow> \<exists>r. kv_get K s k = Inr r"
    and delete_ok: "inv s \<Longrightarrow> \<exists>s'. kv_delete K s k = Inr s'"
    and write_ok: "inv s \<Longrightarrow> \<exists>s'. kv_write_batch K s batch = Inr s'"
    and scan_ok: "inv s \<Longrightarrow> \<exists>entries. kv_scan_prefix K s p = Inr entries"
    and after_ok: "inv s \<Longrightarrow> \<exists>entries. kv_scan_prefix_after K s p after limit = Inr entries"
begin

lemma get_eq: "inv s \<Longrightarrow> kv_get K s k = Inr (view s k)"
  using get_ok get_law by metis

end

lemma view_apply_op: "hm_get (apply_op m op) = apply_view (hm_get m) op"
  by (auto simp: apply_op_def apply_view_def fun_eq_iff split: write_batch_op.split)

lemma view_apply_ops: "hm_get (foldl apply_op m batch) = apply_views batch (hm_get m)"
  by (induction batch arbitrary: m) (simp_all add: view_apply_op)

lemma mem_scan_lists: "lists_prefix (hm_get m) p (filter (\<lambda>(k, _). starts_with k p) (bt_entries m))"
proof -
  have "sorted_wrt (<) (map fst (filter P (bt_entries m)))" for P
  proof -
    have "distinct (map fst (filter P (bt_entries m)))"
      using distinct_bt_keys [of m] unfolding bt_keys_def by (rule distinct_map_filter)
    then show ?thesis by (simp add: strict_sorted_iff sorted_map_bt_entries)
  qed
  then show ?thesis by (auto simp: lists_prefix_def bt_in_entries)
qed

lemma mem_snapshot_loop_get:
  assumes "mem_snapshot_loop max_bytes kvs (m, n) = Inr (m', n')" and "distinct (map fst kvs)"
    and "\<forall>kv \<in> set kvs. hm_get m (fst kv) = None"
  shows "hm_get m' k = (case map_of kvs k of Some v \<Rightarrow> Some v | None \<Rightarrow> hm_get m k)"
  using assms
proof (induction kvs arbitrary: m n)
  case (Cons kv kvs)
  obtain key v where kv: "kv = (key, v)" by (cases kv)
  with Cons.prems obtain n1 where "mem_snapshot_loop max_bytes kvs (hm_insert m key v, n1) = Inr (m', n')"
    by (auto simp: insert_snapshot_entry_def hm_contains_def Let_def bind_simps split: if_splits)
  moreover have key: "key \<notin> fst ` set kvs" and "distinct (map fst kvs)"
    and "\<forall>kv \<in> set kvs. hm_get (hm_insert m key v) (fst kv) = None"
    using Cons.prems(2,3) kv by auto
  ultimately have "hm_get m' k = (case map_of kvs k of Some v \<Rightarrow> Some v | None \<Rightarrow> hm_get (hm_insert m key v) k)"
    by (blast intro: Cons.IH)
  moreover have "map_of kvs key = None" using key by (simp add: map_of_eq_None_iff)
  ultimately show ?case by (cases "k = key"; cases "map_of kvs k") (simp_all add: kv)
qed simp

lemma map_of_bt_entries: "map_of (bt_entries m) k = hm_get m k"
proof -
  have "distinct (map fst (bt_entries m))" using distinct_bt_keys [of m] by (simp add: bt_keys_def)
  then have "map_of (bt_entries m) k = Some v \<longleftrightarrow> hm_get m k = Some v" for v by (simp add: bt_in_entries)
  then show ?thesis by (metis not_None_eq)
qed

lemma mem_snapshot_get:
  assumes "kv_snapshot_prefixes mem_ops m prefixes max_bytes = Inr m'"
  shows "hm_get m' k = (if list_ex (starts_with k) prefixes then hm_get m k else None)"
proof -
  let ?kvs = "filter (\<lambda>(key, _). list_ex (starts_with key) prefixes) (bt_entries m)"
  obtain n' where "mem_snapshot_loop max_bytes ?kvs (hm_new, 0) = Inr (m', n')"
    using assms by (auto simp: mem_ops_def bind_simps)
  moreover have d: "distinct (map fst (bt_entries m))" using distinct_bt_keys [of m] by (simp add: bt_keys_def)
  ultimately have "hm_get m' k = (case map_of ?kvs k of Some v \<Rightarrow> Some v | None \<Rightarrow> hm_get hm_new k)"
    by (intro mem_snapshot_loop_get) (auto intro: distinct_map_filter)
  then have "hm_get m' k = map_of ?kvs k" by (simp split: option.splits)
  then show ?thesis
    by (simp add: map_of_filter_distinct [OF d, of "\<lambda>key _. list_ex (starts_with key) prefixes"] map_of_bt_entries
        split: option.split)
qed

lemma mem_after_lists:
  assumes "mem_scan_prefix_after m p after limit = Inr entries"
  shows "\<exists>all. lists_prefix (hm_get m) p all
    \<and> entries = take limit (filter (\<lambda>(k, _). \<not> (case after of None \<Rightarrow> False | Some a \<Rightarrow> k \<le> a)) all)"
  using assms mem_scan_lists [of m p]
  by (auto simp: mem_scan_prefix_after_default default_scan_prefix_after_def mem_scan_prefix_def bind_ok_def split: if_splits)

lemma mem_ops_simps:
  "kv_get mem_ops m k = Inr (hm_get m k)" "kv_put mem_ops m k v = Inr (hm_insert m k v)"
  "kv_delete mem_ops m k = Inr (hm_remove m k)" "kv_write_batch mem_ops m batch = Inr (foldl apply_op m batch)"
  "kv_scan_prefix mem_ops m p = Inr (filter (\<lambda>(k, _). starts_with k p) (bt_entries m))"
  "kv_scan_prefix_after mem_ops m p after limit = mem_scan_prefix_after m p after limit"
  by (simp_all add: mem_ops_def mem_scan_prefix_def)

interpretation mem: lawful_store mem_ops "\<lambda>_. True" hm_get
  by unfold_locales
    (auto simp: mem_ops_simps view_apply_ops mem_scan_lists fun_eq_iff mem_snapshot_get dest: mem_after_lists)

interpretation mem_ok: reliable_store mem_ops "\<lambda>_. True" hm_get
  by unfold_locales
    (auto simp: mem_ops_simps mem_scan_prefix_after_default default_scan_prefix_after_def mem_scan_prefix_def bind_ok_def)

section \<open>Range scans\<close>

text \<open>
  C24: the range scans of the in-memory store, which read an interval of the ordered map, agree with the
  default bodies of the trait, which read every key with the prefix: scanning after a key with a
  limit, visiting forwards or backwards between two keys with any visitor, and scanning between
  two keys.
\<close>

theorem range_scans_match_defaults:
  "mem_scan_prefix_after data prefix after limit = default_scan_prefix_after (mem_scan_prefix data) prefix after limit
   \<and> mem_scan_prefix_range data prefix start end_key
     = default_scan_prefix_range (mem_scan_prefix data) prefix start end_key
   \<and> mem_visit_prefix_range data prefix start end_key reverse visitor acc
     = bind_ok (default_scan_prefix_range (mem_scan_prefix data) prefix start end_key) (\<lambda>entries.
         visit_entries visitor ((if reverse then rev else id) entries) acc)"
  by (simp add: mem_scan_prefix_after_default mem_scan_prefix_range_default mem_visit_default)

end
