(* ===== verification/Tx_Validation.thy ===== *)
theory Tx_Validation
  imports Transaction Block_Header Kv_Store
begin

text \<open>
  Admission of transactions: \<open>crates/pqvm/src/tx_validation.rs\<close>, the authorisation rules of
  \<open>aa_validation.rs\<close> (root keys, session keys, governance fallback keys, paymasters) and
  \<open>key_binding.rs\<close>, with the account record of \<open>crates/core/src/account.rs\<close>.

  The stores are read only. A \<open>chain_view\<close> gives what each read returns, or the storage error
  it fails with. The bytecode interpreter is third-party code: an \<open>evm_env\<close> gives the outcome of
  the two contract calls (a custom validator, a contract paymaster). The hash functions, the
  signature verifier and the codec are in a \<open>crypto_env\<close>. The registration of a public key,
  the only write, is part of the result.

  The theorems: an accepted transaction of an account without custom validator is authorised by
  the key bound to its sender; it pays for its intrinsic gas and its payer owns the maximal cost,
  in exact arithmetic; and whatever admission accepts, block import accepts in the same state.
\<close>

section \<open>Accounts and reads\<close>

record account =
  acc_pq_pubkey_hash :: shell_hash
  acc_nonce :: u64
  acc_balance :: u256
  acc_validation_code_hash :: "shell_hash option"
  acc_code_hash :: "shell_hash option"
  acc_storage_root :: shell_hash

definition new_user_account :: "shell_hash \<Rightarrow> u256 \<Rightarrow> account" where
  "new_user_account key_hash balance =
     \<lparr>acc_pq_pubkey_hash = key_hash, acc_nonce = 0, acc_balance = balance,
      acc_validation_code_hash = None, acc_code_hash = None, acc_storage_root = hash_zero\<rparr>"

abbreviation (input) has_custom_validation :: "account \<Rightarrow> bool" where
  "has_custom_validation a \<equiv> (acc_validation_code_hash a \<noteq> None)"

text \<open>The activation heights of \<open>ChainConfig\<close> that transaction validation reads.\<close>

record chain_config =
  cfg_algorithm_deprecation_height :: "u64 option"
  cfg_algorithm_session_deprecation_height :: "u64 option"
  cfg_algorithm_paymaster_deprecation_height :: "u64 option"
  cfg_algorithm_activation_admission_height :: "u64 option"
  cfg_paymaster_registered_root_height :: "u64 option"
  cfg_registered_key_algorithm_height :: "u64 option"
  cfg_emergency_governance_height :: "u64 option"

datatype algorithm_slot = StatusSlot | QuorumApprovedSlot | ActivationHeightSlot

record chain_view =
  view_account :: "address \<Rightarrow> storage_error + account option"
  view_pubkey :: "address \<Rightarrow> storage_error + u8 list option"
  view_config :: "storage_error + chain_config option"
  view_head :: "storage_error + block_header option"
  view_code :: "shell_hash \<Rightarrow> storage_error + u8 list option"
  view_validators :: "storage_error + address list"
  view_fallback_bindings :: "storage_error + bool"
  view_fallback_key :: "address \<Rightarrow> storage_error + u8 list option"
  view_algorithm_slot :: "algorithm_slot \<Rightarrow> signature_type \<Rightarrow> storage_error + u256"
  view_registry_addr :: address

record crypto_env =
  ce_registry :: registry_env
  ce_blake3 :: "u8 list \<Rightarrow> shell_hash"
  ce_keccak :: "u8 list \<Rightarrow> shell_hash"
  ce_rlp :: rlp_codec
  ce_verify :: verifier

text \<open>\<open>option.is_some_and(|height| number >= height)\<close>.\<close>

definition active_at :: "u64 option \<Rightarrow> u64 \<Rightarrow> bool" where
  "active_at height number = (case height of None \<Rightarrow> False | Some h \<Rightarrow> h \<le> number)"

definition config_active ::
    "(chain_config \<Rightarrow> u64 option) \<Rightarrow> chain_view \<Rightarrow> u64 \<Rightarrow> storage_error + bool" where
  "config_active field v number =
     (case view_config v of
        Inl e \<Rightarrow> Inl e
      | Inr None \<Rightarrow> Inr False
      | Inr (Some cfg) \<Rightarrow> Inr (active_at (field cfg) number))"

definition get_balance :: "chain_view \<Rightarrow> address \<Rightarrow> storage_error + u256" where
  "get_balance v a =
     (case view_account v a of
        Inl e \<Rightarrow> Inl e
      | Inr None \<Rightarrow> Inr 0
      | Inr (Some acc) \<Rightarrow> Inr (acc_balance acc))"

definition get_nonce :: "chain_view \<Rightarrow> address \<Rightarrow> storage_error + u64" where
  "get_nonce v a =
     (case view_account v a of
        Inl e \<Rightarrow> Inl e
      | Inr None \<Rightarrow> Inr 0
      | Inr (Some acc) \<Rightarrow> Inr (acc_nonce acc))"

section \<open>Key binding\<close>

definition algorithm_hash :: "crypto_env \<Rightarrow> u8 list \<Rightarrow> signature_type \<Rightarrow> shell_hash" where
  "algorithm_hash ce pubkey algo =
     ShellHash (addr_bits (from_public_key (ce_blake3 ce) pubkey (sig_type_as_u8 algo)))"

definition bound_algorithm ::
    "crypto_env \<Rightarrow> chain_view \<Rightarrow> address \<Rightarrow> u8 list \<Rightarrow> u64
       \<Rightarrow> storage_error + signature_type option" where
  "bound_algorithm ce v a pubkey height =
     bind_ok (config_active cfg_registered_key_algorithm_height v height) (\<lambda>enabled.
       if \<not> enabled then Inr None
       else bind_ok (view_pubkey v a) (\<lambda>registered.
         if registered \<noteq> Some pubkey then Inr None
         else bind_ok (view_account v a) (\<lambda>account.
           case account of
             None \<Rightarrow> Inr None
           | Some acc \<Rightarrow>
               Inr (find (\<lambda>algo. acc_pq_pubkey_hash acc = algorithm_hash ce pubkey algo)
                      ALLOWED_ALGORITHMS))))"

definition key_matches ::
    "crypto_env \<Rightarrow> chain_view \<Rightarrow> address \<Rightarrow> u8 list \<Rightarrow> u64 \<Rightarrow> storage_error + bool" where
  "key_matches ce v a pubkey height =
     bind_ok (view_account v a) (\<lambda>account.
       case account of
         None \<Rightarrow> Inr False
       | Some acc \<Rightarrow>
           if acc_pq_pubkey_hash acc = ce_blake3 ce pubkey then Inr True
           else bind_ok (bound_algorithm ce v a pubkey height) (\<lambda>b. Inr (b \<noteq> None)))"

section \<open>Errors\<close>

text \<open>The text a variant carries for display is kept where the code inspects it.\<close>

datatype aa_error =
    AaPubkeyNotFound
  | AaAddressMismatch address address
  | AaSignatureInvalid
  | AaPubkeyConflict
  | AaDisallowedAlgorithm signature_type
  | AaValidationCodeMissing shell_hash
  | AaValidationContractRejected string
  | AaValidationContractExecution string
  | AaCrypto crypto_error
  | AaStorage storage_error
  | AaStateDb string
  | AaPaymasterSignatureInvalid
  | AaPaymasterPubkeyNotFound address
  | AaPaymasterRejected
  | AaPaymasterValidationFailed string
  | AaPaymasterGasExceeded
  | AaSessionKeyExpired u64 u64
  | AaSessionValueCapExceeded
  | AaSessionTargetMismatch address "address option"
  | AaSessionRootSignatureInvalid
  | AaSessionKeySignatureInvalid
  | AaSessionKeyDisallowedAlgorithm u8

datatype tx_validation_error =
    PubkeyNotFound
  | AddressMismatch address address
  | SignatureInvalid
  | NonceMismatch u64 u64
  | NonceOverflow
  | InsufficientBalance u256 u256
  | ChainIdMismatch u64 u64
  | UnsupportedTransactionType u8
  | PriorityFeeAboveMaxFee u64 u64
  | GasTooLow u64
  | PubkeyConflict
  | DisallowedAlgorithm signature_type
  | TxCrypto crypto_error
  | TxStorage storage_error
  | InvalidAccessList string
  | InvalidBlobTx string
  | InvalidAaBundle string
  | PaymasterPubkeyNotFound address
  | PaymasterSignatureInvalid
  | PaymasterInsufficientBalance address u256 u256
  | PaymasterRejected
  | PaymasterValidationFailed string
  | PaymasterGasExceeded
  | SessionKeyExpired u64 u64
  | SessionValueCapExceeded
  | SessionTargetMismatch
  | SessionRootSignatureInvalid
  | SessionKeySignatureInvalid
  | SessionKeyDisallowedAlgorithm u8
  | AaValidation string

fun tx_error_of_aa :: "aa_error \<Rightarrow> tx_validation_error" where
  "tx_error_of_aa AaPubkeyNotFound = PubkeyNotFound"
| "tx_error_of_aa (AaAddressMismatch from derived) = AddressMismatch from derived"
| "tx_error_of_aa AaSignatureInvalid = SignatureInvalid"
| "tx_error_of_aa AaPubkeyConflict = PubkeyConflict"
| "tx_error_of_aa (AaDisallowedAlgorithm t) = DisallowedAlgorithm t"
| "tx_error_of_aa (AaCrypto e) =
     (case e of
        VerificationFailed \<Rightarrow> SignatureInvalid
      | InvalidPublicKeyLength _ _ \<Rightarrow> SignatureInvalid
      | InvalidSignatureLength _ _ \<Rightarrow> SignatureInvalid
      | _ \<Rightarrow> TxCrypto e)"
| "tx_error_of_aa (AaStorage e) = TxStorage e"
| "tx_error_of_aa (AaStateDb msg) = AaValidation msg"
| "tx_error_of_aa (AaValidationCodeMissing h) = AaValidation ''validation code missing for hash''"
| "tx_error_of_aa (AaValidationContractRejected msg) = AaValidation msg"
| "tx_error_of_aa (AaValidationContractExecution msg) = AaValidation msg"
| "tx_error_of_aa AaPaymasterSignatureInvalid = PaymasterSignatureInvalid"
| "tx_error_of_aa (AaPaymasterPubkeyNotFound a) = PaymasterPubkeyNotFound a"
| "tx_error_of_aa AaPaymasterRejected = PaymasterRejected"
| "tx_error_of_aa (AaPaymasterValidationFailed msg) = PaymasterValidationFailed msg"
| "tx_error_of_aa AaPaymasterGasExceeded = PaymasterGasExceeded"
| "tx_error_of_aa (AaSessionKeyExpired expiry current) = SessionKeyExpired expiry current"
| "tx_error_of_aa AaSessionValueCapExceeded = SessionValueCapExceeded"
| "tx_error_of_aa (AaSessionTargetMismatch _ _) = SessionTargetMismatch"
| "tx_error_of_aa AaSessionRootSignatureInvalid = SessionRootSignatureInvalid"
| "tx_error_of_aa AaSessionKeySignatureInvalid = SessionKeySignatureInvalid"
| "tx_error_of_aa (AaSessionKeyDisallowedAlgorithm a) = SessionKeyDisallowedAlgorithm a"

section \<open>Structural checks\<close>

definition ensure_nonce_can_advance :: "u64 \<Rightarrow> tx_validation_error + unit" where
  "ensure_nonce_can_advance nonce =
     (case checked_add nonce 1 of Some _ \<Rightarrow> Inr () | None \<Rightarrow> Inl NonceOverflow)"

definition validate_transaction_type :: "u8 \<Rightarrow> tx_validation_error + unit" where
  "validate_transaction_type ty =
     (if ty \<le> 3 \<or> ty = AA_BUNDLE_TX_TYPE then Inr () else Inl (UnsupportedTransactionType ty))"

definition validate_fee_caps :: "transaction \<Rightarrow> tx_validation_error + unit" where
  "validate_fee_caps tx =
     (if tx_max_fee_per_gas tx < tx_max_priority_fee_per_gas tx
      then Inl (PriorityFeeAboveMaxFee (tx_max_priority_fee_per_gas tx) (tx_max_fee_per_gas tx))
      else Inr ())"

definition checked_mul :: "'a::len word \<Rightarrow> 'a word \<Rightarrow> 'a word option" where
  "checked_mul a b = (if uint a * uint b < 2 ^ LENGTH('a) then Some (a * b) else None)"

abbreviation (input) blob_fee_or_zero :: "transaction \<Rightarrow> u64" where
  "blob_fee_or_zero tx \<equiv> (case tx_max_fee_per_blob_gas tx of Some fee \<Rightarrow> fee | None \<Rightarrow> 0)"

definition max_transaction_gas_cost :: "transaction \<Rightarrow> u256 option" where
  "max_transaction_gas_cost tx =
     (case checked_mul (ucast (tx_gas_limit tx)) (ucast (tx_max_fee_per_gas tx)) of
        None \<Rightarrow> None
      | Some execution_gas_cost \<Rightarrow>
          (case checked_mul (ucast (blob_gas tx)) (ucast (blob_fee_or_zero tx)) of
             None \<Rightarrow> None
           | Some blob_gas_cost \<Rightarrow> checked_add execution_gas_cost blob_gas_cost))"

definition validate_aa_bundle_structure :: "signed_transaction \<Rightarrow> tx_validation_error + u64" where
  "validate_aa_bundle_structure s =
     (let tx = st_tx s in
      if (tx_type tx = AA_BUNDLE_TX_TYPE) \<noteq> (st_aa_bundle s \<noteq> None)
      then Inl (InvalidAaBundle ''tx_type and aa_bundle presence must agree'')
      else case st_aa_bundle s of
        None \<Rightarrow> Inr 0
      | Some bundle \<Rightarrow>
          bind_map InvalidAaBundle (validate_structure bundle) (\<lambda>_.
            if ab_paymaster bundle = Some (st_from s)
            then Inl (InvalidAaBundle ''paymaster must differ from sender'')
            else let combined = sat_add (inner_gas_sum bundle) (ucast (intrinsic_gas_surcharge bundle)) in
              if ucast (tx_gas_limit tx) < combined
              then Inl (InvalidAaBundle ''inner_sum + intrinsic_surcharge exceeds outer gas_limit'')
              else case checked_inner_value_sum bundle of
                None \<Rightarrow> Inl (InvalidAaBundle ''inner_value_sum overflows U256'')
              | Some inner_value \<Rightarrow>
                  if tx_value tx < inner_value
                  then Inl (InvalidAaBundle ''inner_value_sum exceeds outer value'')
                  else Inr (ucast combined)))"

definition byte_gas :: "u64 \<Rightarrow> u8 \<Rightarrow> u64" where
  "byte_gas gas byte =
     (if byte = 0 then sat_add gas GAS_PER_ZERO_BYTE else sat_add gas GAS_PER_NONZERO_BYTE)"

definition access_item_gas :: "u64 \<Rightarrow> access_list_item \<Rightarrow> u64" where
  "access_item_gas gas item =
     (let gas = sat_add gas ACCESS_LIST_ADDRESS_COST
      in sat_add gas (sat_mul ACCESS_LIST_STORAGE_KEY_COST (of_nat (length (ali_storage_keys item)))))"

definition compute_intrinsic_gas :: "u8 list \<Rightarrow> bool \<Rightarrow> access_list_item list option \<Rightarrow> u64" where
  "compute_intrinsic_gas data is_create access_list =
     (let gas = INTRINSIC_GAS_TX;
          gas = (if is_create then sat_add gas GAS_CONTRACT_CREATION else gas);
          gas = foldl byte_gas gas data
      in case access_list of None \<Rightarrow> gas | Some items \<Rightarrow> foldl access_item_gas gas items)"

definition total_intrinsic_gas :: "signed_transaction \<Rightarrow> u64 \<Rightarrow> tx_validation_error + u64" where
  "total_intrinsic_gas s aa_extra_gas =
     (let tx = st_tx s;
          is_create = (is_contract_creation tx \<and> \<not> is_aa_bundle s)
      in case checked_add (compute_intrinsic_gas (tx_data tx) is_create (tx_access_list tx))
                aa_extra_gas of
           Some gas \<Rightarrow> Inr gas
         | None \<Rightarrow> Inl (GasTooLow (tx_gas_limit tx)))"

section \<open>Authorisation\<close>

record aa_outcome =
  out_pubkey :: "u8 list"
  out_should_register_pubkey :: bool
  out_protocol_checks_nonce :: bool

record evm_env =
  evm_validate :: "signed_transaction \<Rightarrow> shell_hash \<Rightarrow> u8 list \<Rightarrow> block_header option
    \<Rightarrow> aa_error + u8 list"
  evm_paymaster :: "signed_transaction \<Rightarrow> aa_bundle \<Rightarrow> address \<Rightarrow> u8 list \<Rightarrow> block_header option
    \<Rightarrow> aa_error + unit"

definition verify_or_false :: "crypto_env \<Rightarrow> u8 list \<Rightarrow> u8 list \<Rightarrow> pq_signature \<Rightarrow> bool" where
  "verify_or_false ce pubkey msg sig =
     (case ce_verify ce pubkey msg sig of Inl _ \<Rightarrow> False | Inr ok \<Rightarrow> ok)"

abbreviation (input) tx_signing_hash :: "crypto_env \<Rightarrow> signed_transaction \<Rightarrow> u8 list" where
  "tx_signing_hash ce s \<equiv> hash_as_bytes (sender_signing_hash (ce_blake3 ce) (ce_rlp ce) s)"

definition validation_block_number :: "u64 option \<Rightarrow> u64" where
  "validation_block_number head = (case head of Some n \<Rightarrow> sat_add n 1 | None \<Rightarrow> 0)"

text \<open>The height a transaction is validated for: of the given header, or after the stored head.\<close>

definition candidate_height :: "chain_view \<Rightarrow> block_header option \<Rightarrow> storage_error + u64" where
  "candidate_height v header =
     (case header of
        Some h \<Rightarrow> Inr (hdr_number h)
      | None \<Rightarrow>
          bind_ok (view_head v) (\<lambda>head. Inr (validation_block_number (map_option hdr_number head))))"

abbreviation (input) session_of :: "signed_transaction \<Rightarrow> session_auth option" where
  "session_of s \<equiv> (case st_aa_bundle s of None \<Rightarrow> None | Some b \<Rightarrow> ab_session_auth b)"

definition approved_algorithm_matured ::
    "chain_view \<Rightarrow> signature_type \<Rightarrow> u64 \<Rightarrow> storage_error + bool" where
  "approved_algorithm_matured v algo height =
     bind_ok (view_algorithm_slot v StatusSlot algo) (\<lambda>status.
       if status \<noteq> 3 then Inr False
       else bind_ok (view_algorithm_slot v QuorumApprovedSlot algo) (\<lambda>approved.
         if approved \<noteq> 1 then Inr False
         else bind_ok (view_algorithm_slot v ActivationHeightSlot algo) (\<lambda>maturity.
           Inr (0 < maturity \<and> maturity \<le> ucast height))))"

definition registered_session_root_deprecation_enabled ::
    "chain_view \<Rightarrow> u64 \<Rightarrow> address \<Rightarrow> u8 list \<Rightarrow> storage_error + bool" where
  "registered_session_root_deprecation_enabled v number from root_pubkey =
     bind_ok (config_active cfg_algorithm_session_deprecation_height v number) (\<lambda>enabled.
       if \<not> enabled then Inr False
       else bind_ok (view_pubkey v from) (\<lambda>registered. Inr (registered = Some root_pubkey)))"

definition active_or_deprecated :: "crypto_env \<Rightarrow> signature_type \<Rightarrow> bool" where
  "active_or_deprecated ce algo =
     (algorithm_status (ce_registry ce) algo \<in> {Some AlgActive, Some AlgDeprecated})"

definition verify_session_root_signature ::
    "crypto_env \<Rightarrow> u8 list \<Rightarrow> u8 list \<Rightarrow> u8 list \<Rightarrow> (signature_type \<Rightarrow> bool) \<Rightarrow> bool" where
  "verify_session_root_signature ce root_pubkey msg root_sig allowed =
     list_ex (\<lambda>algo. verify_or_false ce root_pubkey msg (pq_signature_new algo root_sig))
       (filter allowed ALLOWED_ALGORITHMS)"

definition verify_session_root_authorization ::
    "crypto_env \<Rightarrow> chain_view \<Rightarrow> signed_transaction \<Rightarrow> u8 list \<Rightarrow> u64 \<Rightarrow> storage_error + bool" where
  "verify_session_root_authorization ce v s root_pubkey number =
     (case session_of s of
        None \<Rightarrow> Inr False
      | Some auth \<Rightarrow>
          let msg = hash_as_bytes (auth_hash (ce_blake3 ce) auth (tx_chain_id (st_tx s))) in
          bind_ok (bound_algorithm ce v (st_from s) root_pubkey number) (\<lambda>selected.
            bind_ok (registered_session_root_deprecation_enabled v number (st_from s) root_pubkey)
              (\<lambda>deprecated_enabled.
              case selected of
                Some algo \<Rightarrow>
                  Inr ((is_algorithm_allowed (ce_registry ce) algo
                        \<or> (deprecated_enabled
                           \<and> algorithm_status (ce_registry ce) algo = Some AlgDeprecated))
                       \<and> verify_or_false ce root_pubkey msg
                            (pq_signature_new algo (sa_root_signature auth)))
              | None \<Rightarrow>
                  let bound = (if deprecated_enabled
                     then find (\<lambda>algo. from_public_key (ce_blake3 ce) root_pubkey (sig_type_as_u8 algo)
                                   = st_from s) ALLOWED_ALGORITHMS
                     else None)
                  in Inr (verify_session_root_signature ce root_pubkey msg (sa_root_signature auth)
                       (\<lambda>algo. case bound of
                           Some b \<Rightarrow> algo = b \<and> active_or_deprecated ce algo
                         | None \<Rightarrow> is_algorithm_allowed (ce_registry ce) algo)))))"

definition validate_session_auth ::
    "crypto_env \<Rightarrow> chain_view \<Rightarrow> signed_transaction \<Rightarrow> session_auth \<Rightarrow> u8 list \<Rightarrow> u64
       \<Rightarrow> aa_error + unit" where
  "validate_session_auth ce v s auth root_pubkey number =
     (let inner_calls = (case st_aa_bundle s of None \<Rightarrow> [] | Some b \<Rightarrow> ab_inner_calls b) in
      if sa_expiry_block auth \<le> number
      then Inl (AaSessionKeyExpired (sa_expiry_block auth) number)
      else case checked_sum_from 0 (map ic_value inner_calls) of
        None \<Rightarrow> Inl AaSessionValueCapExceeded
      | Some value_sum \<Rightarrow>
          if sa_value_cap auth < value_sum then Inl AaSessionValueCapExceeded
          else case (case sa_target auth of
                       None \<Rightarrow> None
                     | Some target \<Rightarrow>
                         map_option (\<lambda>c. AaSessionTargetMismatch target (ic_to c))
                           (find (\<lambda>c. ic_to c \<noteq> Some target) inner_calls)) of
            Some e \<Rightarrow> Inl e
          | None \<Rightarrow>
              bind_map AaStorage (verify_session_root_authorization ce v s root_pubkey number) (\<lambda>root_valid.
                if \<not> root_valid then Inl AaSessionRootSignatureInvalid
                else case sig_type_from_u8 (sa_session_algo auth) of
                  None \<Rightarrow> Inl (AaSessionKeyDisallowedAlgorithm (sa_session_algo auth))
                | Some session_algo \<Rightarrow>
                    if \<not> is_algorithm_allowed (ce_registry ce) session_algo
                    then Inl (AaSessionKeyDisallowedAlgorithm (sa_session_algo auth))
                    else if sig_type (st_signature s) \<noteq> session_algo
                          \<or> sig_data (st_signature s) \<noteq> sa_session_signature auth
                    then Inl AaSessionKeySignatureInvalid
                    else bind_map AaCrypto
                      (ce_verify ce (sa_session_pubkey auth) (tx_signing_hash ce s)
                         (pq_signature_new session_algo (sa_session_signature auth))) (\<lambda>valid.
                      if \<not> valid then Inl AaSessionKeySignatureInvalid else Inr ())))"

text \<open>The selectors of the registry mutations a governance fallback key may sign; they are hashes
  computed by the system contract and are arguments here.\<close>

record governance_selectors =
  sel_submit_proposal :: "u8 list"
  sel_vote_proposal :: "u8 list"
  sel_deprecate :: "u8 list"
  sel_propose_activation :: "u8 list"

definition governance_call ::
    "governance_selectors \<Rightarrow> address \<Rightarrow> address option \<Rightarrow> u256 \<Rightarrow> u8 list \<Rightarrow> bool" where
  "governance_call sel registry to value data =
     (to = Some registry \<and> value = 0
      \<and> ((length data = 260 \<and> take 4 data = sel_submit_proposal sel)
         \<or> (length data = 68 \<and> take 4 data = sel_vote_proposal sel)
         \<or> (length data = 36 \<and> take 4 data = sel_deprecate sel)
         \<or> (length data = 100 \<and> take 4 data = sel_propose_activation sel)))"

definition emergency_governance_active :: "chain_view \<Rightarrow> u64 \<Rightarrow> storage_error + bool" where
  "emergency_governance_active v number =
     bind_ok (config_active cfg_emergency_governance_height v number) (\<lambda>active.
       if \<not> active then Inr False else view_fallback_bindings v)"

definition governance_scoped :: "governance_selectors \<Rightarrow> chain_view \<Rightarrow> signed_transaction \<Rightarrow> bool" where
  "governance_scoped sel v s =
     (case st_aa_bundle s of
        Some bundle \<Rightarrow>
          ab_session_auth bundle = None \<and> ab_inner_calls bundle \<noteq> []
          \<and> list_all (\<lambda>c. governance_call sel (view_registry_addr v) (ic_to c) (ic_value c) (ic_data c))
              (ab_inner_calls bundle)
      | None \<Rightarrow>
          governance_call sel (view_registry_addr v) (tx_to (st_tx s)) (tx_value (st_tx s))
            (tx_data (st_tx s)))"

definition governance_fallback_pubkey ::
    "governance_selectors \<Rightarrow> chain_view \<Rightarrow> signed_transaction \<Rightarrow> u64 \<Rightarrow> aa_error + u8 list option" where
  "governance_fallback_pubkey sel v s number =
     bind_map AaStorage (emergency_governance_active v number) (\<lambda>active.
       if \<not> active then Inr None
       else if sig_type (st_signature s) \<noteq> SphincsSha2256f \<or> tx_value (st_tx s) \<noteq> 0 then Inr None
       else if \<not> governance_scoped sel v s then Inr None
       else bind_map AaStorage (view_validators v) (\<lambda>validators.
         if st_from s \<notin> List.set validators then Inr None
         else bind_map AaStorage (view_fallback_key v (st_from s)) (\<lambda>key.
           case key of
             None \<Rightarrow> Inr None
           | Some k \<Rightarrow>
               if pubkey_bytes (st_pubkey_mode s) \<noteq> Some k then Inr None else Inr (Some k))))"

abbreviation (input) padded_len :: "usize \<Rightarrow> usize" where
  "padded_len n \<equiv> 32 * ((n + 31) div 32)"

definition abi_word :: "u64 \<Rightarrow> u8 list" where
  "abi_word w = replicate 24 0 @ be_bytes 8 w"

definition abi_encode_bytes :: "u8 list \<Rightarrow> u8 list" where
  "abi_encode_bytes bs =
     abi_word (of_nat (length bs)) @ bs @ replicate (padded_len (length bs) - length bs) 0"

abbreviation (input) VALIDATE_TRANSACTION_SIGNATURE :: "u8 list" where
  "VALIDATE_TRANSACTION_SIGNATURE \<equiv> ascii ''validateTransactionV2(bytes32,bytes32,uint64,bytes32,uint256,uint64,uint64,uint64,bytes32,bytes32,bytes,bytes)''"

abbreviation (input) VALIDATE_TRANSACTION_V1_SIGNATURE :: "u8 list" where
  "VALIDATE_TRANSACTION_V1_SIGNATURE \<equiv> ascii ''validateTransaction(bytes32,bytes,bytes)''"

definition encode_validate_transaction_calldata ::
    "crypto_env \<Rightarrow> signed_transaction \<Rightarrow> u8 list \<Rightarrow> u8 list \<Rightarrow> u8 list" where
  "encode_validate_transaction_calldata ce s sig pubkey =
     (let tx = st_tx s;
          to = (case tx_to tx of Some a \<Rightarrow> a | None \<Rightarrow> address_zero);
          data_hash = ce_blake3 ce (tx_data tx);
          aa_bundle_hash = (case st_aa_bundle s of
              Some b \<Rightarrow> ce_blake3 ce (bundle_encode_for_signing (ce_rlp ce) b)
            | None \<Rightarrow> hash_zero);
          sig_offset = 32 * 12;
          sig_len = 32 + padded_len (length sig);
          pubkey_offset = sig_offset + sig_len
      in take 4 (hash_as_bytes (ce_keccak ce VALIDATE_TRANSACTION_SIGNATURE))
         @ tx_signing_hash ce s @ address_as_bytes (st_from s) @ abi_word (tx_nonce tx)
         @ address_as_bytes to @ be_bytes 32 (tx_value tx) @ abi_word (tx_gas_limit tx)
         @ abi_word (tx_max_fee_per_gas tx) @ abi_word (tx_chain_id tx)
         @ hash_as_bytes data_hash @ hash_as_bytes aa_bundle_hash
         @ abi_word (of_nat sig_offset) @ abi_word (of_nat pubkey_offset)
         @ abi_encode_bytes sig @ abi_encode_bytes pubkey)"

definition encode_validate_transaction_v1_calldata ::
    "crypto_env \<Rightarrow> u8 list \<Rightarrow> u8 list \<Rightarrow> u8 list \<Rightarrow> u8 list" where
  "encode_validate_transaction_v1_calldata ce tx_hash sig pubkey =
     (let sig_offset = 32 * 3;
          sig_len = 32 + padded_len (length sig);
          pubkey_offset = sig_offset + sig_len
      in take 4 (hash_as_bytes (ce_keccak ce VALIDATE_TRANSACTION_V1_SIGNATURE))
         @ tx_hash @ abi_word (of_nat sig_offset) @ abi_word (of_nat pubkey_offset)
         @ abi_encode_bytes sig @ abi_encode_bytes pubkey)"

definition is_magic_valid :: "u8 list \<Rightarrow> bool" where
  "is_magic_valid output =
     (output = [1]
      \<or> (length output = 32
         \<and> ((last output = 1 \<and> list_all (\<lambda>b. b = 0) (take 31 output))
            \<or> (hd output = 1 \<and> list_all (\<lambda>b. b = 0) (drop 1 output)))))"

definition should_fallback_to_v1 :: "aa_error \<Rightarrow> bool" where
  "should_fallback_to_v1 e = (e = AaValidationContractRejected ''reverted: 0x'')"

definition validate_custom_contract ::
    "crypto_env \<Rightarrow> evm_env \<Rightarrow> chain_view \<Rightarrow> signed_transaction \<Rightarrow> shell_hash \<Rightarrow> u8 list
       \<Rightarrow> block_header option \<Rightarrow> aa_error + unit" where
  "validate_custom_contract ce evm v s code_hash pubkey header =
     bind_map AaStorage (view_code v code_hash) (\<lambda>code.
       if code = None then Inl (AaValidationCodeMissing code_hash)
       else bind_ok
         (case evm_validate evm s code_hash
                 (encode_validate_transaction_calldata ce s (sig_data (st_signature s)) pubkey) header of
            Inr output \<Rightarrow> Inr output
          | Inl e \<Rightarrow>
              if should_fallback_to_v1 e
              then evm_validate evm s code_hash
                     (encode_validate_transaction_v1_calldata ce (tx_signing_hash ce s)
                        (sig_data (st_signature s)) pubkey) header
              else Inl e)
         (\<lambda>output. if \<not> is_magic_valid output
            then Inl (AaValidationContractRejected ''unexpected return'') else Inr ()))"

text \<open>The signature of an externally owned paymaster.\<close>

definition paymaster_algorithm ::
    "crypto_env \<Rightarrow> bool \<Rightarrow> u8 list \<Rightarrow> address \<Rightarrow> signature_type option" where
  "paymaster_algorithm ce allow_deprecated pubkey paymaster =
     (if allow_deprecated then
        find (\<lambda>algo. from_public_key (ce_blake3 ce) pubkey (sig_type_as_u8 algo) = paymaster
                \<and> active_or_deprecated ce algo) [MlDsa65, Dilithium3, SphincsSha2256f]
      else infer_signature_type_from_address (ce_registry ce) (ce_blake3 ce) pubkey paymaster)"

definition verify_registered_paymaster ::
    "crypto_env \<Rightarrow> chain_view \<Rightarrow> address \<Rightarrow> u8 list \<Rightarrow> u8 list \<Rightarrow> u8 list
       \<Rightarrow> tx_validation_error + unit" where
  "verify_registered_paymaster ce v paymaster pubkey msg sig_bytes =
     bind_map TxStorage (view_account v paymaster) (\<lambda>account.
       let registered = (case account of
           None \<Rightarrow> False
         | Some acc \<Rightarrow> acc_pq_pubkey_hash acc \<noteq> hash_zero \<and> acc_pq_pubkey_hash acc = ce_blake3 ce pubkey)
       in if \<not> registered then Inl PaymasterSignatureInvalid
          else if list_ex (\<lambda>algo. verify_or_false ce pubkey msg (pq_signature_new algo sig_bytes))
                 (filter (is_algorithm_allowed (ce_registry ce)) [MlDsa65, Dilithium3, SphincsSha2256f])
          then Inr () else Inl PaymasterSignatureInvalid)"

definition verify_paymaster_key ::
    "crypto_env \<Rightarrow> chain_view \<Rightarrow> address \<Rightarrow> u8 list \<Rightarrow> u8 list \<Rightarrow> u8 list \<Rightarrow> bool \<Rightarrow> bool
       \<Rightarrow> signature_type option \<Rightarrow> tx_validation_error + unit" where
  "verify_paymaster_key ce v paymaster pubkey msg sig_bytes allow_deprecated root_enabled bound =
     (case bound of
        Some algo \<Rightarrow>
          if \<not> root_enabled \<and> from_public_key (ce_blake3 ce) pubkey (sig_type_as_u8 algo) \<noteq> paymaster
          then Inl PaymasterSignatureInvalid
          else if (is_algorithm_allowed (ce_registry ce) algo
                   \<or> (allow_deprecated \<and> algorithm_status (ce_registry ce) algo = Some AlgDeprecated))
                  \<and> verify_or_false ce pubkey msg (pq_signature_new algo sig_bytes)
          then Inr () else Inl PaymasterSignatureInvalid
      | None \<Rightarrow>
          (let address_bound = list_ex (\<lambda>algo. from_public_key (ce_blake3 ce) pubkey (sig_type_as_u8 algo)
                 = paymaster) [MlDsa65, Dilithium3, SphincsSha2256f]
           in if root_enabled \<and> \<not> address_bound
              then verify_registered_paymaster ce v paymaster pubkey msg sig_bytes
              else case paymaster_algorithm ce allow_deprecated pubkey paymaster of
                None \<Rightarrow> Inl (InvalidAaBundle ''paymaster pubkey does not match the paymaster address under any allowed algorithm'')
              | Some algo \<Rightarrow>
                  bind_map TxCrypto (ce_verify ce pubkey msg (pq_signature_new algo sig_bytes)) (\<lambda>valid.
                    if \<not> valid then Inl PaymasterSignatureInvalid else Inr ())))"

definition verify_paymaster_signature ::
    "crypto_env \<Rightarrow> chain_view \<Rightarrow> signed_transaction \<Rightarrow> address \<Rightarrow> u64
       \<Rightarrow> tx_validation_error + unit" where
  "verify_paymaster_signature ce v s paymaster number =
     (case st_aa_bundle s of
        None \<Rightarrow> Inl (InvalidAaBundle ''no bundle'')
      | Some bundle \<Rightarrow>
          (case ab_paymaster_signature bundle of
             None \<Rightarrow> Inl (InvalidAaBundle ''paymaster signature missing'')
           | Some sig_bytes \<Rightarrow>
               bind_map TxStorage (view_pubkey v paymaster) (\<lambda>registered.
                 case registered of
                   None \<Rightarrow> Inl (PaymasterPubkeyNotFound paymaster)
                 | Some pubkey \<Rightarrow>
                     (case paymaster_signing_hash (ce_blake3 ce) (ce_rlp ce) s of
                        None \<Rightarrow> Inl (InvalidAaBundle ''no paymaster_signing_hash'')
                      | Some h \<Rightarrow>
                          bind_map TxStorage
                            (config_active cfg_algorithm_paymaster_deprecation_height v number)
                            (\<lambda>allow_deprecated.
                          bind_map TxStorage
                            (config_active cfg_paymaster_registered_root_height v number)
                            (\<lambda>root_enabled.
                          bind_map TxStorage (bound_algorithm ce v paymaster pubkey number) (\<lambda>bound.
                            verify_paymaster_key ce v paymaster pubkey (hash_as_bytes h) sig_bytes
                              allow_deprecated root_enabled bound)))))))"

definition validate_paymaster_authorization ::
    "crypto_env \<Rightarrow> evm_env \<Rightarrow> chain_view \<Rightarrow> signed_transaction \<Rightarrow> block_header option
       \<Rightarrow> aa_error + unit" where
  "validate_paymaster_authorization ce evm v s header =
     (case st_aa_bundle s of
        None \<Rightarrow> Inr ()
      | Some bundle \<Rightarrow>
          (case ab_paymaster bundle of
             None \<Rightarrow> Inr ()
           | Some paymaster \<Rightarrow>
               if paymaster = st_from s then Inr ()
               else case ab_paymaster_context bundle of
                 Some ctx \<Rightarrow> evm_paymaster evm s bundle paymaster ctx header
               | None \<Rightarrow>
                   bind_map AaStorage (candidate_height v header) (\<lambda>number.
                     case verify_paymaster_signature ce v s paymaster number of
                       Inr _ \<Rightarrow> Inr ()
                     | Inl (PaymasterPubkeyNotFound a) \<Rightarrow> Inl (AaPaymasterPubkeyNotFound a)
                     | Inl _ \<Rightarrow> Inl AaPaymasterSignatureInvalid)))"

definition resolve_pubkey :: "u8 list option \<Rightarrow> u8 list option \<Rightarrow> aa_error + u8 list" where
  "resolve_pubkey sender_pubkey registered =
     (case sender_pubkey of
        Some pk \<Rightarrow> Inr pk
      | None \<Rightarrow> (case registered of Some pk \<Rightarrow> Inr pk | None \<Rightarrow> Inl AaPubkeyNotFound))"

text \<open>Whether an algorithm that is not active may still sign: an approved algorithm at maturity, or
  a deprecated one for an account that is already registered; never for a session key.\<close>

definition matured_direct_account ::
    "chain_view \<Rightarrow> signed_transaction \<Rightarrow> u64 \<Rightarrow> storage_error + bool" where
  "matured_direct_account v s height =
     (if session_of s \<noteq> None then Inr False
      else bind_ok (config_active cfg_algorithm_activation_admission_height v height) (\<lambda>enabled.
        if \<not> enabled then Inr False
        else approved_algorithm_matured v (sig_type (st_signature s)) height))"

definition check_algorithm ::
    "crypto_env \<Rightarrow> chain_view \<Rightarrow> signed_transaction \<Rightarrow> u8 list option \<Rightarrow> u64 \<Rightarrow> aa_error + unit" where
  "check_algorithm ce v s registered height =
     (let algo = sig_type (st_signature s) in
      bind_map AaStorage (matured_direct_account v s height) (\<lambda>matured.
        if is_algorithm_allowed (ce_registry ce) algo \<or> matured then Inr ()
        else if registered \<noteq> None \<and> session_of s = None
                \<and> algorithm_status (ce_registry ce) algo = Some AlgDeprecated
        then bind_map AaStorage (config_active cfg_algorithm_deprecation_height v height) (\<lambda>enabled.
               if enabled then Inr () else Inl (AaDisallowedAlgorithm algo))
        else Inl (AaDisallowedAlgorithm algo)))"

definition check_key_binding ::
    "crypto_env \<Rightarrow> chain_view \<Rightarrow> signed_transaction \<Rightarrow> account option \<Rightarrow> u8 list option \<Rightarrow> u8 list
       \<Rightarrow> u64 \<Rightarrow> aa_error + unit" where
  "check_key_binding ce v s account registered pubkey height =
     (case registered of
        None \<Rightarrow>
          (let derived = from_public_key (ce_blake3 ce) pubkey (sig_type_as_u8 (sig_type (st_signature s)));
               address_matches =
                 (if session_of s \<noteq> None
                  then infer_signature_type_from_address (ce_registry ce) (ce_blake3 ce) pubkey (st_from s) \<noteq> None
                  else st_from s = derived)
           in if address_matches then Inr () else Inl (AaAddressMismatch (st_from s) derived))
      | Some _ \<Rightarrow>
          (case account of
             None \<Rightarrow> Inr ()
           | Some acc \<Rightarrow>
               if acc_pq_pubkey_hash acc = hash_zero then Inr ()
               else bind_map AaStorage (key_matches ce v (st_from s) pubkey height) (\<lambda>ok.
                 if ok then Inr () else Inl AaPubkeyConflict)))"

definition check_bound_algorithm ::
    "crypto_env \<Rightarrow> chain_view \<Rightarrow> signed_transaction \<Rightarrow> u8 list \<Rightarrow> u64 \<Rightarrow> aa_error + unit" where
  "check_bound_algorithm ce v s pubkey height =
     (if session_of s \<noteq> None then Inr ()
      else bind_map AaStorage (bound_algorithm ce v (st_from s) pubkey height) (\<lambda>bound.
        case bound of
          None \<Rightarrow> Inr ()
        | Some algo \<Rightarrow> if algo \<noteq> sig_type (st_signature s) then Inl AaPubkeyConflict else Inr ()))"

definition check_signature ::
    "crypto_env \<Rightarrow> chain_view \<Rightarrow> signed_transaction \<Rightarrow> u8 list \<Rightarrow> u64 \<Rightarrow> aa_error + unit" where
  "check_signature ce v s pubkey height =
     (case session_of s of
        Some auth \<Rightarrow> validate_session_auth ce v s auth pubkey height
      | None \<Rightarrow>
          bind_map AaCrypto (ce_verify ce pubkey (tx_signing_hash ce s) (st_signature s)) (\<lambda>valid.
            if \<not> valid then Inl AaSignatureInvalid else Inr ()))"

text \<open>The default path, for an account without custom validator and without fallback key.\<close>

definition validate_root_account ::
    "crypto_env \<Rightarrow> evm_env \<Rightarrow> chain_view \<Rightarrow> signed_transaction \<Rightarrow> block_header option \<Rightarrow> account option
       \<Rightarrow> u8 list option \<Rightarrow> u64 \<Rightarrow> aa_error + aa_outcome" where
  "validate_root_account ce evm v s header account registered height =
     bind_ok (check_algorithm ce v s registered height) (\<lambda>_.
     bind_ok (resolve_pubkey (pubkey_bytes (st_pubkey_mode s)) registered) (\<lambda>pubkey.
       if is_embedded (st_pubkey_mode s) \<and> registered \<noteq> None \<and> registered \<noteq> Some pubkey
       then Inl AaPubkeyConflict
       else
     bind_ok (check_key_binding ce v s account registered pubkey height) (\<lambda>_.
     bind_ok (check_bound_algorithm ce v s pubkey height) (\<lambda>_.
     bind_ok (check_signature ce v s pubkey height) (\<lambda>_.
     bind_ok (validate_paymaster_authorization ce evm v s header) (\<lambda>_.
       Inr \<lparr>out_pubkey = pubkey,
            out_should_register_pubkey = (is_embedded (st_pubkey_mode s) \<and> registered = None),
            out_protocol_checks_nonce = True\<rparr>))))))"

definition validate_fallback_account ::
    "crypto_env \<Rightarrow> evm_env \<Rightarrow> chain_view \<Rightarrow> signed_transaction \<Rightarrow> block_header option
       \<Rightarrow> u8 list option \<Rightarrow> u8 list \<Rightarrow> aa_error + aa_outcome" where
  "validate_fallback_account ce evm v s header registered fallback =
     (if \<not> is_algorithm_allowed (ce_registry ce) (sig_type (st_signature s))
      then Inl (AaDisallowedAlgorithm (sig_type (st_signature s)))
      else bind_map AaCrypto (ce_verify ce fallback (tx_signing_hash ce s) (st_signature s)) (\<lambda>valid.
        if \<not> valid then Inl AaSignatureInvalid
        else bind_ok (validate_paymaster_authorization ce evm v s header) (\<lambda>_.
          case registered of
            None \<Rightarrow> Inl AaPubkeyNotFound
          | Some pk \<Rightarrow>
              Inr \<lparr>out_pubkey = pk, out_should_register_pubkey = False,
                   out_protocol_checks_nonce = True\<rparr>)))"

definition validate_custom_account ::
    "crypto_env \<Rightarrow> evm_env \<Rightarrow> chain_view \<Rightarrow> signed_transaction \<Rightarrow> block_header option
       \<Rightarrow> u8 list option \<Rightarrow> shell_hash \<Rightarrow> aa_error + aa_outcome" where
  "validate_custom_account ce evm v s header registered code_hash =
     (let pubkey = (case pubkey_bytes (st_pubkey_mode s) of
          Some pk \<Rightarrow> pk
        | None \<Rightarrow> (case registered of Some pk \<Rightarrow> pk | None \<Rightarrow> []))
      in bind_ok (validate_custom_contract ce evm v s code_hash pubkey header) (\<lambda>_.
         bind_ok (validate_paymaster_authorization ce evm v s header) (\<lambda>_.
           Inr \<lparr>out_pubkey = pubkey, out_should_register_pubkey = False,
                out_protocol_checks_nonce = True\<rparr>)))"

definition validate_aa_tx_inner ::
    "crypto_env \<Rightarrow> evm_env \<Rightarrow> governance_selectors \<Rightarrow> chain_view \<Rightarrow> signed_transaction
       \<Rightarrow> block_header option \<Rightarrow> aa_error + aa_outcome" where
  "validate_aa_tx_inner ce evm sel v s header =
     bind_map AaStorage (view_account v (st_from s)) (\<lambda>account.
     bind_map AaStorage (view_pubkey v (st_from s)) (\<lambda>registered.
       case (case account of None \<Rightarrow> None | Some acc \<Rightarrow> acc_validation_code_hash acc) of
         Some code_hash \<Rightarrow> validate_custom_account ce evm v s header registered code_hash
       | None \<Rightarrow>
           bind_map AaStorage (candidate_height v header) (\<lambda>height.
           bind_ok (governance_fallback_pubkey sel v s height) (\<lambda>fallback.
             case fallback of
               Some key \<Rightarrow> validate_fallback_account ce evm v s header registered key
             | None \<Rightarrow> validate_root_account ce evm v s header account registered height))))"

section \<open>Admission and import\<close>

text \<open>The checks that admission and import share, up to the outcome of the authorisation.\<close>

definition validate_common ::
    "crypto_env \<Rightarrow> evm_env \<Rightarrow> governance_selectors \<Rightarrow> chain_view \<Rightarrow> signed_transaction \<Rightarrow> u64
       \<Rightarrow> block_header option \<Rightarrow> tx_validation_error + aa_outcome" where
  "validate_common ce evm sel v s expected_chain_id header =
     (let tx = st_tx s in
      if tx_chain_id tx \<noteq> expected_chain_id
      then Inl (ChainIdMismatch expected_chain_id (tx_chain_id tx))
      else
      bind_ok (validate_transaction_type (tx_type tx)) (\<lambda>_.
      bind_ok (validate_fee_caps tx) (\<lambda>_.
      bind_map InvalidAccessList (validate_access_list tx) (\<lambda>_.
      bind_map InvalidBlobTx (validate_blob_tx tx) (\<lambda>_.
      bind_ok (validate_aa_bundle_structure s) (\<lambda>aa_extra_gas.
      bind_ok (ensure_nonce_can_advance (tx_nonce tx)) (\<lambda>_.
      bind_ok (total_intrinsic_gas s aa_extra_gas) (\<lambda>intrinsic.
        if tx_gas_limit tx < intrinsic then Inl (GasTooLow (tx_gas_limit tx))
        else bind_map tx_error_of_aa (validate_aa_tx_inner ce evm sel v s header) Inr))))))))"

definition check_nonce ::
    "chain_view \<Rightarrow> signed_transaction \<Rightarrow> aa_outcome \<Rightarrow> u64 option \<Rightarrow> tx_validation_error + unit" where
  "check_nonce v s outcome expected_nonce =
     (if \<not> out_protocol_checks_nonce outcome then Inr ()
      else bind_map TxStorage
        (case expected_nonce of Some n \<Rightarrow> Inr n | None \<Rightarrow> get_nonce v (st_from s)) (\<lambda>account_nonce.
        if tx_nonce (st_tx s) \<noteq> account_nonce
        then Inl (NonceMismatch account_nonce (tx_nonce (st_tx s)))
        else Inr ()))"

text \<open>The sender pays gas and value; an overflow of their sum is always insufficient.\<close>

definition check_sender_balance ::
    "chain_view \<Rightarrow> signed_transaction \<Rightarrow> tx_validation_error + unit" where
  "check_sender_balance v s =
     (let tx = st_tx s in
      bind_map TxStorage (get_balance v (st_from s)) (\<lambda>balance.
        case (case max_transaction_gas_cost tx of
                None \<Rightarrow> None
              | Some c \<Rightarrow> checked_add c (tx_value tx)) of
          None \<Rightarrow> Inl (InsufficientBalance u_max balance)
        | Some needed \<Rightarrow>
            if balance < needed then Inl (InsufficientBalance needed balance) else Inr ()))"

definition check_paymaster_balance ::
    "chain_view \<Rightarrow> signed_transaction \<Rightarrow> address \<Rightarrow> tx_validation_error + unit" where
  "check_paymaster_balance v s paymaster =
     (let tx = st_tx s;
          needed_gas = (case max_transaction_gas_cost tx of Some n \<Rightarrow> n | None \<Rightarrow> u_max)
      in bind_map TxStorage (get_balance v paymaster) (\<lambda>pm_balance.
         if pm_balance < needed_gas
         then Inl (PaymasterInsufficientBalance paymaster needed_gas pm_balance)
         else bind_map TxStorage (get_balance v (st_from s)) (\<lambda>balance.
           if balance < tx_value tx then Inl (InsufficientBalance (tx_value tx) balance)
           else Inr ())))"

abbreviation (input) paymaster_of :: "signed_transaction \<Rightarrow> address option" where
  "paymaster_of s \<equiv> (case st_aa_bundle s of None \<Rightarrow> None | Some b \<Rightarrow> ab_paymaster b)"

text \<open>\<open>validate_tx\<close>: the resolved key, and the key to register, if any.\<close>

definition validate_tx ::
    "crypto_env \<Rightarrow> evm_env \<Rightarrow> governance_selectors \<Rightarrow> chain_view \<Rightarrow> signed_transaction \<Rightarrow> u64
       \<Rightarrow> tx_validation_error + u8 list \<times> (address \<times> u8 list) option" where
  "validate_tx ce evm sel v s expected_chain_id =
     bind_ok (validate_common ce evm sel v s expected_chain_id None) (\<lambda>outcome.
     bind_ok (check_nonce v s outcome None) (\<lambda>_.
     bind_ok (case paymaster_of s of
                Some paymaster \<Rightarrow> check_paymaster_balance v s paymaster
              | None \<Rightarrow> check_sender_balance v s) (\<lambda>_.
       Inr (out_pubkey outcome,
            if out_should_register_pubkey outcome then Some (st_from s, out_pubkey outcome)
            else None))))"

definition validate_tx_for_import ::
    "crypto_env \<Rightarrow> evm_env \<Rightarrow> governance_selectors \<Rightarrow> chain_view \<Rightarrow> signed_transaction \<Rightarrow> u64
       \<Rightarrow> u64 option \<Rightarrow> block_header option \<Rightarrow> tx_validation_error + unit" where
  "validate_tx_for_import ce evm sel v s expected_chain_id expected_nonce header =
     bind_ok (validate_common ce evm sel v s expected_chain_id header) (\<lambda>outcome.
       check_nonce v s outcome expected_nonce)"

section \<open>What admission guarantees\<close>

lemma verify_or_false_iff: "verify_or_false ce pk msg sig \<longleftrightarrow> ce_verify ce pk msg sig = Inr True"
  by (auto simp: verify_or_false_def split: sum.split)

text \<open>The key that speaks for the sender: the registered key, which the account's record commits
  to, or before registration a key whose hash is the address.\<close>

definition root_key_bound :: "crypto_env \<Rightarrow> chain_view \<Rightarrow> address \<Rightarrow> u8 list \<Rightarrow> bool" where
  "root_key_bound ce v from pk \<longleftrightarrow>
     (view_pubkey v from = Inr None
       \<and> (\<exists>algo. from = from_public_key (ce_blake3 ce) pk (sig_type_as_u8 algo)))
     \<or> (view_pubkey v from = Inr (Some pk)
       \<and> (\<exists>acc. view_account v from = Inr acc
            \<and> (\<forall>a. acc = Some a \<longrightarrow> acc_pq_pubkey_hash a \<in>
                 {hash_zero, ce_blake3 ce pk} \<union> range (algorithm_hash ce pk))))"

definition session_authorised :: "crypto_env \<Rightarrow> signed_transaction \<Rightarrow> session_auth \<Rightarrow> u8 list \<Rightarrow> u64 \<Rightarrow> bool" where
  "session_authorised ce s auth pk height \<longleftrightarrow>
     height < sa_expiry_block auth
     \<and> (\<exists>b. st_aa_bundle s = Some b
          \<and> sum_list (map (\<lambda>c. unat (ic_value c)) (ab_inner_calls b)) \<le> unat (sa_value_cap auth)
          \<and> (\<forall>target. sa_target auth = Some target \<longrightarrow>
               list_all (\<lambda>c. ic_to c = Some target) (ab_inner_calls b)))
     \<and> (\<exists>algo. ce_verify ce pk (hash_as_bytes (auth_hash (ce_blake3 ce) auth (tx_chain_id (st_tx s))))
            (pq_signature_new algo (sa_root_signature auth)) = Inr True)
     \<and> ce_verify ce (sa_session_pubkey auth) (tx_signing_hash ce s) (st_signature s) = Inr True"

definition signed_by_root :: "crypto_env \<Rightarrow> signed_transaction \<Rightarrow> u8 list \<Rightarrow> u64 \<Rightarrow> bool" where
  "signed_by_root ce s pk height \<longleftrightarrow>
     (case session_of s of
        None \<Rightarrow> ce_verify ce pk (tx_signing_hash ce s) (st_signature s) = Inr True
      | Some auth \<Rightarrow> session_authorised ce s auth pk height)"

definition signed_by_governance ::
    "crypto_env \<Rightarrow> governance_selectors \<Rightarrow> chain_view \<Rightarrow> signed_transaction \<Rightarrow> bool" where
  "signed_by_governance ce sel v s \<longleftrightarrow>
     (\<exists>key validators. view_fallback_key v (st_from s) = Inr (Some key)
        \<and> view_validators v = Inr validators \<and> st_from s \<in> List.set validators
        \<and> tx_value (st_tx s) = 0 \<and> governance_scoped sel v s
        \<and> ce_verify ce key (tx_signing_hash ce s) (st_signature s) = Inr True)"

lemma bound_algorithm_hash:
  assumes "bound_algorithm ce v a pk h = Inr (Some algo)" and "view_account v a = Inr (Some acc)"
  shows "acc_pq_pubkey_hash acc = algorithm_hash ce pk algo"
  using assms
  by (auto simp: bound_algorithm_def bind_simps find_Some_iff split: if_splits option.splits)

lemma key_matches_hash:
  assumes "key_matches ce v a pk h = Inr True" and acc: "view_account v a = Inr (Some acc)"
  shows "acc_pq_pubkey_hash acc \<in> {ce_blake3 ce pk} \<union> range (algorithm_hash ce pk)"
  using assms bound_algorithm_hash [OF _ acc]
  by (auto simp: key_matches_def bind_simps split: if_splits option.splits)

lemma infer_signature_type_address:
  "infer_signature_type_from_address env blake3 pk a = Some st \<Longrightarrow>
     from_public_key blake3 pk (sig_type_as_u8 st) = a"
  unfolding infer_signature_type_from_address_def find_Some_iff by blast

lemma root_account_key_bound:
  assumes ok: "validate_root_account ce evm v s header account registered height = Inr out"
    and reads: "view_account v (st_from s) = Inr account" "view_pubkey v (st_from s) = Inr registered"
  shows "root_key_bound ce v (st_from s) (out_pubkey out)"
proof (cases registered)
  case None
  then have "check_key_binding ce v s account None (out_pubkey out) height = Inr ()"
    using ok by (auto simp: validate_root_account_def bind_simps)
  then have "\<exists>algo. st_from s = from_public_key (ce_blake3 ce) (out_pubkey out) (sig_type_as_u8 algo)"
    by (auto simp: check_key_binding_def Let_def split: if_splits
        dest!: infer_signature_type_address intro: sym)
  then show ?thesis using reads None by (simp add: root_key_bound_def)
next
  case (Some pk)
  then have pk: "out_pubkey out = pk"
    and binding: "check_key_binding ce v s account (Some pk) pk height = Inr ()"
    using ok by (cases "st_pubkey_mode s"; auto simp: validate_root_account_def bind_simps resolve_pubkey_def)+
  have "acc_pq_pubkey_hash a \<in> {hash_zero, ce_blake3 ce pk} \<union> range (algorithm_hash ce pk)"
    if "account = Some a" for a
    using binding key_matches_hash [of ce v "st_from s" pk height a] reads that
    by (auto simp: check_key_binding_def bind_simps split: if_splits)
  then show ?thesis using reads Some pk by (simp add: root_key_bound_def)
qed

lemma session_root_verified:
  assumes "verify_session_root_authorization ce v s pk number = Inr True" and "session_of s = Some auth"
  shows "\<exists>algo. ce_verify ce pk (hash_as_bytes (auth_hash (ce_blake3 ce) auth (tx_chain_id (st_tx s))))
      (pq_signature_new algo (sa_root_signature auth)) = Inr True"
  using assms
  by (auto simp: verify_session_root_authorization_def bind_simps verify_session_root_signature_def
      verify_or_false_iff list_ex_iff Let_def split: option.splits)

lemma session_auth_authorised:
  assumes ok: "validate_session_auth ce v s auth pk number = Inr ()" and auth: "session_of s = Some auth"
  shows "session_authorised ce s auth pk number"
proof -
  obtain b where b: "st_aa_bundle s = Some b"
    using auth by (auto split: option.splits)
  obtain total_value where total: "checked_sum_from 0 (map ic_value (ab_inner_calls b)) = Some total_value"
    "\<not> sa_value_cap auth < total_value"
    using ok by (auto simp: validate_session_auth_def b Let_def bind_simps split: option.splits if_splits)
  then have cap: "sum_list (map (\<lambda>c. unat (ic_value c)) (ab_inner_calls b)) \<le> unat (sa_value_cap auth)"
    by (auto simp: checked_sum_from_Some_iff word_less_nat_alt comp_def)
  have target: "list_all (\<lambda>c. ic_to c = Some target) (ab_inner_calls b)" if "sa_target auth = Some target" for target
    using ok that by (auto simp: validate_session_auth_def b Let_def bind_simps total list_all_iff
        find_None_iff split: option.splits if_splits)
  have rest: "number < sa_expiry_block auth"
    "verify_session_root_authorization ce v s pk number = Inr True"
    "\<exists>algo. sig_type (st_signature s) = algo \<and> sig_data (st_signature s) = sa_session_signature auth
      \<and> ce_verify ce (sa_session_pubkey auth) (tx_signing_hash ce s)
          (pq_signature_new algo (sa_session_signature auth)) = Inr True"
    using ok by (auto simp: validate_session_auth_def b Let_def bind_simps total not_le
        split: option.splits if_splits)
  then show ?thesis
    using session_root_verified [OF rest(2) auth] b cap target
    by (cases "st_signature s") (auto simp: session_authorised_def pq_signature_new_def)
qed

lemma root_account_signed:
  assumes "validate_root_account ce evm v s header account registered height = Inr out"
  shows "signed_by_root ce s (out_pubkey out) height"
proof -
  have sig: "check_signature ce v s (out_pubkey out) height = Inr ()"
    using assms by (auto simp: validate_root_account_def bind_simps)
  show ?thesis
  proof (cases "session_of s")
    case None
    then show ?thesis
      using sig by (auto simp: signed_by_root_def check_signature_def bind_simps)
  next
    case (Some auth)
    then show ?thesis
      using sig session_auth_authorised [of ce v s auth "out_pubkey out" height]
      by (simp add: signed_by_root_def check_signature_def)
  qed
qed

lemma fallback_account_signed:
  assumes "validate_fallback_account ce evm v s header registered key = Inr out"
    and "governance_fallback_pubkey sel v s height = Inr (Some key)"
  shows "signed_by_governance ce sel v s"
  using assms
  by (auto simp: validate_fallback_account_def governance_fallback_pubkey_def signed_by_governance_def
      bind_simps split: option.splits if_splits)

text \<open>
  C11: a transaction that block import accepts, from an account without custom validator, carries the
  chain identifier and the expected nonce and is authorised for the height it is validated at: by
  the key bound to its sender, which signed it or signed an unexpired session scope that covers
  its value and its targets and whose session key signed it; or, for a registry call without value
  by a validator, by that validator's genesis fallback key.
\<close>

theorem imported_transaction_is_authorised:
  assumes "validate_tx_for_import ce evm sel v s chain_id expected_nonce header = Inr ()"
    and "view_account v (st_from s) = Inr account"
    and "\<forall>a. account = Some a \<longrightarrow> \<not> has_custom_validation a"
    and "candidate_height v header = Inr height"
  shows "tx_chain_id (st_tx s) = chain_id
    \<and> (\<forall>n. expected_nonce = Some n \<longrightarrow> tx_nonce (st_tx s) = n)
    \<and> ((\<exists>pk. root_key_bound ce v (st_from s) pk \<and> signed_by_root ce s pk height)
       \<or> signed_by_governance ce sel v s)"
proof -
  obtain out where common: "validate_common ce evm sel v s chain_id header = Inr out"
    and nonce: "check_nonce v s out expected_nonce = Inr ()"
    using assms(1) by (auto simp: validate_tx_for_import_def bind_simps)
  then have chain: "tx_chain_id (st_tx s) = chain_id"
    and aa: "validate_aa_tx_inner ce evm sel v s header = Inr out"
    by (auto simp: validate_common_def Let_def bind_simps)
  have no_code: "(case account of None \<Rightarrow> None | Some acc \<Rightarrow> acc_validation_code_hash acc) = None"
    using assms(3) by (auto split: option.split)
  obtain registered fallback where reads: "view_pubkey v (st_from s) = Inr registered"
    and fallback: "governance_fallback_pubkey sel v s height = Inr fallback"
    and path: "(case fallback of
        Some key \<Rightarrow> validate_fallback_account ce evm v s header registered key
      | None \<Rightarrow> validate_root_account ce evm v s header account registered height) = Inr out"
    using aa assms(2,4) by (auto simp: validate_aa_tx_inner_def bind_simps no_code)
  have "out_protocol_checks_nonce out"
    using path by (auto simp: validate_fallback_account_def validate_root_account_def bind_simps
        split: option.splits)
  then have "\<forall>n. expected_nonce = Some n \<longrightarrow> tx_nonce (st_tx s) = n"
    using nonce by (auto simp: check_nonce_def bind_simps)
  moreover have "(\<exists>pk. root_key_bound ce v (st_from s) pk \<and> signed_by_root ce s pk height)
       \<or> signed_by_governance ce sel v s"
  proof (cases fallback)
    case None
    then show ?thesis
      using path root_account_key_bound [OF _ assms(2) reads] root_account_signed by force
  next
    case (Some key)
    then show ?thesis using path fallback fallback_account_signed by force
  qed
  ultimately show ?thesis using chain by blast
qed

text \<open>Whatever admission accepts, block import accepts in the same state.\<close>

lemma validate_tx_refines_import:
  "validate_tx ce evm sel v s chain_id = Inr r \<Longrightarrow>
     validate_tx_for_import ce evm sel v s chain_id None None = Inr ()"
  by (auto simp: validate_tx_def validate_tx_for_import_def bind_simps)

section \<open>Intrinsic gas and cost\<close>

definition intrinsic_gas_nat :: "transaction \<Rightarrow> bool \<Rightarrow> nat" where
  "intrinsic_gas_nat tx is_create =
     21000 + (if is_create then 32000 else 0)
     + sum_list (map (\<lambda>b. if b = 0 then 4 else 16) (tx_data tx))
     + (case tx_access_list tx of
          None \<Rightarrow> 0
        | Some items \<Rightarrow> sum_list (map (\<lambda>i. 2400 + 1900 * length (ali_storage_keys i)) items))"

lemma unat_u64_le: "unat (g :: u64) \<le> 18446744073709551615"
  using unat_u64_less [of g] by linarith

lemma min_add_min: "min (min a m + b) m = min (a + b) (m :: nat)"
  by (simp add: min_def)

lemma unat_fold_bytes:
  "unat (foldl byte_gas g data) =
     min (unat g + sum_list (map (\<lambda>b. if b = 0 then 4 else 16) data)) (2 ^ 64 - 1)"
proof (induction data arbitrary: g)
  case Nil
  then show ?case using unat_u64_le [of g] by (simp add: min_def)
next
  case (Cons b data)
  then show ?case
    by (simp add: byte_gas_def nat_of_word
        min_add_min add.assoc)
qed

lemma unat_fold_items:
  assumes "list_all (\<lambda>i. length (ali_storage_keys i) \<le> MAX_ACCESS_LIST_STORAGE_KEYS) items"
  shows "unat (foldl access_item_gas g items) =
     min (unat g + sum_list (map (\<lambda>i. 2400 + 1900 * length (ali_storage_keys i)) items)) (2 ^ 64 - 1)"
  using assms
proof (induction items arbitrary: g)
  case Nil
  then show ?case using unat_u64_le [of g] by (simp add: min_def)
next
  case (Cons i items)
  have "length (ali_storage_keys i) \<le> 512"
    using Cons.prems by simp
  then have "unat (access_item_gas g i) = min (unat g + (2400 + 1900 * length (ali_storage_keys i))) (2 ^ 64 - 1)"
    by (simp add: access_item_gas_def Let_def nat_of_word unat_of_nat
        min_def)
  then show ?case using Cons by (simp add: min_def)
qed

lemma sum_item_gas_bound:
  assumes "list_all (\<lambda>i. length (ali_storage_keys i) \<le> MAX_ACCESS_LIST_STORAGE_KEYS) items"
  shows "sum_list (map (\<lambda>i. 2400 + 1900 * length (ali_storage_keys i)) items) \<le> length items * 975200"
  using assms by (induction items) auto

lemma sum_byte_gas_bound: "sum_list (map (\<lambda>b :: u8. if b = 0 then 4 else 16) data) \<le> 16 * length data"
  by (induction data) auto

lemma unat_compute_intrinsic_gas:
  assumes "access_list_ok (tx_access_list tx)" and "length (tx_data tx) < 2 ^ 56"
  shows "unat (compute_intrinsic_gas (tx_data tx) c (tx_access_list tx)) = intrinsic_gas_nat tx c"
proof -
  define bytes :: nat where "bytes = sum_list (map (\<lambda>b :: u8. if b = 0 then 4 else 16) (tx_data tx))"
  have bytes: "bytes < 2 ^ 60" using sum_byte_gas_bound [of "tx_data tx"] assms(2) by (simp add: bytes_def)
  let ?base = "if c then sat_add INTRINSIC_GAS_TX GAS_CONTRACT_CREATION else INTRINSIC_GAS_TX"
  have base: "unat ?base = 21000 + (if c then 32000 else 0)"
    by (simp add: nat_of_word)
  have data: "unat (foldl byte_gas ?base (tx_data tx)) = 21000 + (if c then 32000 else 0) + bytes"
    using bytes unfolding unat_fold_bytes base by (simp add: bytes_def min_def)
  show ?thesis
  proof (cases "tx_access_list tx")
    case None
    then show ?thesis
      using data by (simp add: compute_intrinsic_gas_def intrinsic_gas_nat_def Let_def bytes_def)
  next
    case (Some items)
    then have ok: "list_all (\<lambda>i. length (ali_storage_keys i) \<le> MAX_ACCESS_LIST_STORAGE_KEYS) items"
      and len: "length items \<le> 256"
      using assms(1) by (simp_all add: access_list_ok_def)
    have "sum_list (map (\<lambda>i. 2400 + 1900 * length (ali_storage_keys i)) items) \<le> 256 * 975200"
      using sum_item_gas_bound [OF ok] len by linarith
    then show ?thesis
      using data bytes Some
      by (simp add: compute_intrinsic_gas_def intrinsic_gas_nat_def Let_def unat_fold_items [OF ok]
          bytes_def min_def)
  qed
qed

lemma checked_mul_u64:
  "checked_mul (ucast (a :: u64) :: u256) (ucast b) = Some (ucast a * ucast (b :: u64))"
  and unat_mul_u64: "unat (ucast a * ucast b :: u256) = unat a * unat b"
proof -
  have "unat a * unat b \<le> 18446744073709551615 * 18446744073709551615"
    by (intro mult_mono unat_u64_le) simp_all
  then have less: "unat a * unat b < 2 ^ 256" by simp
  then show "unat (ucast a * ucast b :: u256) = unat a * unat b"
    by (subst unat_mult_fits) (simp_all add: unat_ucast_u256)
  have "uint x * uint y = int (unat x * unat y)" for x y :: u256 by simp
  then have "uint (ucast a :: u256) * uint (ucast b :: u256) = int (unat a * unat b)"
    by (simp only: unat_ucast_u256)
  also have "\<dots> < 2 ^ LENGTH(256)" using less by (simp only: of_nat_less_numeral_power_cancel_iff) simp
  finally show "checked_mul (ucast a :: u256) (ucast b) = Some (ucast a * ucast b)"
    by (simp only: checked_mul_def if_True)
qed

definition max_gas_cost_nat :: "transaction \<Rightarrow> nat" where
  "max_gas_cost_nat tx =
     unat (tx_gas_limit tx) * unat (tx_max_fee_per_gas tx) + unat (blob_gas tx) * unat (blob_fee_or_zero tx)"

definition bundle_gas_nat :: "signed_transaction \<Rightarrow> nat" where
  "bundle_gas_nat s =
     (case st_aa_bundle s of
        None \<Rightarrow> 0
      | Some b \<Rightarrow>
          sum_list (map (\<lambda>c. unat (ic_gas_limit c)) (ab_inner_calls b))
          + 4000 * (length (ab_inner_calls b) - 1) + (if ab_session_auth b = None then 0 else 20000))"

lemma unat_max_transaction_gas_cost:
  "\<exists>c. max_transaction_gas_cost tx = Some c \<and> unat c = max_gas_cost_nat tx"
proof -
  have "unat a * unat b \<le> 18446744073709551615 * 18446744073709551615" for a b :: u64
    by (intro mult_mono unat_u64_le) simp_all
  from this [of "tx_gas_limit tx" "tx_max_fee_per_gas tx"] this [of "blob_gas tx" "blob_fee_or_zero tx"]
  have "max_gas_cost_nat tx < 2 ^ 256" by (simp add: max_gas_cost_nat_def)
  then show ?thesis
    by (simp add: max_transaction_gas_cost_def checked_mul_u64 checked_add_Some_iff unat_mul_u64
        max_gas_cost_nat_def unat_plus_fits)
qed

lemma unat_intrinsic_gas_surcharge:
  assumes "length (ab_inner_calls b) \<le> MAX_INNER_CALLS"
  shows "unat (intrinsic_gas_surcharge b)
    = 4000 * (length (ab_inner_calls b) - 1) + (if ab_session_auth b = None then 0 else 20000)"
proof -
  have "length (ab_inner_calls b) - 1 \<le> 15" using assms by simp
  then show ?thesis
    by (simp add: intrinsic_gas_surcharge_def Let_def nat_of_word unat_of_nat
        min_def)
qed

lemma validate_aa_bundle_structure_gas:
  assumes ok: "validate_aa_bundle_structure s = Inr g"
  shows "unat g = bundle_gas_nat s \<and> paymaster_of s \<noteq> Some (st_from s)"
proof (cases "st_aa_bundle s")
  case None
  then show ?thesis
    using ok by (auto simp: validate_aa_bundle_structure_def bundle_gas_nat_def Let_def
        split: if_splits)
next
  case (Some b)
  let ?c = "sat_add (inner_gas_sum b) (ucast (intrinsic_gas_surcharge b))"
  have struct: "validate_structure b = Inr ()" and g: "g = ucast ?c"
    and fits: "\<not> ucast (tx_gas_limit (st_tx s)) < ?c" and pm: "ab_paymaster b \<noteq> Some (st_from s)"
    using ok by (auto simp: validate_aa_bundle_structure_def Some Let_def bind_simps
        split: if_splits option.splits)
  have calls: "length (ab_inner_calls b) \<le> MAX_INNER_CALLS"
    using struct by (auto simp: validate_structure_def split: if_splits)
  have le: "unat ?c \<le> unat (tx_gas_limit (st_tx s))" using fits by (simp add: word_less_nat_alt)
  also have "\<dots> < 2 ^ 64" by simp
  finally have small: "unat ?c < 2 ^ 64" .
  then have "unat g = unat ?c" by (simp add: g unsigned_ucast_eq take_bit_nat_eq_self_iff)
  moreover have "unat ?c = unat (inner_gas_sum b) + unat (intrinsic_gas_surcharge b)"
    using small by (simp add: nat_of_word min_def split: if_splits)
  ultimately show ?thesis
    using unat_inner_gas_sum [OF calls] unat_intrinsic_gas_surcharge [OF calls] pm
    by (simp add: bundle_gas_nat_def Some)
qed

lemma total_intrinsic_gas_exact:
  assumes "total_intrinsic_gas s g = Inr gas" and "access_list_ok (tx_access_list (st_tx s))"
    and "length (tx_data (st_tx s)) < 2 ^ 56"
  shows "unat gas = intrinsic_gas_nat (st_tx s) (is_contract_creation (st_tx s) \<and> \<not> is_aa_bundle s) + unat g"
  using assms(1)
  by (auto simp: total_intrinsic_gas_def Let_def checked_add_Some_iff unat_plus_fits
      unat_compute_intrinsic_gas [OF assms(2,3)] split: option.splits)

lemma check_sender_balance_exact:
  assumes "check_sender_balance v s = Inr ()"
  shows "\<exists>b. get_balance v (st_from s) = Inr b
    \<and> max_gas_cost_nat (st_tx s) + unat (tx_value (st_tx s)) \<le> unat b"
  using assms unat_max_transaction_gas_cost [of "st_tx s"]
  by (auto simp: check_sender_balance_def Let_def bind_simps checked_add_Some_iff
      word_less_nat_alt unat_plus_fits split: option.splits if_splits)

lemma check_paymaster_balance_exact:
  assumes "check_paymaster_balance v s p = Inr ()"
  shows "\<exists>bp b. get_balance v p = Inr bp \<and> get_balance v (st_from s) = Inr b
    \<and> max_gas_cost_nat (st_tx s) \<le> unat bp \<and> unat (tx_value (st_tx s)) \<le> unat b"
  using assms unat_max_transaction_gas_cost [of "st_tx s"]
  by (auto simp: check_paymaster_balance_def Let_def bind_simps word_less_nat_alt split: if_splits)

text \<open>
  C12: an admitted transaction covers its costs in exact arithmetic: the gas limit is at least the sum of
  the base cost, the calldata, the access list and the bundle; the account that pays owns the
  maximal execution and blob cost, and the sender the value; a paymaster is never the sender.
  Block import accepts the transaction in the same state.
\<close>

theorem admitted_transaction_is_funded:
  assumes "validate_tx ce evm sel v s chain_id = Inr r" and "length (tx_data (st_tx s)) < 2 ^ 56"
  shows "intrinsic_gas_nat (st_tx s) (is_contract_creation (st_tx s) \<and> \<not> is_aa_bundle s)
      + bundle_gas_nat s \<le> unat (tx_gas_limit (st_tx s))
    \<and> (case paymaster_of s of
         None \<Rightarrow> \<exists>b. get_balance v (st_from s) = Inr b
           \<and> max_gas_cost_nat (st_tx s) + unat (tx_value (st_tx s)) \<le> unat b
       | Some p \<Rightarrow> p \<noteq> st_from s \<and> (\<exists>bp b. get_balance v p = Inr bp \<and> get_balance v (st_from s) = Inr b
           \<and> max_gas_cost_nat (st_tx s) \<le> unat bp \<and> unat (tx_value (st_tx s)) \<le> unat b))
    \<and> validate_tx_for_import ce evm sel v s chain_id None None = Inr ()"
proof -
  obtain out where common: "validate_common ce evm sel v s chain_id None = Inr out"
    and balance: "(case paymaster_of s of
        Some p \<Rightarrow> check_paymaster_balance v s p | None \<Rightarrow> check_sender_balance v s) = Inr ()"
    using assms(1) by (auto simp: validate_tx_def bind_simps)
  then obtain g gas where extra: "validate_aa_bundle_structure s = Inr g"
    and gas: "total_intrinsic_gas s g = Inr gas" "\<not> tx_gas_limit (st_tx s) < gas"
    and al: "validate_access_list (st_tx s) = Inr ()"
    by (auto simp: validate_common_def Let_def bind_simps)
  note bdl = validate_aa_bundle_structure_gas [OF extra]
  have "intrinsic_gas_nat (st_tx s) (is_contract_creation (st_tx s) \<and> \<not> is_aa_bundle s)
      + bundle_gas_nat s \<le> unat (tx_gas_limit (st_tx s))"
    using total_intrinsic_gas_exact [OF gas(1) _ assms(2)] al gas(2) bdl
    by (simp add: validate_access_list_iff word_less_nat_alt)
  moreover have "case paymaster_of s of
         None \<Rightarrow> \<exists>b. get_balance v (st_from s) = Inr b
           \<and> max_gas_cost_nat (st_tx s) + unat (tx_value (st_tx s)) \<le> unat b
       | Some p \<Rightarrow> p \<noteq> st_from s \<and> (\<exists>bp b. get_balance v p = Inr bp \<and> get_balance v (st_from s) = Inr b
           \<and> max_gas_cost_nat (st_tx s) \<le> unat bp \<and> unat (tx_value (st_tx s)) \<le> unat b)"
    using balance bdl check_sender_balance_exact check_paymaster_balance_exact
    by (auto split: option.splits)
  ultimately show ?thesis using validate_tx_refines_import [OF assms(1)] by blast
qed

section \<open>Instances\<close>

text \<open>A session-key bundle on a chain without optional upgrades; the verifier accepts a signature
  whose single byte is the first byte of the key.\<close>

definition demo_verify :: verifier where
  "demo_verify pk msg sig = Inr (sig_data sig = take 1 pk)"

definition demo_env :: crypto_env where
  "demo_env =
     \<lparr>ce_registry = \<lparr>env_global = from_allowlist, env_overrides = []\<rparr>,
      ce_blake3 = (\<lambda>bs. ShellHash (of_nat (be_nat (take 32 bs)))),
      ce_keccak = (\<lambda>bs. hash_zero), ce_rlp = rlp_reference, ce_verify = demo_verify\<rparr>"

definition demo_evm :: evm_env where
  "demo_evm = \<lparr>evm_validate = (\<lambda>_ _ _ _. Inr [1]), evm_paymaster = (\<lambda>_ _ _ _ _. Inr ())\<rparr>"

definition demo_selectors :: governance_selectors where
  "demo_selectors = \<lparr>sel_submit_proposal = [1], sel_vote_proposal = [2], sel_deprecate = [3],
     sel_propose_activation = [4]\<rparr>"

definition demo_sender :: address where
  "demo_sender = from_public_key (ce_blake3 demo_env) [7] 1"

definition demo_view :: chain_view where
  "demo_view =
     \<lparr>view_account = (\<lambda>a. Inr (Some (new_user_account hash_zero 1000000))),
      view_pubkey = (\<lambda>a. Inr None), view_config = Inr None, view_head = Inr None,
      view_code = (\<lambda>_. Inr None), view_validators = Inr [], view_fallback_bindings = Inr False,
      view_fallback_key = (\<lambda>_. Inr None), view_algorithm_slot = (\<lambda>_ _. Inr 0),
      view_registry_addr = address_zero\<rparr>"

definition demo_signed :: signed_transaction where
  "demo_signed =
     \<lparr>st_from = demo_sender,
      st_tx = sample_tx\<lparr>tx_nonce := 0, tx_access_list := None, tx_max_fee_per_gas := 2,
        tx_to := None, tx_gas_limit := 60000\<rparr>,
      st_signature = \<lparr>sig_type = MlDsa65, sig_data = [3]\<rparr>,
      st_pubkey_mode = Embedded [7],
      st_aa_bundle = Some (sample_bundle\<lparr>ab_paymaster := None, ab_paymaster_context := None,
        ab_session_auth := Some \<lparr>sa_session_pubkey = [3], sa_session_algo = 1, sa_target = None,
          sa_value_cap = 400, sa_expiry_block = 12, sa_root_signature = [7],
          sa_session_signature = [3]\<rparr>\<rparr>)\<rparr>"

lemma demo_allowed: "is_algorithm_allowed (ce_registry demo_env) MlDsa65"
  "is_algorithm_allowed (ce_registry demo_env) Dilithium3"
  by (code_simp)+

lemma demo_signed_fields:
  "st_from demo_signed = demo_sender"
  "st_signature demo_signed = \<lparr>sig_type = MlDsa65, sig_data = [3]\<rparr>"
  "st_pubkey_mode demo_signed = Embedded [7]"
  "paymaster_of demo_signed = None" "session_of demo_signed = Some \<lparr>sa_session_pubkey = [3],
    sa_session_algo = 1, sa_target = None, sa_value_cap = 400, sa_expiry_block = 12,
    sa_root_signature = [7], sa_session_signature = [3]\<rparr>"
  by (simp_all add: demo_signed_def)

lemma demo_view_fields:
  "view_account demo_view a = Inr (Some (new_user_account hash_zero 1000000))"
  "view_pubkey demo_view a = Inr None" "view_config demo_view = Inr None" "view_head demo_view = Inr None"
  by (simp_all add: demo_view_def)

lemma demo_verify_fields: "ce_verify demo_env pk msg sig = Inr (sig_data sig = take 1 pk)"
  by (simp add: demo_env_def demo_verify_def)

lemma demo_config: "config_active field demo_view n = Inr False"
  by (simp add: config_active_def demo_view_fields)

lemma demo_session_root: "verify_session_root_authorization demo_env demo_view demo_signed [7] 0 = Inr True"
  using demo_allowed
  by (simp add: verify_session_root_authorization_def demo_signed_fields bound_algorithm_def demo_config
      registered_session_root_deprecation_enabled_def bind_ok_def demo_verify_fields
      verify_session_root_signature_def ALLOWED_ALGORITHMS_def verify_or_false_def pq_signature_new_def
      Let_def)

lemma demo_check_signature: "check_signature demo_env demo_view demo_signed [7] 0 = Inr ()"
proof -
  have "st_aa_bundle demo_signed \<noteq> None"
    "map ic_value (ab_inner_calls (the (st_aa_bundle demo_signed))) = [200]"
    by (simp_all add: demo_signed_def sample_bundle_def)
  then obtain b where b: "st_aa_bundle demo_signed = Some b" "map ic_value (ab_inner_calls b) = [200]" by auto
  then have "ab_session_auth b = session_of demo_signed" by simp
  note session = this [unfolded demo_signed_fields(5)]
  from b show ?thesis
    using demo_session_root demo_allowed
    by (simp add: session check_signature_def demo_signed_fields validate_session_auth_def bind_map_def
        demo_verify_fields pq_signature_new_def checked_add_def sig_type_from_u8_def)
qed

lemma demo_root_account:
  "validate_root_account demo_env demo_evm demo_view demo_signed None
     (Some (new_user_account hash_zero 1000000)) None 0
   = Inr \<lparr>out_pubkey = [7], out_should_register_pubkey = True, out_protocol_checks_nonce = True\<rparr>"
proof -
  have "check_algorithm demo_env demo_view demo_signed None 0 = Inr ()"
    using demo_allowed
    by (simp add: check_algorithm_def matured_direct_account_def demo_signed_fields bind_map_def)
  moreover have "check_key_binding demo_env demo_view demo_signed
      (Some (new_user_account hash_zero 1000000)) None [7] 0 = Inr ()"
    using demo_allowed
    by (simp add: check_key_binding_def demo_signed_fields infer_signature_type_from_address_def
        demo_sender_def)
  moreover have "validate_paymaster_authorization demo_env demo_evm demo_view demo_signed None = Inr ()"
    using demo_signed_fields(4)
    by (auto simp: validate_paymaster_authorization_def split: option.splits)
  ultimately show ?thesis
    using demo_check_signature
    by (simp add: validate_root_account_def bind_ok_def demo_signed_fields resolve_pubkey_def
        check_bound_algorithm_def)
qed

lemma demo_height: "candidate_height demo_view None = Inr 0"
  by (simp add: candidate_height_def demo_view_fields bind_ok_def validation_block_number_def)

lemma demo_aa:
  "validate_aa_tx_inner demo_env demo_evm demo_selectors demo_view demo_signed None
   = Inr \<lparr>out_pubkey = [7], out_should_register_pubkey = True, out_protocol_checks_nonce = True\<rparr>"
proof -
  have "governance_fallback_pubkey demo_selectors demo_view demo_signed 0 = Inr None"
    by (simp add: governance_fallback_pubkey_def emergency_governance_active_def demo_config
        bind_map_def bind_ok_def)
  moreover have "acc_validation_code_hash (new_user_account hash_zero 1000000) = None"
    by (simp add: new_user_account_def)
  ultimately show ?thesis
    using demo_root_account demo_height
    by (simp add: validate_aa_tx_inner_def bind_map_def bind_ok_def demo_view_fields)
qed

lemma demo_bundle_structure: "validate_aa_bundle_structure demo_signed = Inr 24000"
  by (simp add: validate_aa_bundle_structure_def demo_signed_def sample_tx_def sample_bundle_def
      validate_structure_def paymaster_structure_def
      bind_map_def inner_gas_sum_def
      intrinsic_gas_surcharge_def sat_mul_def
      sat_add_def checked_inner_value_sum_def checked_add_def Let_def)

lemma demo_tx_checks:
  "tx_chain_id (st_tx demo_signed) = 1" "tx_nonce (st_tx demo_signed) = 0"
  "tx_gas_limit (st_tx demo_signed) = 60000"
  "validate_transaction_type (tx_type (st_tx demo_signed)) = Inr ()"
  "validate_fee_caps (st_tx demo_signed) = Inr ()" "validate_access_list (st_tx demo_signed) = Inr ()"
  "validate_blob_tx (st_tx demo_signed) = Inr ()" "total_intrinsic_gas demo_signed 24000 = Inr 45032"
  by (simp_all add: demo_signed_def sample_tx_def validate_transaction_type_def validate_fee_caps_def
      validate_access_list_def validate_blob_tx_def checked_add_def is_contract_creation_def
      total_intrinsic_gas_def compute_intrinsic_gas_def is_aa_bundle_def
      byte_gas_def sat_add_def Let_def)

lemma demo_common:
  "validate_common demo_env demo_evm demo_selectors demo_view demo_signed 1 None
   = Inr \<lparr>out_pubkey = [7], out_should_register_pubkey = True, out_protocol_checks_nonce = True\<rparr>"
  using demo_aa demo_bundle_structure demo_tx_checks
  by (simp add: validate_common_def bind_ok_def bind_map_def ensure_nonce_can_advance_def
      checked_add_def Let_def)

theorem imported_transaction_is_authorised_witness:
  "tx_nonce (st_tx demo_signed) = 0 \<and>
   ((\<exists>pk. root_key_bound demo_env demo_view demo_sender pk \<and> signed_by_root demo_env demo_signed pk 0)
    \<or> signed_by_governance demo_env demo_selectors demo_view demo_signed)"
proof -
  have "validate_tx_for_import demo_env demo_evm demo_selectors demo_view demo_signed 1 (Some 0) None = Inr ()"
    by (simp add: validate_tx_for_import_def demo_common bind_ok_def check_nonce_def bind_map_def
        demo_tx_checks)
  moreover have "\<not> has_custom_validation (new_user_account hash_zero 1000000)"
    by (simp add: new_user_account_def)
  ultimately show ?thesis
    using imported_transaction_is_authorised [OF _ demo_view_fields(1) _ demo_height, of demo_env demo_evm
        demo_selectors demo_signed 1 "Some 0"]
    by (simp add: demo_signed_fields)
qed

theorem admitted_transaction_is_funded_witness:
  "max_gas_cost_nat (st_tx demo_signed) + unat (tx_value (st_tx demo_signed)) \<le> 1000000
   \<and> validate_tx_for_import demo_env demo_evm demo_selectors demo_view demo_signed 1 None None = Inr ()"
proof -
  have bal: "get_balance demo_view a = Inr 1000000" and nonce: "get_nonce demo_view a = Inr 0" for a
    by (simp_all add: get_balance_def get_nonce_def demo_view_fields new_user_account_def)
  have "check_sender_balance demo_view demo_signed = Inr ()"
    by (simp add: check_sender_balance_def bal bind_map_def)
       (simp add: demo_signed_def sample_tx_def max_transaction_gas_cost_def checked_mul_def checked_add_def
          blob_gas_def)
  then have "validate_tx demo_env demo_evm demo_selectors demo_view demo_signed 1
      = Inr ([7], Some (demo_sender, [7]))"
    by (simp add: validate_tx_def demo_common bind_ok_def check_nonce_def bind_map_def nonce
        demo_tx_checks demo_signed_fields)
  moreover have "length (tx_data (st_tx demo_signed)) < 2 ^ 56"
    by (simp add: demo_signed_def sample_tx_def)
  ultimately show ?thesis
    using admitted_transaction_is_funded [of demo_env demo_evm demo_selectors demo_view demo_signed 1]
    by (simp add: demo_signed_fields bal)
qed

end
