(* ===== verification/Tx_Pool.thy ===== *)
theory Tx_Pool
  imports Tx_Validation Btree_Map
begin

text \<open>
  The transaction pool, \<open>mempool/src/pool.rs\<close>, with its configuration and errors
  (\<open>config.rs\<close>, \<open>error.rs\<close>): admission with its stateless checks, replacement by fee,
  capacity evictions and balance reservations; removals, prunings and the views for block building.

  The lock of the pool makes every operation one step on the state \<open>pool_inner\<close>. The two
  prunings read the senders before they take the write lock, so what they apply is a step of its
  own, for any nonces or keys read. A \<open>BTreeMap\<close> is a \<open>btreemap\<close>, the eviction set a list
  without duplicates whose order is the iteration order. The length of the JSON text of a
  transaction is computed by the \<open>serde_json\<close> crate and is a parameter, as are the reads of
  the head of the chain. Numbers formatted into error messages are left out.
\<close>

section \<open>Configuration and errors\<close>

record mempool_config =
  max_pool_size :: usize
  max_pool_bytes :: usize
  max_per_sender :: usize
  mc_chain_id :: u64
  min_gas_price :: u64
  replacement_fee_bump_pct :: u64

abbreviation (input) DEFAULT_MAX_POOL_BYTES :: usize where
  "DEFAULT_MAX_POOL_BYTES \<equiv> 268435456"

definition mempool_config_default :: mempool_config where
  "mempool_config_default =
     \<lparr>max_pool_size = 4096, max_pool_bytes = DEFAULT_MAX_POOL_BYTES, max_per_sender = 64,
      mc_chain_id = 1, min_gas_price = 0, replacement_fee_bump_pct = 10\<rparr>"

datatype invalid_reason = Message string | RejectedTx tx_validation_error | RejectedAa aa_error

datatype mempool_error =
    PoolFull usize
  | PoolBytesFull usize
  | SenderQueueFull address usize
  | MpDuplicate shell_hash
  | MpChainIdMismatch u64 u64
  | GasPriceTooLow u64 u64
  | MpGasTooLow u64 u64
  | NonceTooLow u64 u64
  | NonceGap u64 u64
  | MpInsufficientBalance u256 u256
  | ReplacementFeeTooLow u64 u64
  | MpInvalidSignature string
  | PubkeyRequired address
  | MpAddressMismatch address address
  | MpCrypto crypto_error
  | MpInvalidTransaction invalid_reason
  | MpStorage storage_error

abbreviation (input) MAX_TX_SIZE :: usize where
  "MAX_TX_SIZE \<equiv> 131072"

section \<open>State\<close>

text \<open>The order is derived from the order of the fields.\<close>

datatype priority_key = PriorityKey (neg_priority_fee: int) (pk_seq: u64)

instantiation priority_key :: linorder
begin

definition less_eq_priority_key :: "priority_key \<Rightarrow> priority_key \<Rightarrow> bool" where
  "less_eq_priority_key a b \<longleftrightarrow>
     neg_priority_fee a < neg_priority_fee b
     \<or> neg_priority_fee a = neg_priority_fee b \<and> pk_seq a \<le> pk_seq b"

definition less_priority_key :: "priority_key \<Rightarrow> priority_key \<Rightarrow> bool" where
  "less_priority_key a b \<longleftrightarrow>
     neg_priority_fee a < neg_priority_fee b
     \<or> neg_priority_fee a = neg_priority_fee b \<and> pk_seq a < pk_seq b"

instance
  by standard (auto simp: less_eq_priority_key_def less_priority_key_def priority_key.expand)

end

record reservation_total =
  rt_low :: u256
  rt_overflow_units :: u64

definition rt_default :: reservation_total where
  "rt_default = \<lparr>rt_low = 0, rt_overflow_units = 0\<rparr>"

definition rt_add :: "reservation_total \<Rightarrow> u256 \<Rightarrow> reservation_total" where
  "rt_add t cost =
     (let low = rt_low t + cost; overflowed = (low < cost)
      in \<lparr>rt_low = low,
          rt_overflow_units = sat_add (rt_overflow_units t) (if overflowed then 1 else 0)\<rparr>)"

definition rt_subtract :: "reservation_total \<Rightarrow> u256 \<Rightarrow> reservation_total" where
  "rt_subtract t cost =
     (let low = rt_low t - cost; borrowed = (rt_low t < cost)
      in if borrowed \<and> rt_overflow_units t = 0 then rt_default
         else \<lparr>rt_low = low,
               rt_overflow_units = sat_sub (rt_overflow_units t) (if borrowed then 1 else 0)\<rparr>)"

definition rt_saturating_u256 :: "reservation_total \<Rightarrow> u256" where
  "rt_saturating_u256 t = (if rt_overflow_units t = 0 then rt_low t else u_max)"

abbreviation (input) rt_is_zero :: "reservation_total \<Rightarrow> bool" where
  "rt_is_zero t \<equiv> (rt_overflow_units t = 0 \<and> rt_low t = 0)"

record pool_entry =
  pe_tx :: signed_transaction
  pe_priority_key :: priority_key
  pe_serialized_size :: usize
  pe_validated_root_hash :: "shell_hash option"

record pool_inner =
  by_hash :: "(shell_hash, pool_entry) hashmap"
  by_sender :: "(address, (u64, shell_hash) btreemap) hashmap"
  by_priority :: "(priority_key, shell_hash) btreemap"
  pool_seq :: u64
  total_bytes :: usize
  accepted_total :: u64
  reserved_by_account :: "(address, reservation_total) hashmap"

definition pool_new :: pool_inner where
  "pool_new =
     \<lparr>by_hash = hm_new, by_sender = hm_new, by_priority = hm_new, pool_seq = 0, total_bytes = 0,
      accepted_total = 0, reserved_by_account = hm_new\<rparr>"

section \<open>Reservations\<close>

definition gas_payer :: "signed_transaction \<Rightarrow> address" where
  "gas_payer tx =
     (case paymaster_of tx of
        Some paymaster \<Rightarrow> if paymaster \<noteq> st_from tx then paymaster else st_from tx
      | None \<Rightarrow> st_from tx)"

definition add_or_max :: "u256 \<Rightarrow> u256 \<Rightarrow> u256" where
  "add_or_max left right = (case checked_add left right of Some v \<Rightarrow> v | None \<Rightarrow> u_max)"

definition pool_max_gas_cost :: "signed_transaction \<Rightarrow> u256" where
  "pool_max_gas_cost s =
     (let tx = st_tx s;
          execution_gas_cost =
            (case checked_mul (ucast (tx_gas_limit tx)) (ucast (tx_max_fee_per_gas tx)) of
               Some c \<Rightarrow> c | None \<Rightarrow> u_max);
          blob_gas_cost =
            (case checked_mul (ucast (blob_gas tx)) (ucast (blob_fee_or_zero tx)) of
               Some c \<Rightarrow> c | None \<Rightarrow> u_max)
      in add_or_max execution_gas_cost blob_gas_cost)"

definition reservation_costs :: "signed_transaction \<Rightarrow> (address \<times> u256) list" where
  "reservation_costs tx =
     (if gas_payer tx = st_from tx
      then [(st_from tx, add_or_max (pool_max_gas_cost tx) (tx_value (st_tx tx))), (st_from tx, 0)]
      else [(st_from tx, tx_value (st_tx tx)), (gas_payer tx, pool_max_gas_cost tx)])"

definition reservation_cost_for :: "signed_transaction \<Rightarrow> address \<Rightarrow> u256" where
  "reservation_cost_for tx account =
     foldl add_or_max 0 (map snd (filter (\<lambda>(a, _). a = account) (reservation_costs tx)))"

definition add_reservation :: "pool_inner \<Rightarrow> address \<times> u256 \<Rightarrow> pool_inner" where
  "add_reservation inner ac =
     (case ac of (account, cost) \<Rightarrow>
        if cost = 0 then inner
        else inner\<lparr>reserved_by_account :=
               hm_insert (reserved_by_account inner) account
                 (rt_add (hm_get_or (reserved_by_account inner) account rt_default) cost)\<rparr>)"

definition add_reservations :: "pool_inner \<Rightarrow> signed_transaction \<Rightarrow> pool_inner" where
  "add_reservations inner tx = foldl add_reservation inner (reservation_costs tx)"

definition remove_reservation :: "pool_inner \<Rightarrow> address \<times> u256 \<Rightarrow> pool_inner" where
  "remove_reservation inner ac =
     (case ac of (account, cost) \<Rightarrow>
        if cost = 0 then inner
        else case hm_get (reserved_by_account inner) account of
          None \<Rightarrow> inner
        | Some amount \<Rightarrow>
            let amount = rt_subtract amount cost;
                reserved = hm_insert (reserved_by_account inner) account amount
            in inner\<lparr>reserved_by_account :=
                 (if rt_is_zero amount then hm_remove reserved account else reserved)\<rparr>)"

definition remove_reservations :: "pool_inner \<Rightarrow> signed_transaction \<Rightarrow> pool_inner" where
  "remove_reservations inner tx = foldl remove_reservation inner (reservation_costs tx)"

definition reserved_total_excluding ::
    "pool_inner \<Rightarrow> address \<Rightarrow> shell_hash list \<Rightarrow> reservation_total" where
  "reserved_total_excluding inner account excluded =
     foldl (\<lambda>amount entry. rt_subtract amount (reservation_cost_for (pe_tx entry) account))
       (hm_get_or (reserved_by_account inner) account rt_default)
       (List.map_filter (hm_get (by_hash inner)) excluded)"

fun ensure_balances ::
    "pool_inner \<Rightarrow> chain_view \<Rightarrow> shell_hash list \<Rightarrow> (address \<times> u256) list \<Rightarrow> mempool_error + unit" where
  "ensure_balances inner v excluded [] = Inr ()"
| "ensure_balances inner v excluded ((account, incoming) # costs) =
     (if incoming = 0 then ensure_balances inner v excluded costs
      else
        let needed_total = rt_add (reserved_total_excluding inner account excluded) incoming;
            needed = rt_saturating_u256 needed_total
        in bind_map MpStorage (get_balance v account) (\<lambda>have.
             if 0 < rt_overflow_units needed_total \<or> have < needed
             then Inl (MpInsufficientBalance needed have)
             else ensure_balances inner v excluded costs))"

definition ensure_pending_balance_available ::
    "pool_inner \<Rightarrow> signed_transaction \<Rightarrow> chain_view \<Rightarrow> shell_hash list \<Rightarrow> mempool_error + unit" where
  "ensure_pending_balance_available inner tx v excluded =
     ensure_balances inner v excluded (reservation_costs tx)"

section \<open>Removal\<close>

definition remove_entry :: "shell_hash \<Rightarrow> pool_inner \<Rightarrow> bool \<times> pool_inner" where
  "remove_entry hash inner =
     (case hm_get (by_hash inner) hash of
        None \<Rightarrow> (False, inner)
      | Some entry \<Rightarrow>
          let inner = inner\<lparr>by_hash := hm_remove (by_hash inner) hash\<rparr>;
              inner = inner\<lparr>total_bytes := total_bytes inner - pe_serialized_size entry\<rparr>;
              inner = remove_reservations inner (pe_tx entry);
              sender = st_from (pe_tx entry);
              nonce = tx_nonce (st_tx (pe_tx entry));
              inner = inner\<lparr>by_priority := hm_remove (by_priority inner) (pe_priority_key entry)\<rparr>
          in (True,
              case hm_get (by_sender inner) sender of
                None \<Rightarrow> inner
              | Some sender_q \<Rightarrow>
                  let sender_q = hm_remove sender_q nonce
                  in inner\<lparr>by_sender :=
                       (if hm_len sender_q = 0 then hm_remove (by_sender inner) sender
                        else hm_insert (by_sender inner) sender sender_q)\<rparr>))"

definition entry_and_descendant_hashes :: "pool_inner \<Rightarrow> shell_hash \<Rightarrow> shell_hash list" where
  "entry_and_descendant_hashes inner hash =
     (case hm_get (by_hash inner) hash of
        None \<Rightarrow> []
      | Some entry \<Rightarrow>
          (case hm_get (by_sender inner) (st_from (pe_tx entry)) of
             Some queue \<Rightarrow> map snd (bt_range_from queue (tx_nonce (st_tx (pe_tx entry))))
           | None \<Rightarrow> [hash]))"

text \<open>\<open>for hash in hashes\<close>, with the number of the entries that were there.\<close>

fun remove_entries :: "shell_hash list \<Rightarrow> pool_inner \<Rightarrow> usize \<times> pool_inner" where
  "remove_entries [] inner = (0, inner)"
| "remove_entries (hash # hashes) inner =
     (case remove_entry hash inner of
        (found, inner) \<Rightarrow>
          (case remove_entries hashes inner of
             (n, inner) \<Rightarrow> ((if found then 1 else 0) + n, inner)))"

definition remove_entry_and_descendants :: "shell_hash \<Rightarrow> pool_inner \<Rightarrow> usize \<times> pool_inner" where
  "remove_entry_and_descendants hash inner =
     remove_entries (entry_and_descendant_hashes inner hash) inner"

text \<open>\<open>if inner.by_hash.is_empty() { inner.seq = 0 }\<close>.\<close>

definition reset_seq :: "pool_inner \<Rightarrow> pool_inner" where
  "reset_seq inner = (if hm_len (by_hash inner) = 0 then inner\<lparr>pool_seq := 0\<rparr> else inner)"

definition pool_remove :: "shell_hash \<Rightarrow> pool_inner \<Rightarrow> bool \<times> pool_inner" where
  "pool_remove hash inner = (case remove_entry hash inner of (b, inner) \<Rightarrow> (b, reset_seq inner))"

definition remove_with_descendants :: "shell_hash \<Rightarrow> pool_inner \<Rightarrow> usize \<times> pool_inner" where
  "remove_with_descendants hash inner =
     (case remove_entry_and_descendants hash inner of (n, inner) \<Rightarrow> (n, reset_seq inner))"

definition remove_batch :: "shell_hash list \<Rightarrow> pool_inner \<Rightarrow> pool_inner" where
  "remove_batch hashes inner = reset_seq (snd (remove_entries hashes inner))"

definition pool_clear :: "pool_inner \<Rightarrow> pool_inner" where
  "pool_clear inner =
     inner\<lparr>by_hash := hm_new, by_sender := hm_new, by_priority := hm_new, pool_seq := 0,
           total_bytes := 0, reserved_by_account := hm_new\<rparr>"

section \<open>Pruning\<close>

text \<open>The read phase: the canonical nonces of the senders; a sender that cannot be read is skipped.\<close>

definition canonical_nonces :: "chain_view \<Rightarrow> address list \<Rightarrow> (address \<times> u64) list" where
  "canonical_nonces v senders =
     List.map_filter (\<lambda>sender. case get_nonce v sender of Inr n \<Rightarrow> Some (sender, n) | Inl _ \<Rightarrow> None) senders"

definition prune_stale_nonces :: "(address \<times> u64) list \<Rightarrow> pool_inner \<Rightarrow> usize \<times> pool_inner" where
  "prune_stale_nonces nonces inner =
     (let stale_hashes = concat (map (\<lambda>(sender, canonical_nonce).
            case hm_get (by_sender inner) sender of
              None \<Rightarrow> []
            | Some queue \<Rightarrow> map snd (bt_range_to queue canonical_nonce)) nonces)
      in (length stale_hashes, reset_seq (snd (remove_entries stale_hashes inner))))"

definition prune_nonce_too_low :: "chain_view \<Rightarrow> pool_inner \<Rightarrow> usize \<times> pool_inner" where
  "prune_nonce_too_low v inner =
     prune_stale_nonces (canonical_nonces v (hm_keys (by_sender inner))) inner"

definition canonical_roots :: "chain_view \<Rightarrow> address list \<Rightarrow> (address, shell_hash) hashmap" where
  "canonical_roots v senders =
     hm_from_list (List.map_filter (\<lambda>sender.
       case view_account v sender of
         Inr (Some account) \<Rightarrow>
           if acc_validation_code_hash account = None \<and> acc_pq_pubkey_hash account \<noteq> hash_zero
           then Some (sender, acc_pq_pubkey_hash account) else None
       | _ \<Rightarrow> None) senders)"

fun remove_each_with_descendants :: "shell_hash list \<Rightarrow> pool_inner \<Rightarrow> usize \<times> pool_inner" where
  "remove_each_with_descendants [] inner = (0, inner)"
| "remove_each_with_descendants (hash # hashes) inner =
     (case remove_entry_and_descendants hash inner of
        (n, inner) \<Rightarrow>
          (case remove_each_with_descendants hashes inner of (k, inner) \<Rightarrow> (n + k, inner)))"

definition prune_replaced_roots :: "(address, shell_hash) hashmap \<Rightarrow> pool_inner \<Rightarrow> usize \<times> pool_inner" where
  "prune_replaced_roots roots inner =
     (let stale = List.map_filter (\<lambda>(hash, entry).
            case pe_validated_root_hash entry of
              None \<Rightarrow> None
            | Some validated \<Rightarrow>
                (case hm_get roots (st_from (pe_tx entry)) of
                   None \<Rightarrow> None
                 | Some canonical \<Rightarrow> if canonical \<noteq> validated then Some hash else None))
            (hm_entries (by_hash inner))
      in (case remove_each_with_descendants stale inner of (n, inner) \<Rightarrow> (n, reset_seq inner)))"

definition prune_rotated_roots :: "chain_view \<Rightarrow> pool_inner \<Rightarrow> usize \<times> pool_inner" where
  "prune_rotated_roots v inner =
     prune_replaced_roots (canonical_roots v (hm_keys (by_sender inner))) inner"

section \<open>Stateless validation\<close>

record pool_reads =
  rd_view :: chain_view
  rd_head_hash :: "storage_error + shell_hash option"
  rd_header :: "shell_hash \<Rightarrow> storage_error + block_header option"
  rd_json_size :: "signed_transaction \<Rightarrow> string + usize"

definition map_aa_validation_error :: "signed_transaction \<Rightarrow> aa_error \<Rightarrow> mempool_error" where
  "map_aa_validation_error tx err =
     (case err of
        AaPubkeyNotFound \<Rightarrow> PubkeyRequired (st_from tx)
      | AaAddressMismatch from derived \<Rightarrow> MpAddressMismatch from derived
      | AaSignatureInvalid \<Rightarrow> MpInvalidSignature ''PQ signature verification failed''
      | AaCrypto e \<Rightarrow> MpCrypto e
      | AaStorage e \<Rightarrow> MpStorage e
      | other \<Rightarrow> MpInvalidTransaction (RejectedAa other))"

text \<open>The checks against the head of the chain; the result is its base fee.\<close>

definition check_against_head :: "transaction \<Rightarrow> block_header \<Rightarrow> mempool_error + u64" where
  "check_against_head tx head =
     (if hdr_gas_limit head < tx_gas_limit tx
      then Inl (MpInvalidTransaction (Message ''transaction gas limit exceeds block gas limit''))
      else if tx_max_fee_per_gas tx < hdr_base_fee_per_gas head
      then Inl (MpInvalidTransaction (Message ''max fee per gas below current base fee''))
      else if tx_type tx = 3
        \<and> (case tx_max_fee_per_blob_gas tx of
             None \<Rightarrow> False
           | Some max_fee_per_blob_gas \<Rightarrow>
               max_fee_per_blob_gas
               < calc_blob_gas_price
                   (calc_excess_blob_gas (hdr_excess_blob_gas head) (hdr_blob_gas_used head)))
      then Inl (MpInvalidTransaction (Message ''max fee per blob gas below current blob base fee''))
      else Inr (hdr_base_fee_per_gas head))"

definition head_base_fee :: "pool_reads \<Rightarrow> transaction \<Rightarrow> mempool_error + u64" where
  "head_base_fee rd tx =
     bind_map MpStorage (rd_head_hash rd) (\<lambda>head_hash.
       case head_hash of
         None \<Rightarrow> Inr 0
       | Some hash \<Rightarrow>
           bind_map MpStorage (rd_header rd hash) (\<lambda>header.
             case header of
               None \<Rightarrow> Inl (MpInvalidTransaction (Message ''canonical head header is missing''))
             | Some head \<Rightarrow> check_against_head tx head))"

definition pool_intrinsic_gas :: "signed_transaction \<Rightarrow> u64 \<Rightarrow> mempool_error + unit" where
  "pool_intrinsic_gas s aa_extra_gas =
     (let tx = st_tx s in
      case checked_add
             (compute_intrinsic_gas (tx_data tx) (is_contract_creation tx \<and> \<not> is_aa_bundle s)
                (tx_access_list tx)) aa_extra_gas of
        None \<Rightarrow> Inl (MpGasTooLow (tx_gas_limit tx) u_max)
      | Some intrinsic \<Rightarrow>
          if tx_gas_limit tx < intrinsic then Inl (MpGasTooLow (tx_gas_limit tx) intrinsic)
          else Inr ())"

text \<open>The key hash that pruning compares with: none for an account with its own validator.\<close>

definition validated_root ::
    "crypto_env \<Rightarrow> chain_view \<Rightarrow> signed_transaction \<Rightarrow> aa_outcome \<Rightarrow> mempool_error + shell_hash option" where
  "validated_root ce v tx outcome =
     bind_map MpStorage (view_account v (st_from tx)) (\<lambda>account.
       let uses_default_validator =
             (case account of None \<Rightarrow> True | Some a \<Rightarrow> acc_validation_code_hash a = None);
           account_key_hash =
             (case account of
                None \<Rightarrow> None
              | Some a \<Rightarrow> if acc_pq_pubkey_hash a \<noteq> hash_zero then Some (acc_pq_pubkey_hash a) else None)
       in Inr (if uses_default_validator
               then Some (case account_key_hash of
                            Some h \<Rightarrow> h | None \<Rightarrow> ce_blake3 ce (out_pubkey outcome))
               else None))"

definition validate_stateless ::
    "mempool_config \<Rightarrow> crypto_env \<Rightarrow> evm_env \<Rightarrow> governance_selectors \<Rightarrow> pool_reads
       \<Rightarrow> signed_transaction \<Rightarrow> mempool_error + usize \<times> u64 \<times> shell_hash option" where
  "validate_stateless cfg ce evm sel rd s =
     (let tx = st_tx s in
      if tx_chain_id tx \<noteq> mc_chain_id cfg
      then Inl (MpChainIdMismatch (mc_chain_id cfg) (tx_chain_id tx))
      else
      bind_map (MpInvalidTransaction \<circ> RejectedTx) (validate_transaction_type (tx_type tx)) (\<lambda>_.
      bind_ok (head_base_fee rd tx) (\<lambda>base_fee_per_gas.
      if tx_max_fee_per_gas tx < tx_max_priority_fee_per_gas tx
      then Inl (MpInvalidTransaction (Message ''max priority fee per gas exceeds max fee per gas''))
      else if tx_max_fee_per_gas tx < min_gas_price cfg
      then Inl (GasPriceTooLow (tx_max_fee_per_gas tx) (min_gas_price cfg))
      else
      bind_map (MpInvalidTransaction \<circ> Message) (validate_access_list tx) (\<lambda>_.
      bind_map (MpInvalidTransaction \<circ> Message) (validate_blob_tx tx) (\<lambda>_.
      bind_map (MpInvalidTransaction \<circ> RejectedTx) (validate_aa_bundle_structure s) (\<lambda>aa_extra_gas.
      bind_ok (pool_intrinsic_gas s aa_extra_gas) (\<lambda>_.
      bind_map (MpInvalidTransaction \<circ> Message) (rd_json_size rd s) (\<lambda>tx_size.
      if MAX_TX_SIZE < tx_size
      then Inl (MpInvalidTransaction (Message ''transaction too large''))
      else
      bind_map (map_aa_validation_error s)
        (validate_aa_tx_inner ce evm sel (rd_view rd) s None) (\<lambda>outcome.
      bind_ok (validated_root ce (rd_view rd) s outcome) (\<lambda>validated_root_hash.
      Inr (tx_size, base_fee_per_gas, validated_root_hash)))))))))))"

text \<open>The balance floor: what the transaction alone costs its sender and its paymaster.\<close>

definition check_balance_floor :: "chain_view \<Rightarrow> signed_transaction \<Rightarrow> mempool_error + unit" where
  "check_balance_floor v tx =
     (let sender = st_from tx;
          gas_cost = pool_max_gas_cost tx;
          payer = gas_payer tx
      in bind_map MpStorage (get_balance v payer) (\<lambda>payer_gas_balance.
         if payer_gas_balance < gas_cost
         then Inl (MpInsufficientBalance gas_cost payer_gas_balance)
         else bind_map MpStorage (get_balance v sender) (\<lambda>sender_balance.
           if payer \<noteq> sender then
             (if sender_balance < tx_value (st_tx tx)
              then Inl (MpInsufficientBalance (tx_value (st_tx tx)) sender_balance)
              else Inr ())
           else case checked_add gas_cost (tx_value (st_tx tx)) of
             None \<Rightarrow> Inl (MpInsufficientBalance u_max sender_balance)
           | Some needed \<Rightarrow>
               if sender_balance < needed then Inl (MpInsufficientBalance needed sender_balance)
               else Inr ())))"

section \<open>Replacement and capacity\<close>

fun next_nonce_from :: "u64 \<Rightarrow> u64 list \<Rightarrow> u64" where
  "next_nonce_from expected [] = expected"
| "next_nonce_from expected (queued_nonce # nonces) =
     (if queued_nonce < expected then next_nonce_from expected nonces
      else if queued_nonce = expected then next_nonce_from (sat_add expected 1) nonces
      else expected)"

definition next_expected_nonce :: "(u64, shell_hash) btreemap option \<Rightarrow> u64 \<Rightarrow> u64" where
  "next_expected_nonce sender_q chain_nonce =
     (case sender_q of None \<Rightarrow> chain_nonce | Some q \<Rightarrow> next_nonce_from chain_nonce (bt_keys q))"

definition replacement_fee_required :: "u64 \<Rightarrow> u64 \<Rightarrow> u64 option" where
  "replacement_fee_required old_fee bump_pct =
     (if bump_pct = 0 then Some old_fee
      else
        Option.bind (checked_add (ucast bump_pct :: u128) 100) (\<lambda>multiplier.
        Option.bind (checked_mul (ucast old_fee) multiplier) (\<lambda>numerator.
        Option.bind (checked_add numerator 99) (\<lambda>n.
        let rounded = n div 100 in
        Option.bind (checked_add (ucast old_fee) 1) (\<lambda>minimum_bump.
        let required = max rounded minimum_bump
        in if required \<le> ucast (u_max :: u64) then Some (ucast required) else None)))))"

fun check_fee_pairs :: "u64 \<Rightarrow> (u64 \<times> u64) list \<Rightarrow> mempool_error + unit" where
  "check_fee_pairs bump [] = Inr ()"
| "check_fee_pairs bump ((old_fee, new_fee) # pairs) =
     (case replacement_fee_required old_fee bump of
        None \<Rightarrow> Inl (ReplacementFeeTooLow new_fee u_max)
      | Some required \<Rightarrow>
          if new_fee < required then Inl (ReplacementFeeTooLow new_fee required)
          else check_fee_pairs bump pairs)"

text \<open>The same nonce again, the next nonce, or an error.\<close>

definition check_nonce_slot ::
    "mempool_config \<Rightarrow> pool_inner \<Rightarrow> transaction \<Rightarrow> shell_hash option \<Rightarrow> u64 \<Rightarrow> mempool_error + unit" where
  "check_nonce_slot cfg inner tx existing_hash expected_next_nonce =
     (case existing_hash of
        Some hash \<Rightarrow>
          (case (case hm_get (by_hash inner) hash of
                   Some e \<Rightarrow> (tx_max_priority_fee_per_gas (st_tx (pe_tx e)),
                              tx_max_fee_per_gas (st_tx (pe_tx e)),
                              tx_max_fee_per_blob_gas (st_tx (pe_tx e)))
                 | None \<Rightarrow> (0, 0, None)) of
             (old_priority_fee, old_max_fee, old_blob_fee) \<Rightarrow>
               check_fee_pairs (replacement_fee_bump_pct cfg)
                 ([(old_priority_fee, tx_max_priority_fee_per_gas tx),
                   (old_max_fee, tx_max_fee_per_gas tx)]
                  @ (case old_blob_fee of
                       None \<Rightarrow> []
                     | Some old_fee \<Rightarrow> [(old_fee, blob_fee_or_zero tx)])))
      | None \<Rightarrow>
          if expected_next_nonce < tx_nonce tx then Inl (NonceGap expected_next_nonce (tx_nonce tx))
          else if tx_nonce tx < expected_next_nonce
          then Inl (NonceTooLow (tx_nonce tx) expected_next_nonce)
          else Inr ())"

definition entry_tip :: "u64 \<Rightarrow> pool_entry \<Rightarrow> u64" where
  "entry_tip base_fee e =
     miner_tip (tx_max_fee_per_gas (st_tx (pe_tx e))) (tx_max_priority_fee_per_gas (st_tx (pe_tx e))) base_fee"

definition eviction_choices ::
    "pool_inner \<Rightarrow> shell_hash list \<Rightarrow> u64 \<Rightarrow> address \<Rightarrow> u64 \<Rightarrow> (u64 \<times> u64 \<times> shell_hash) list" where
  "eviction_choices inner evicted base_fee incoming_sender incoming_nonce =
     List.map_filter (\<lambda>(key, hash).
       if hash \<in> set evicted then None
       else case hm_get (by_hash inner) hash of
         None \<Rightarrow> None
       | Some entry \<Rightarrow>
           if st_from (pe_tx entry) = incoming_sender \<and> tx_nonce (st_tx (pe_tx entry)) \<le> incoming_nonce
           then None
           else Some (entry_tip base_fee entry, pk_seq key, hash))
       (bt_entries (by_priority inner))"

text \<open>\<open>min_by\<close>: the smallest tip, among equals the latest arrival; the first of equal elements.\<close>

abbreviation (input) evict_before :: "u64 \<times> u64 \<times> shell_hash \<Rightarrow> u64 \<times> u64 \<times> shell_hash \<Rightarrow> bool" where
  "evict_before a b \<equiv> fst a < fst b \<or> fst a = fst b \<and> fst (snd b) < fst (snd a)"

fun min_choice :: "(u64 \<times> u64 \<times> shell_hash) list \<Rightarrow> (u64 \<times> u64 \<times> shell_hash) option" where
  "min_choice [] = None"
| "min_choice (x # xs) = Some (foldl (\<lambda>best y. if evict_before y best then y else best) x xs)"

definition eviction_candidate ::
    "pool_inner \<Rightarrow> shell_hash list \<Rightarrow> u64 \<Rightarrow> u64 \<Rightarrow> address \<Rightarrow> u64 \<Rightarrow> shell_hash option" where
  "eviction_candidate inner evicted incoming_tip base_fee incoming_sender incoming_nonce =
     (case min_choice (eviction_choices inner evicted base_fee incoming_sender incoming_nonce) of
        None \<Rightarrow> None
      | Some (effective_tip, _, hash) \<Rightarrow> if effective_tip < incoming_tip then Some hash else None)"

text \<open>\<open>if evicted.insert(hash)\<close>: add a hash and the size of its entry once.\<close>

definition evict_one :: "pool_inner \<Rightarrow> shell_hash list \<times> usize \<Rightarrow> shell_hash \<Rightarrow> shell_hash list \<times> usize" where
  "evict_one inner acc hash =
     (case acc of (evicted, bytes) \<Rightarrow>
        if hash \<in> set evicted then (evicted, bytes)
        else (evicted @ [hash],
              case hm_get (by_hash inner) hash of
                Some entry \<Rightarrow> usize_sat_add bytes (pe_serialized_size entry)
              | None \<Rightarrow> bytes))"

partial_function (option) eviction_loop ::
    "mempool_config \<Rightarrow> pool_inner \<Rightarrow> u64 \<Rightarrow> u64 \<Rightarrow> address \<Rightarrow> u64 \<Rightarrow> usize
       \<Rightarrow> shell_hash list \<times> usize \<Rightarrow> (mempool_error + shell_hash list \<times> usize) option" where
  "eviction_loop cfg inner tip base_fee sender nonce tx_size acc =
     (let projected_count = hm_len (by_hash inner) - length (fst acc) + 1;
          projected_bytes = usize_checked_add (total_bytes inner - snd acc) tx_size;
          count_fits = projected_count \<le> max_pool_size cfg;
          bytes_fit = (case projected_bytes of None \<Rightarrow> False | Some b \<Rightarrow> b \<le> max_pool_bytes cfg)
      in if count_fits \<and> bytes_fit then Some (Inr (fst acc, the projected_bytes))
         else case eviction_candidate inner (fst acc) tip base_fee sender nonce of
           None \<Rightarrow>
             Some (Inl (if count_fits then PoolBytesFull (max_pool_bytes cfg)
                        else PoolFull (max_pool_size cfg)))
         | Some candidate \<Rightarrow>
             eviction_loop cfg inner tip base_fee sender nonce tx_size
               (foldl (evict_one inner) acc (entry_and_descendant_hashes inner candidate)))"

definition capacity_evictions ::
    "mempool_config \<Rightarrow> pool_inner \<Rightarrow> shell_hash list \<Rightarrow> u64 \<Rightarrow> u64 \<Rightarrow> address \<Rightarrow> u64 \<Rightarrow> usize
       \<Rightarrow> (mempool_error + shell_hash list \<times> usize) option" where
  "capacity_evictions cfg inner evicted tip base_fee sender nonce tx_size =
     (let evicted_bytes =
            foldl (\<lambda>bytes entry. usize_sat_add bytes (pe_serialized_size entry)) 0
              (List.map_filter (hm_get (by_hash inner)) evicted)
      in eviction_loop cfg inner tip base_fee sender nonce tx_size (evicted, evicted_bytes))"

section \<open>Admission\<close>

definition queue_of :: "pool_inner \<Rightarrow> address \<Rightarrow> (u64, shell_hash) btreemap" where
  "queue_of inner sender = hm_get_or (by_sender inner) sender hm_new"

text \<open>The last part of \<open>insert\<close>, when nothing can fail any more.\<close>

definition pool_store ::
    "signed_transaction \<Rightarrow> shell_hash \<Rightarrow> u64 \<Rightarrow> usize \<Rightarrow> shell_hash option \<Rightarrow> usize
       \<Rightarrow> pool_inner \<Rightarrow> pool_inner" where
  "pool_store tx hash next_seq tx_size validated_root_hash projected_bytes inner =
     (let seq = pool_seq inner;
          inner = inner\<lparr>pool_seq := next_seq\<rparr>;
          key = PriorityKey (- uint (tx_max_priority_fee_per_gas (st_tx tx))) seq;
          inner = inner\<lparr>by_priority := hm_insert (by_priority inner) key hash\<rparr>;
          inner = inner\<lparr>by_sender :=
            hm_insert (by_sender inner) (st_from tx)
              (hm_insert (queue_of inner (st_from tx)) (tx_nonce (st_tx tx)) hash)\<rparr>;
          inner = add_reservations inner tx;
          inner = inner\<lparr>by_hash :=
            hm_insert (by_hash inner) hash
              \<lparr>pe_tx = tx, pe_priority_key = key, pe_serialized_size = tx_size,
               pe_validated_root_hash = validated_root_hash\<rparr>\<rparr>;
          inner = inner\<lparr>total_bytes := projected_bytes\<rparr>
      in inner\<lparr>accepted_total := sat_add (accepted_total inner) 1\<rparr>)"

text \<open>Under the write lock: duplicates, the nonce, the queue, capacity, balances. The outer
  \<open>None\<close> is an eviction loop that does not end.\<close>

definition insert_locked ::
    "mempool_config \<Rightarrow> chain_view \<Rightarrow> signed_transaction \<Rightarrow> shell_hash \<Rightarrow> u64 \<Rightarrow> usize \<Rightarrow> u64
       \<Rightarrow> shell_hash option \<Rightarrow> pool_inner \<Rightarrow> (mempool_error + shell_hash \<times> pool_inner) option" where
  "insert_locked cfg v s hash chain_nonce tx_size base_fee_per_gas validated_root_hash inner =
     (let tx = st_tx s;
          sender = st_from s;
          nonce = tx_nonce tx;
          existing_hash = hm_get (queue_of inner sender) nonce;
          sender_count = hm_len (queue_of inner sender)
      in if hm_contains (by_hash inner) hash then Some (Inl (MpDuplicate hash))
         else if nonce < chain_nonce then Some (Inl (NonceTooLow nonce chain_nonce))
         else case check_nonce_slot cfg inner tx existing_hash
                     (next_expected_nonce (hm_get (by_sender inner) sender) chain_nonce) of
           Inl e \<Rightarrow> Some (Inl e)
         | Inr _ \<Rightarrow>
             if existing_hash = None \<and> max_per_sender cfg \<le> sender_count
             then Some (Inl (SenderQueueFull sender sender_count))
             else case capacity_evictions cfg inner
                         (case existing_hash of None \<Rightarrow> [] | Some h \<Rightarrow> [h])
                         (miner_tip (tx_max_fee_per_gas tx) (tx_max_priority_fee_per_gas tx) base_fee_per_gas)
                         base_fee_per_gas sender nonce tx_size of
               None \<Rightarrow> None
             | Some (Inl e) \<Rightarrow> Some (Inl e)
             | Some (Inr (evicted_hashes, projected_bytes)) \<Rightarrow>
                 Some (bind_ok (ensure_pending_balance_available inner s v evicted_hashes) (\<lambda>_.
                   case checked_add (pool_seq inner) 1 of
                     None \<Rightarrow> Inl (MpInvalidTransaction (Message ''mempool arrival sequence exhausted''))
                   | Some next_seq \<Rightarrow>
                       Inr (hash, pool_store s hash next_seq tx_size validated_root_hash projected_bytes
                                    (snd (remove_entries evicted_hashes inner))))))"

definition pool_insert ::
    "mempool_config \<Rightarrow> crypto_env \<Rightarrow> evm_env \<Rightarrow> governance_selectors \<Rightarrow> pool_reads
       \<Rightarrow> signed_transaction \<Rightarrow> pool_inner \<Rightarrow> (mempool_error + shell_hash \<times> pool_inner) option" where
  "pool_insert cfg ce evm sel rd s inner =
     (case bind_ok (validate_stateless cfg ce evm sel rd s) (\<lambda>checked.
           bind_ok (check_balance_floor (rd_view rd) s) (\<lambda>_.
           if tx_nonce (st_tx s) = u_max
           then Inl (MpInvalidTransaction (Message ''nonce cannot advance past u64::MAX''))
           else bind_map MpStorage (get_nonce (rd_view rd) (st_from s)) (\<lambda>chain_nonce.
             Inr (checked, chain_nonce)))) of
        Inl e \<Rightarrow> Some (Inl e)
      | Inr ((tx_size, base_fee_per_gas, validated_root_hash), chain_nonce) \<Rightarrow>
          insert_locked cfg (rd_view rd) s (signed_hash (ce_blake3 ce) (ce_rlp ce) s) chain_nonce
            tx_size base_fee_per_gas validated_root_hash inner)"

section \<open>Views\<close>

definition pending :: "usize \<Rightarrow> pool_inner \<Rightarrow> signed_transaction list" where
  "pending limit inner =
     take limit (map pe_tx (List.map_filter (hm_get (by_hash inner)) (bt_values (by_priority inner))))"

definition sender_txs :: "address \<Rightarrow> pool_inner \<Rightarrow> shell_hash list" where
  "sender_txs sender inner =
     (case hm_get (by_sender inner) sender of None \<Rightarrow> [] | Some q \<Rightarrow> bt_values q)"

end
