(* ===== verification/Tx_Pool_Invariant.thy ===== *)
theory Tx_Pool_Invariant
  imports Tx_Pool
begin

text \<open>
  The invariant of the transaction pool: the three indexes name the same transactions, the byte
  count and the reservations are the exact sums over them, and the configured limits hold. Every
  operation preserves it; under it the eviction loop ends, and what it evicts is what the pool
  loses.
\<close>

section \<open>Reserved amounts\<close>

text \<open>The amount a total stands for, carries included.\<close>

definition rt_value :: "reservation_total \<Rightarrow> nat" where
  "rt_value t = unat (rt_low t) + unat (rt_overflow_units t) * 2 ^ 256"

lemma rt_value_default [simp]: "rt_value rt_default = 0"
  by (simp add: rt_value_def rt_default_def)

lemma rt_is_zero_iff: "rt_is_zero t \<longleftrightarrow> rt_value t = 0"
  by (auto simp: rt_value_def unat_eq_zero)

lemma unat_add_wraps:
  fixes a b :: "'a::len word"
  assumes "2 ^ LENGTH('a) \<le> unat a + unat b"
  shows "unat (a + b) = unat a + unat b - 2 ^ LENGTH('a)"
proof -
  have "unat a + unat b - 2 ^ LENGTH('a) < 2 ^ LENGTH('a)"
    using unat_bound [of a] unat_bound [of b] by linarith
  then show ?thesis using assms by (simp add: unat_word_ariths le_mod_geq)
qed

lemma word_add_carry: "a + b < b \<longleftrightarrow> 2 ^ LENGTH('a) \<le> unat a + unat b" for a b :: "'a::len word"
proof (cases "unat a + unat b < 2 ^ LENGTH('a)")
  case True
  then show ?thesis by (simp add: word_less_nat_alt unat_plus_fits)
next
  case False
  then have "unat (a + b) = unat a + unat b - 2 ^ LENGTH('a)" by (simp add: unat_add_wraps)
  then show ?thesis unfolding word_less_nat_alt using False unat_bound [of a] by linarith
qed

lemma rt_value_add:
  assumes "rt_overflow_units t \<noteq> u_max"
  shows "rt_value (rt_add t c) = rt_value t + unat c"
proof -
  have "unat (rt_overflow_units t) \<noteq> 18446744073709551615"
    using assms by (simp add: word_unat_eq_iff unat_u_max)
  moreover have "unat (rt_overflow_units t) \<le> 18446744073709551615" by (rule unat_u64_le)
  ultimately have fits: "unat (sat_add (rt_overflow_units t) 1) = Suc (unat (rt_overflow_units t))"
    by (simp add: unat_sat_add)
  show ?thesis
  proof (cases "2 ^ 256 \<le> unat (rt_low t) + unat c")
    case True
    then have "unat (rt_low t + c) = unat (rt_low t) + unat c - 2 ^ 256" using unat_add_wraps [of "rt_low t" c] by simp
    then show ?thesis using True fits by (simp add: rt_value_def rt_add_def Let_def word_add_carry)
  next
    case False
    then show ?thesis
      by (simp add: rt_value_def rt_add_def Let_def word_add_carry unat_plus_fits)
  qed
qed

lemma rt_value_subtract:
  assumes "unat c \<le> rt_value t"
  shows "rt_value (rt_subtract t c) = rt_value t - unat c"
proof (cases "rt_low t < c")
  case True
  then have lt: "unat (rt_low t) < unat c" by (simp add: word_less_nat_alt)
  then have "rt_overflow_units t \<noteq> 0" using assms by (auto simp: rt_value_def)
  then have pos: "0 < unat (rt_overflow_units t)" by (simp add: unat_gt_0)
  have "unat (rt_low t - c) = unat (rt_low t) + 2 ^ 256 - unat c"
    using lt unat_bound [of c] by (simp add: unat_sub_if')
  moreover have "unat (sat_sub (rt_overflow_units t) 1) = unat (rt_overflow_units t) - 1"
    by (simp add: unat_sat_sub)
  moreover have "(unat (rt_overflow_units t) - 1) * 2 ^ 256 + 2 ^ 256 = unat (rt_overflow_units t) * 2 ^ 256"
    using pos by (metis Suc_diff_1 add.commute mult_Suc)
  moreover have "unat c < 2 ^ 256" using unat_bound [of c] by simp
  ultimately show ?thesis
    using True \<open>rt_overflow_units t \<noteq> 0\<close> lt by (simp add: rt_value_def rt_subtract_def Let_def)
next
  case False
  then have "unat (rt_low t - c) = unat (rt_low t) - unat c" "unat c \<le> unat (rt_low t)"
    by (simp_all add: unat_sub not_less word_le_nat_alt)
  then show ?thesis using False by (simp add: rt_value_def rt_subtract_def Let_def)
qed

lemma rt_overflow_not_max: "rt_value t < (2 ^ 64 - 1) * 2 ^ 256 \<Longrightarrow> rt_overflow_units t \<noteq> u_max"
  by (auto simp: rt_value_def unat_u_max)

lemma rt_no_overflow: "rt_overflow_units t = 0 \<longleftrightarrow> rt_value t < 2 ^ 256"
proof -
  have "unat (rt_low t) < 2 ^ 256" using unat_bound [of "rt_low t"] by simp
  moreover have "2 ^ 256 \<le> unat (rt_overflow_units t) * 2 ^ 256" if "rt_overflow_units t \<noteq> 0"
    using that by (simp add: unat_gt_0 Suc_le_eq)
  ultimately show ?thesis by (force simp: rt_value_def)
qed

section \<open>Costs of a transaction\<close>

lemma add_or_max_zero [simp]: "add_or_max 0 c = c" "add_or_max c 0 = c"
  by (simp_all add: add_or_max_def checked_add_def)

lemma cost_for_sender_pays:
  "gas_payer tx = st_from tx \<Longrightarrow>
     reservation_cost_for tx a =
       (if a = st_from tx then add_or_max (pool_max_gas_cost tx) (tx_value (st_tx tx)) else 0)"
  by (simp add: reservation_cost_for_def reservation_costs_def)

lemma cost_for_sponsored:
  "gas_payer tx \<noteq> st_from tx \<Longrightarrow>
     reservation_cost_for tx a =
       (if a = st_from tx then tx_value (st_tx tx) else if a = gas_payer tx then pool_max_gas_cost tx else 0)"
  by (simp add: reservation_cost_for_def reservation_costs_def)

definition reserved :: "pool_inner \<Rightarrow> address \<Rightarrow> nat" where
  "reserved p a = rt_value (hm_get_or (reserved_by_account p) a rt_default)"

definition reserved_nonzero :: "pool_inner \<Rightarrow> bool" where
  "reserved_nonzero p \<longleftrightarrow> (\<forall>a t. hm_get (reserved_by_account p) a = Some t \<longrightarrow> rt_value t \<noteq> 0)"

lemma reservation_frame [simp]:
  "by_hash (add_reservation p ac) = by_hash p" "by_sender (add_reservation p ac) = by_sender p"
  "by_priority (add_reservation p ac) = by_priority p" "pool_seq (add_reservation p ac) = pool_seq p"
  "total_bytes (add_reservation p ac) = total_bytes p"
  "accepted_total (add_reservation p ac) = accepted_total p"
  "by_hash (remove_reservation p ac) = by_hash p" "by_sender (remove_reservation p ac) = by_sender p"
  "by_priority (remove_reservation p ac) = by_priority p" "pool_seq (remove_reservation p ac) = pool_seq p"
  "total_bytes (remove_reservation p ac) = total_bytes p"
  "accepted_total (remove_reservation p ac) = accepted_total p"
  by (simp_all add: add_reservation_def remove_reservation_def Let_def split: prod.split option.split)

lemma reservations_frame [simp]:
  "by_hash (add_reservations p tx) = by_hash p" "by_sender (add_reservations p tx) = by_sender p"
  "by_priority (add_reservations p tx) = by_priority p" "pool_seq (add_reservations p tx) = pool_seq p"
  "total_bytes (add_reservations p tx) = total_bytes p"
  "accepted_total (add_reservations p tx) = accepted_total p"
  "by_hash (remove_reservations p tx) = by_hash p" "by_sender (remove_reservations p tx) = by_sender p"
  "by_priority (remove_reservations p tx) = by_priority p" "pool_seq (remove_reservations p tx) = pool_seq p"
  "total_bytes (remove_reservations p tx) = total_bytes p"
  "accepted_total (remove_reservations p tx) = accepted_total p"
  by (simp_all add: add_reservations_def remove_reservations_def reservation_costs_def)

lemma reserved_frame:
  "reserved_by_account p = reserved_by_account p' \<Longrightarrow> reserved p = reserved p'"
  "reserved_by_account p = reserved_by_account p' \<Longrightarrow> reserved_nonzero p \<longleftrightarrow> reserved_nonzero p'"
  by (simp_all add: reserved_def [abs_def] reserved_nonzero_def)

lemma reserved_remove_one:
  assumes "unat c \<le> reserved p a"
  shows "reserved (remove_reservation p (a, c)) b = (if b = a then reserved p a - unat c else reserved p b)"
    and "reserved_nonzero p \<Longrightarrow> reserved_nonzero (remove_reservation p (a, c))"
proof -
  show "reserved (remove_reservation p (a, c)) b = (if b = a then reserved p a - unat c else reserved p b)"
  proof (cases "hm_get (reserved_by_account p) a")
    case None
    then have "c = 0" using assms by (simp add: reserved_def hm_get_or_def unat_eq_zero)
    then show ?thesis by (simp add: remove_reservation_def)
  next
    case (Some t)
    then have "rt_value (rt_subtract t c) = rt_value t - unat c"
      using assms by (intro rt_value_subtract) (simp add: reserved_def hm_get_or_def)
    then show ?thesis
      using Some by (simp add: remove_reservation_def Let_def reserved_def hm_get_or_def rt_is_zero_iff)
  qed
  show "reserved_nonzero (remove_reservation p (a, c))" if "reserved_nonzero p"
    using that by (auto simp: remove_reservation_def Let_def reserved_nonzero_def rt_is_zero_iff
        split: option.split if_splits)
qed

lemma reserved_add_one:
  assumes "reserved p a < (2 ^ 64 - 1) * 2 ^ 256"
  shows "reserved (add_reservation p (a, c)) b = (if b = a then reserved p a + unat c else reserved p b)"
    and "reserved_nonzero p \<Longrightarrow> reserved_nonzero (add_reservation p (a, c))"
proof -
  let ?t = "hm_get_or (reserved_by_account p) a rt_default"
  have val: "rt_value (rt_add ?t c) = rt_value ?t + unat c"
    using assms by (intro rt_value_add rt_overflow_not_max) (simp add: reserved_def)
  then show "reserved (add_reservation p (a, c)) b = (if b = a then reserved p a + unat c else reserved p b)"
    by (simp add: add_reservation_def reserved_def hm_get_or_def)
  show "reserved_nonzero (add_reservation p (a, c))" if "reserved_nonzero p"
    using that val by (auto simp: add_reservation_def reserved_nonzero_def unat_eq_zero)
qed

lemma reserved_remove:
  assumes "\<And>a. unat (reservation_cost_for tx a) \<le> reserved p a"
  shows "reserved (remove_reservations p tx) b = reserved p b - unat (reservation_cost_for tx b)"
    and "reserved_nonzero p \<Longrightarrow> reserved_nonzero (remove_reservations p tx)"
proof -
  let ?s = "st_from tx"
  have zero: "remove_reservation q (a, 0) = q" for q a by (simp add: remove_reservation_def)
  have "reserved (remove_reservations p tx) b = reserved p b - unat (reservation_cost_for tx b)
    \<and> (reserved_nonzero p \<longrightarrow> reserved_nonzero (remove_reservations p tx))"
  proof (cases "gas_payer tx = ?s")
    case True
    then show ?thesis
      using assms [of ?s] reserved_remove_one [of "reservation_cost_for tx ?s" p ?s]
      by (simp add: remove_reservations_def reservation_costs_def zero cost_for_sender_pays [OF True])
  next
    case False
    let ?p = "remove_reservation p (?s, tx_value (st_tx tx))"
    have 1: "reserved ?p b = (if b = ?s then reserved p ?s - unat (tx_value (st_tx tx)) else reserved p b)" for b
      using assms [of ?s] by (intro reserved_remove_one) (simp add: cost_for_sponsored [OF False])
    have 2: "unat (pool_max_gas_cost tx) \<le> reserved ?p (gas_payer tx)"
      using assms [of "gas_payer tx"] False by (simp add: 1 cost_for_sponsored)
    have "reserved_nonzero p \<Longrightarrow> reserved_nonzero ?p"
      using assms [of ?s] by (intro reserved_remove_one) (simp add: cost_for_sponsored [OF False])
    then show ?thesis
      using reserved_remove_one [OF 2] 1 False
      by (simp add: remove_reservations_def reservation_costs_def cost_for_sponsored)
  qed
  then show "reserved (remove_reservations p tx) b = reserved p b - unat (reservation_cost_for tx b)"
    "reserved_nonzero p \<Longrightarrow> reserved_nonzero (remove_reservations p tx)"
    by simp_all
qed

lemma reserved_add:
  assumes "\<And>a. reserved p a < (2 ^ 64 - 1) * 2 ^ 256"
  shows "reserved (add_reservations p tx) b = reserved p b + unat (reservation_cost_for tx b)"
    and "reserved_nonzero p \<Longrightarrow> reserved_nonzero (add_reservations p tx)"
proof -
  let ?s = "st_from tx"
  have zero: "add_reservation q (a, 0) = q" for q a by (simp add: add_reservation_def)
  have "reserved (add_reservations p tx) b = reserved p b + unat (reservation_cost_for tx b)
    \<and> (reserved_nonzero p \<longrightarrow> reserved_nonzero (add_reservations p tx))"
  proof (cases "gas_payer tx = ?s")
    case True
    then show ?thesis
      using reserved_add_one [OF assms [of ?s], of "reservation_cost_for tx ?s"]
      by (simp add: add_reservations_def reservation_costs_def zero cost_for_sender_pays [OF True])
  next
    case False
    let ?p = "add_reservation p (?s, tx_value (st_tx tx))"
    note 1 = reserved_add_one [OF assms [of ?s], of "tx_value (st_tx tx)"]
    have 2: "reserved ?p (gas_payer tx) < (2 ^ 64 - 1) * 2 ^ 256"
      using assms [of "gas_payer tx"] False by (simp add: 1)
    show ?thesis
      using reserved_add_one [OF 2] 1 False
      by (simp add: add_reservations_def reservation_costs_def cost_for_sponsored)
  qed
  then show "reserved (add_reservations p tx) b = reserved p b + unat (reservation_cost_for tx b)"
    "reserved_nonzero p \<Longrightarrow> reserved_nonzero (add_reservations p tx)"
    by simp_all
qed

section \<open>The invariant\<close>

definition pool_sum :: "pool_inner \<Rightarrow> (pool_entry \<Rightarrow> nat) \<Rightarrow> nat" where
  "pool_sum p f = sum_list (map f (hm_values (by_hash p)))"

abbreviation entry_sender :: "pool_entry \<Rightarrow> address" where
  "entry_sender e \<equiv> st_from (pe_tx e)"

abbreviation entry_nonce :: "pool_entry \<Rightarrow> u64" where
  "entry_nonce e \<equiv> tx_nonce (st_tx (pe_tx e))"

text \<open>The indexes name the same transactions, each once.\<close>

definition entries_ok :: "(signed_transaction \<Rightarrow> shell_hash) \<Rightarrow> pool_inner \<Rightarrow> bool" where
  "entries_ok tx_id p \<longleftrightarrow>
     (\<forall>h e. hm_get (by_hash p) h = Some e \<longrightarrow>
        tx_id (pe_tx e) = h \<and> entry_nonce e \<noteq> u_max
        \<and> neg_priority_fee (pe_priority_key e) = - uint (tx_max_priority_fee_per_gas (st_tx (pe_tx e)))
        \<and> pk_seq (pe_priority_key e) < pool_seq p)"

definition seqs_distinct :: "pool_inner \<Rightarrow> bool" where
  "seqs_distinct p \<longleftrightarrow>
     (\<forall>h e h' e'. hm_get (by_hash p) h = Some e \<longrightarrow> hm_get (by_hash p) h' = Some e' \<longrightarrow>
        pk_seq (pe_priority_key e) = pk_seq (pe_priority_key e') \<longrightarrow> h = h')"

definition queues_ok :: "pool_inner \<Rightarrow> bool" where
  "queues_ok p \<longleftrightarrow>
     (\<forall>a n h. hm_get (queue_of p a) n = Some h \<longleftrightarrow>
        (\<exists>e. hm_get (by_hash p) h = Some e \<and> entry_sender e = a \<and> entry_nonce e = n))"

definition queues_nonempty :: "pool_inner \<Rightarrow> bool" where
  "queues_nonempty p \<longleftrightarrow> (\<forall>a q. hm_get (by_sender p) a = Some q \<longrightarrow> hm_len q \<noteq> 0)"

definition priorities_ok :: "pool_inner \<Rightarrow> bool" where
  "priorities_ok p \<longleftrightarrow>
     (\<forall>k h. hm_get (by_priority p) k = Some h \<longleftrightarrow>
        (\<exists>e. hm_get (by_hash p) h = Some e \<and> pe_priority_key e = k))"

definition index_ok :: "(signed_transaction \<Rightarrow> shell_hash) \<Rightarrow> pool_inner \<Rightarrow> bool" where
  "index_ok tx_id p \<longleftrightarrow>
     entries_ok tx_id p \<and> seqs_distinct p \<and> queues_ok p \<and> queues_nonempty p \<and> priorities_ok p"

text \<open>The byte count and the reservations are the sums over the transactions.\<close>

definition sums_ok :: "pool_inner \<Rightarrow> bool" where
  "sums_ok p \<longleftrightarrow>
     total_bytes p = pool_sum p pe_serialized_size \<and> total_bytes p < usize_bound
     \<and> (\<forall>a. reserved p a = pool_sum p (\<lambda>e. unat (reservation_cost_for (pe_tx e) a)))
     \<and> reserved_nonzero p"

definition limits_ok :: "mempool_config \<Rightarrow> pool_inner \<Rightarrow> bool" where
  "limits_ok cfg p \<longleftrightarrow>
     hm_len (by_hash p) \<le> max_pool_size cfg \<and> total_bytes p \<le> max_pool_bytes cfg
     \<and> (\<forall>a. hm_len (queue_of p a) \<le> max_per_sender cfg)"

definition pool_ok :: "mempool_config \<Rightarrow> (signed_transaction \<Rightarrow> shell_hash) \<Rightarrow> pool_inner \<Rightarrow> bool" where
  "pool_ok cfg tx_id p \<longleftrightarrow> index_ok tx_id p \<and> sums_ok p \<and> limits_ok cfg p"

lemma pool_sum_remove:
  "hm_get (by_hash p) h = Some e \<Longrightarrow> by_hash q = hm_remove (by_hash p) h \<Longrightarrow>
     pool_sum q f = pool_sum p f - f e \<and> f e \<le> pool_sum p f"
  using sum_hm_remove [of "by_hash p" h e f] by (simp add: pool_sum_def)

lemma index_queue:
  "index_ok tx_id p \<Longrightarrow> hm_get (queue_of p a) n = Some h \<longleftrightarrow>
     (\<exists>e. hm_get (by_hash p) h = Some e \<and> entry_sender e = a \<and> entry_nonce e = n)"
  by (simp add: index_ok_def queues_ok_def)

lemma index_priority:
  "index_ok tx_id p \<Longrightarrow> hm_get (by_priority p) k = Some h \<longleftrightarrow>
     (\<exists>e. hm_get (by_hash p) h = Some e \<and> pe_priority_key e = k)"
  by (simp add: index_ok_def priorities_ok_def)

lemma index_entry:
  assumes "index_ok tx_id p" and "hm_get (by_hash p) h = Some e"
  shows "tx_id (pe_tx e) = h" "entry_nonce e \<noteq> u_max" "pk_seq (pe_priority_key e) < pool_seq p"
    "neg_priority_fee (pe_priority_key e) = - uint (tx_max_priority_fee_per_gas (st_tx (pe_tx e)))"
    "hm_get (queue_of p (entry_sender e)) (entry_nonce e) = Some h"
    "hm_get (by_priority p) (pe_priority_key e) = Some h"
proof -
  have "entries_ok tx_id p" using assms(1) by (simp add: index_ok_def)
  then show "tx_id (pe_tx e) = h" "entry_nonce e \<noteq> u_max" "pk_seq (pe_priority_key e) < pool_seq p"
    "neg_priority_fee (pe_priority_key e) = - uint (tx_max_priority_fee_per_gas (st_tx (pe_tx e)))"
    using assms(2) by (auto simp: entries_ok_def)
  show "hm_get (queue_of p (entry_sender e)) (entry_nonce e) = Some h"
    "hm_get (by_priority p) (pe_priority_key e) = Some h"
    using assms by (simp_all add: index_queue index_priority)
qed

lemma index_seq_unique:
  assumes "index_ok tx_id p" and "hm_get (by_hash p) h = Some e" and "hm_get (by_hash p) h' = Some e'"
    and "pk_seq (pe_priority_key e) = pk_seq (pe_priority_key e')"
  shows "h = h'"
proof -
  have "seqs_distinct p" using assms(1) by (simp add: index_ok_def)
  then show ?thesis using assms(2-) unfolding seqs_distinct_def by blast
qed

lemma index_slot_unique:
  assumes "index_ok tx_id p" and "hm_get (by_hash p) h = Some e" and "hm_get (by_hash p) h' = Some e'"
    and "entry_sender e = entry_sender e'" and "entry_nonce e = entry_nonce e'"
  shows "h = h'"
  using index_entry(5) [OF assms(1,2)] index_entry(5) [OF assms(1,3)] assms(4,5) by simp

lemma queue_of_Some: "hm_get (by_sender p) a = Some q \<Longrightarrow> queue_of p a = q"
  by (simp add: queue_of_def hm_get_or_def)

lemma queue_in_index:
  assumes "index_ok tx_id p" and "hm_get (by_hash p) h = Some e"
  obtains q where "hm_get (by_sender p) (entry_sender e) = Some q" "queue_of p (entry_sender e) = q"
    "hm_get q (entry_nonce e) = Some h"
  using index_entry(5) [OF assms]
  by (cases "hm_get (by_sender p) (entry_sender e)") (auto simp: queue_of_def hm_get_or_def)

lemma remove_entry_absent: "hm_get (by_hash p) h = None \<Longrightarrow> remove_entry h p = (False, p)"
  by (simp add: remove_entry_def)

lemma remove_entry_fields:
  assumes "hm_get (by_hash p) h = Some e"
  shows "fst (remove_entry h p)"
    "by_hash (snd (remove_entry h p)) = hm_remove (by_hash p) h"
    "by_priority (snd (remove_entry h p)) = hm_remove (by_priority p) (pe_priority_key e)"
    "pool_seq (snd (remove_entry h p)) = pool_seq p"
    "total_bytes (snd (remove_entry h p)) = total_bytes p - pe_serialized_size e"
    "reserved_by_account (snd (remove_entry h p))
       = reserved_by_account (remove_reservations p (pe_tx e))"
    "accepted_total (snd (remove_entry h p)) = accepted_total p"
proof -
  have frame: "reserved_by_account (remove_reservations (p\<lparr>by_hash := m, total_bytes := n\<rparr>) tx)
      = reserved_by_account (remove_reservations p tx)" for m n tx
    by (simp add: remove_reservations_def reservation_costs_def remove_reservation_def Let_def
        split: option.split)
  show "fst (remove_entry h p)"
    "by_hash (snd (remove_entry h p)) = hm_remove (by_hash p) h"
    "by_priority (snd (remove_entry h p)) = hm_remove (by_priority p) (pe_priority_key e)"
    "pool_seq (snd (remove_entry h p)) = pool_seq p"
    "total_bytes (snd (remove_entry h p)) = total_bytes p - pe_serialized_size e"
    "reserved_by_account (snd (remove_entry h p))
       = reserved_by_account (remove_reservations p (pe_tx e))"
    "accepted_total (snd (remove_entry h p)) = accepted_total p"
    using assms frame by (simp_all add: remove_entry_def Let_def split: option.split)
qed

lemma remove_entry_queue:
  assumes "hm_get (by_hash p) h = Some e"
  shows "hm_get (queue_of (snd (remove_entry h p)) a) n =
      (if a = entry_sender e \<and> n = entry_nonce e then None else hm_get (queue_of p a) n)"
    and "hm_len (queue_of (snd (remove_entry h p)) a) \<le> hm_len (queue_of p a)"
    and "(\<forall>a q. hm_get (by_sender p) a = Some q \<longrightarrow> hm_len q \<noteq> 0) \<Longrightarrow>
      hm_get (by_sender (snd (remove_entry h p))) b = Some q' \<Longrightarrow> hm_len q' \<noteq> 0"
proof -
  let ?q = "queue_of p (entry_sender e)"
  have empty: "hm_len q = 0 \<Longrightarrow> hm_get q k = None" for q :: "(u64, shell_hash) btreemap" and k
    by (simp add: hm_len_card dom_eq_empty_conv)
  have bs: "by_sender (snd (remove_entry h p)) =
      (case hm_get (by_sender p) (entry_sender e) of
         None \<Rightarrow> by_sender p
       | Some q \<Rightarrow> if hm_len (hm_remove q (entry_nonce e)) = 0 then hm_remove (by_sender p) (entry_sender e)
                   else hm_insert (by_sender p) (entry_sender e) (hm_remove q (entry_nonce e)))"
    using assms by (simp add: remove_entry_def Let_def split: option.split)
  show "hm_get (queue_of (snd (remove_entry h p)) a) n =
      (if a = entry_sender e \<and> n = entry_nonce e then None else hm_get (queue_of p a) n)"
    using empty [of "hm_remove ?q (entry_nonce e)" n]
    by (auto simp: bs queue_of_def hm_get_or_def split: option.splits if_splits)
  show "hm_len (queue_of (snd (remove_entry h p)) a) \<le> hm_len (queue_of p a)"
    by (auto simp: bs queue_of_def hm_get_or_def hm_len_remove_le split: option.splits)
  show "hm_get (by_sender (snd (remove_entry h p))) b = Some q' \<Longrightarrow> hm_len q' \<noteq> 0"
    if "\<forall>a q. hm_get (by_sender p) a = Some q \<longrightarrow> hm_len q \<noteq> 0"
    using that by (auto simp: bs split: option.splits if_splits)
qed

section \<open>Removal\<close>

lemma remove_entry_index:
  assumes ok: "index_ok tx_id p"
  shows "index_ok tx_id (snd (remove_entry h p))"
proof (cases "hm_get (by_hash p) h")
  case (Some e)
  note f = remove_entry_fields [OF Some] and q = remove_entry_queue [OF Some]
  let ?p = "snd (remove_entry h p)"
  have "entries_ok tx_id ?p"
    using ok unfolding index_ok_def entries_ok_def f hm_get_remove by (metis option.distinct(1))
  moreover have "seqs_distinct ?p"
    unfolding seqs_distinct_def f hm_get_remove using index_seq_unique [OF ok] by (metis option.distinct(1))
  moreover have "queues_ok ?p"
    unfolding queues_ok_def f q(1) hm_get_remove
  proof (intro allI)
    fix a n h'
    have "h' = h" if "hm_get (by_hash p) h' = Some e'" "entry_sender e' = entry_sender e"
      "entry_nonce e' = entry_nonce e" for e'
      using index_slot_unique [OF ok that(1) Some that(2,3)] .
    then show "((if a = entry_sender e \<and> n = entry_nonce e then None else hm_get (queue_of p a) n) = Some h') =
        (\<exists>e'. (if h' = h then None else hm_get (by_hash p) h') = Some e' \<and> entry_sender e' = a \<and> entry_nonce e' = n)"
      using Some by (cases "h' = h") (auto simp: index_queue [OF ok])
  qed
  moreover have "priorities_ok ?p"
    unfolding priorities_ok_def f hm_get_remove
  proof (intro allI)
    fix k h'
    have "h' = h" if "hm_get (by_hash p) h' = Some e'" "pe_priority_key e' = pe_priority_key e" for e'
      using index_seq_unique [OF ok that(1) Some] that(2) by simp
    then show "((if k = pe_priority_key e then None else hm_get (by_priority p) k) = Some h') =
        (\<exists>e'. (if h' = h then None else hm_get (by_hash p) h') = Some e' \<and> pe_priority_key e' = k)"
      using Some by (cases "h' = h") (auto simp: index_priority [OF ok])
  qed
  moreover have "queues_nonempty ?p"
    using ok q(3) unfolding queues_nonempty_def index_ok_def by blast
  ultimately show ?thesis by (simp add: index_ok_def)
qed (simp add: remove_entry_absent ok)

lemma remove_entry_sums:
  assumes ok: "sums_ok p"
  shows "sums_ok (snd (remove_entry h p))"
proof (cases "hm_get (by_hash p) h")
  case (Some e)
  note f = remove_entry_fields [OF Some]
  note s = pool_sum_remove [OF Some f(2)]
  have res: "reserved p a = pool_sum p (\<lambda>e. unat (reservation_cost_for (pe_tx e) a))" for a
    using ok by (simp add: sums_ok_def)
  have le: "unat (reservation_cost_for (pe_tx e) a) \<le> reserved p a" for a
    using s [of "\<lambda>e. unat (reservation_cost_for (pe_tx e) a)"] by (simp add: res)
  note r = reserved_remove [OF le] and fr = reserved_frame [OF f(6)]
  show ?thesis
    using ok s r by (auto simp: sums_ok_def fr f(5) res)
qed (simp add: remove_entry_absent ok)

lemma remove_entry_limits:
  assumes ok: "limits_ok cfg p"
  shows "limits_ok cfg (snd (remove_entry h p))"
proof (cases "hm_get (by_hash p) h")
  case (Some e)
  note f = remove_entry_fields [OF Some]
  have "hm_len (queue_of (snd (remove_entry h p)) a) \<le> max_per_sender cfg" for a
    using remove_entry_queue(2) [OF Some, of a] ok unfolding limits_ok_def by (meson order_trans)
  then show ?thesis
    using ok hm_len_remove_le [of "by_hash p" h] by (auto simp: limits_ok_def f)
qed (simp add: remove_entry_absent ok)

lemma remove_entry_by_hash: "by_hash (snd (remove_entry h p)) = (if hm_get (by_hash p) h = None then by_hash p else hm_remove (by_hash p) h)"
  using remove_entry_fields(2) [of p h] by (auto simp: remove_entry_absent)

lemma remove_entry_get:
  "hm_get (by_hash (snd (remove_entry h p))) k = (if k = h then None else hm_get (by_hash p) k)"
  by (simp add: remove_entry_by_hash)

lemma remove_entry_seq: "pool_seq (snd (remove_entry h p)) = pool_seq p"
  by (cases "hm_get (by_hash p) h") (simp_all add: remove_entry_absent remove_entry_fields)

lemma remove_entry_queue_get:
  assumes "index_ok tx_id p"
  shows "hm_get (queue_of (snd (remove_entry h p)) a) n =
    (if hm_get (queue_of p a) n = Some h then None else hm_get (queue_of p a) n)"
proof (cases "hm_get (by_hash p) h")
  case None
  then show ?thesis using index_queue [OF assms, of a n h] by (auto simp: remove_entry_absent)
next
  case (Some e)
  then show ?thesis
    using remove_entry_queue(1) [OF Some, of a n] index_entry(5) [OF assms Some]
      index_queue [OF assms, of a n h] by auto
qed

lemma remove_entries_Cons:
  "snd (remove_entries (h # hs) p) = snd (remove_entries hs (snd (remove_entry h p)))"
  by (simp split: prod.split)

declare remove_entries.simps(2) [simp del]
declare remove_entries_Cons [simp]

text \<open>What any sequence of removals leaves.\<close>

lemma remove_entries_keeps:
  "index_ok tx_id p \<Longrightarrow> index_ok tx_id (snd (remove_entries hs p))"
  "sums_ok p \<Longrightarrow> sums_ok (snd (remove_entries hs p))"
  "limits_ok cfg p \<Longrightarrow> limits_ok cfg (snd (remove_entries hs p))"
  by (induction hs arbitrary: p) (simp_all add: remove_entry_index remove_entry_sums remove_entry_limits)

lemma remove_entries_get:
  "hm_get (by_hash (snd (remove_entries hs p))) k = (if k \<in> set hs then None else hm_get (by_hash p) k)"
  by (induction hs arbitrary: p) (auto simp: remove_entry_get)

lemma remove_entries_seq: "pool_seq (snd (remove_entries hs p)) = pool_seq p"
  by (induction hs arbitrary: p) (simp_all add: remove_entry_seq)

lemma remove_entries_queue:
  assumes "index_ok tx_id p"
  shows "hm_get (queue_of (snd (remove_entries hs p)) a) n =
    (case hm_get (queue_of p a) n of Some h \<Rightarrow> if h \<in> set hs then None else Some h | None \<Rightarrow> None)"
  using assms
  by (induction hs arbitrary: p)
     (auto simp: remove_entry_queue_get remove_entry_index split: option.split)

lemma remove_entries_count:
  "distinct hs \<Longrightarrow> set hs \<subseteq> dom (hm_get (by_hash p)) \<Longrightarrow>
     hm_len (by_hash (snd (remove_entries hs p))) = hm_len (by_hash p) - length hs"
proof -
  assume d: "distinct hs" and sub: "set hs \<subseteq> dom (hm_get (by_hash p))"
  have "dom (hm_get (by_hash (snd (remove_entries hs p)))) = dom (hm_get (by_hash p)) - set hs"
    by (auto simp: remove_entries_get split: if_splits)
  then show ?thesis using d sub by (simp add: hm_len_card card_Diff_subset distinct_card)
qed

section \<open>Storing a transaction\<close>

definition new_entry :: "signed_transaction \<Rightarrow> u64 \<Rightarrow> usize \<Rightarrow> shell_hash option \<Rightarrow> pool_entry" where
  "new_entry tx seq tx_size root =
     \<lparr>pe_tx = tx, pe_priority_key = PriorityKey (- uint (tx_max_priority_fee_per_gas (st_tx tx))) seq,
      pe_serialized_size = tx_size, pe_validated_root_hash = root\<rparr>"

lemma pool_store_fields:
  fixes p tx n root seq' bytes h
  defines "e \<equiv> new_entry tx (pool_seq p) n root" and "p' \<equiv> pool_store tx h seq' n root bytes p"
  shows "by_hash p' = hm_insert (by_hash p) h e"
    "by_priority p' = hm_insert (by_priority p) (pe_priority_key e) h"
    "by_sender p' = hm_insert (by_sender p) (st_from tx) (hm_insert (queue_of p (st_from tx)) (tx_nonce (st_tx tx)) h)"
    "pool_seq p' = seq'" "total_bytes p' = bytes"
    "reserved_by_account p' = reserved_by_account (add_reservations p tx)"
    "accepted_total p' = sat_add (accepted_total p) 1"
proof -
  have frame: "reserved_by_account (add_reservations (p\<lparr>pool_seq := a, by_priority := b, by_sender := c\<rparr>) tx)
      = reserved_by_account (add_reservations p tx)" for a b c
    by (simp add: add_reservations_def reservation_costs_def add_reservation_def)
  show "by_hash p' = hm_insert (by_hash p) h e"
    "by_priority p' = hm_insert (by_priority p) (pe_priority_key e) h"
    "by_sender p' = hm_insert (by_sender p) (st_from tx) (hm_insert (queue_of p (st_from tx)) (tx_nonce (st_tx tx)) h)"
    "pool_seq p' = seq'" "total_bytes p' = bytes"
    "reserved_by_account p' = reserved_by_account (add_reservations p tx)"
    "accepted_total p' = sat_add (accepted_total p) 1"
    by (simp_all add: p'_def e_def pool_store_def new_entry_def Let_def frame queue_of_def)
qed

lemma pool_store_queue:
  "queue_of (pool_store tx h seq' n root bytes p) a =
     (if a = st_from tx then hm_insert (queue_of p a) (tx_nonce (st_tx tx)) h else queue_of p a)"
  by (simp add: queue_of_def [of "pool_store _ _ _ _ _ _ _"] pool_store_fields hm_get_or_insert)
     (simp add: queue_of_def)

lemma count_le_seq:
  assumes ok: "index_ok tx_id p"
  shows "hm_len (by_hash p) \<le> unat (pool_seq p)"
proof -
  let ?f = "\<lambda>h. unat (pk_seq (pe_priority_key (the (hm_get (by_hash p) h))))"
  have "inj_on ?f (dom (hm_get (by_hash p)))"
  proof (rule inj_onI)
    fix h h' assume "h \<in> dom (hm_get (by_hash p))" "h' \<in> dom (hm_get (by_hash p))" "?f h = ?f h'"
    then obtain e e' where "hm_get (by_hash p) h = Some e" "hm_get (by_hash p) h' = Some e'"
      "pk_seq (pe_priority_key e) = pk_seq (pe_priority_key e')" by (auto simp: word_unat_eq_iff)
    then show "h = h'" by (rule index_seq_unique [OF ok])
  qed
  moreover have "?f ` dom (hm_get (by_hash p)) \<subseteq> {..<unat (pool_seq p)}"
    using index_entry(3) [OF ok] by (auto simp: word_less_nat_alt)
  ultimately have "card (dom (hm_get (by_hash p))) \<le> card {..<unat (pool_seq p)}"
    by (rule card_inj_on_le) simp
  then show ?thesis by (simp add: hm_len_card)
qed

lemma sum_list_bound: "(\<And>x. x \<in> set xs \<Longrightarrow> f x \<le> m) \<Longrightarrow> sum_list (map f xs) \<le> length xs * m" for m :: nat
  by (induction xs) (auto intro: add_mono)

lemma reserved_bound:
  assumes "sums_ok p"
  shows "reserved p a \<le> hm_len (by_hash p) * (2 ^ 256 - 1)"
proof -
  have "unat (c :: u256) \<le> 2 ^ 256 - 1" for c using unat_bound [of c] by simp
  then have "pool_sum p (\<lambda>e. unat (reservation_cost_for (pe_tx e) a)) \<le> length (hm_values (by_hash p)) * (2 ^ 256 - 1)"
    unfolding pool_sum_def by (intro sum_list_bound)
  moreover have "length (hm_values (by_hash p)) = hm_len (by_hash p)" by (simp add: hm_values_def hm_len_def)
  ultimately show ?thesis using assms by (simp add: sums_ok_def)
qed

lemma pool_store_index:
  assumes ok: "index_ok tx_id p" and id: "tx_id tx = h" and fresh: "hm_get (by_hash p) h = None"
    and slot: "hm_get (queue_of p (st_from tx)) (tx_nonce (st_tx tx)) = None"
    and max: "tx_nonce (st_tx tx) \<noteq> u_max" and seq: "pool_seq p < seq'"
  shows "index_ok tx_id (pool_store tx h seq' n root bytes p)"
proof -
  let ?p = "pool_store tx h seq' n root bytes p" and ?e = "new_entry tx (pool_seq p) n root"
  note f = pool_store_fields [of tx h seq' n root bytes p]
  have old: "entry_nonce e \<noteq> tx_nonce (st_tx tx)" if "hm_get (by_hash p) k = Some e" "entry_sender e = st_from tx" for k e
    using index_entry(5) [OF ok that(1)] that(2) slot by auto
  have e [simp]: "pe_tx ?e = tx" "pk_seq (pe_priority_key ?e) = pool_seq p"
    "neg_priority_fee (pe_priority_key ?e) = - uint (tx_max_priority_fee_per_gas (st_tx tx))"
    by (simp_all add: new_entry_def)
  have later: "pk_seq (pe_priority_key e) < seq'" "pk_seq (pe_priority_key e) \<noteq> pool_seq p"
    "pe_priority_key e \<noteq> pe_priority_key ?e" if "hm_get (by_hash p) k = Some e" for k e
    using index_entry(3) [OF ok that] seq by (auto dest: arg_cong [where f = pk_seq])
  have "entries_ok tx_id ?p"
    unfolding entries_ok_def f hm_get_insert
    using index_entry(1,2,4) [OF ok] later(1) id max seq by (auto split: if_splits)
  moreover have "seqs_distinct ?p"
    unfolding seqs_distinct_def f hm_get_insert
    using index_seq_unique [OF ok] later(2) e(2) by (metis option.inject)
  moreover have "queues_ok ?p"
    unfolding queues_ok_def f pool_store_queue
    using fresh old by (auto simp: index_queue [OF ok])
  moreover have "priorities_ok ?p"
    unfolding priorities_ok_def f
    using fresh later(3) by (auto simp: index_priority [OF ok])
  moreover have "queues_nonempty ?p"
    using ok slot by (auto simp: index_ok_def queues_nonempty_def f hm_len_insert split: if_splits)
  ultimately show ?thesis by (simp add: index_ok_def)
qed

lemma pool_store_sums:
  assumes ok: "index_ok tx_id p" "sums_ok p" and fresh: "hm_get (by_hash p) h = None"
    and seq: "checked_add (pool_seq p) 1 = Some seq'"
    and bytes: "bytes = total_bytes p + n" "bytes < usize_bound"
  shows "sums_ok (pool_store tx h seq' n root bytes p)"
proof -
  note f = pool_store_fields [of tx h seq' n root bytes p]
  have sum: "pool_sum (pool_store tx h seq' n root bytes p) g = pool_sum p g + g (new_entry tx (pool_seq p) n root)" for g
    by (simp add: pool_sum_def f sum_hm_insert [OF fresh])
  have "hm_len (by_hash p) \<le> 2 ^ 64 - 2"
    using count_le_seq [OF ok(1)] seq by (simp add: checked_add_Some_iff)
  then have "hm_len (by_hash p) * (2 ^ 256 - 1) \<le> (2 ^ 64 - 2) * (2 ^ 256 - 1)" by (rule mult_le_mono1)
  also have "\<dots> < (2 ^ 64 - 1) * 2 ^ 256" by simp
  finally have "reserved p a < (2 ^ 64 - 1) * 2 ^ 256" for a
    using reserved_bound [OF ok(2), of a] by (rule order_le_less_trans [rotated])
  note r = reserved_add [OF this] and fr = reserved_frame [OF f(6)]
  show ?thesis
    using ok(2) r bytes(2) unfolding sums_ok_def fr sum f by (simp add: new_entry_def bytes(1))
qed

section \<open>Evictions\<close>

definition entry_sum :: "pool_inner \<Rightarrow> (pool_entry \<Rightarrow> nat) \<Rightarrow> shell_hash list \<Rightarrow> nat" where
  "entry_sum p f hs = sum_list (map (\<lambda>h. f (the (hm_get (by_hash p) h))) hs)"

abbreviation entry_sizes :: "pool_inner \<Rightarrow> shell_hash list \<Rightarrow> nat" where
  "entry_sizes p \<equiv> entry_sum p pe_serialized_size"

lemma in_map_filter: "y \<in> set (List.map_filter f xs) \<longleftrightarrow> (\<exists>x \<in> set xs. f x = Some y)"
  by (force simp: List.map_filter_def)

lemma pool_sum_remove_entries:
  assumes "distinct hs" and "set hs \<subseteq> dom (hm_get (by_hash p))"
  shows "entry_sum p f hs \<le> pool_sum p f"
    and "pool_sum (snd (remove_entries hs p)) f = pool_sum p f - entry_sum p f hs"
proof -
  let ?g = "\<lambda>h. f (the (hm_get (by_hash p) h))"
  let ?D = "dom (hm_get (by_hash p))" and ?p = "snd (remove_entries hs p)"
  have sum: "entry_sum p f hs = sum ?g (set hs)"
    using assms(1) by (simp add: entry_sum_def sum_list_distinct_conv_sum_set)
  have total: "pool_sum p f = sum ?g ?D" by (simp add: pool_sum_def sum_hm_values_dom)
  show "entry_sum p f hs \<le> pool_sum p f"
    unfolding sum total using assms(2) by (intro sum_mono2) auto
  have dom: "dom (hm_get (by_hash ?p)) = ?D - set hs" by (auto simp: remove_entries_get split: if_splits)
  have "pool_sum ?p f = (\<Sum>h \<in> ?D - set hs. f (the (hm_get (by_hash ?p) h)))"
    by (simp add: pool_sum_def sum_hm_values_dom dom)
  also have "\<dots> = sum ?g (?D - set hs)" by (rule sum.cong) (auto simp: remove_entries_get)
  also have "\<dots> = sum ?g ?D - sum ?g (set hs)" using assms(2) by (intro sum_diff_nat) auto
  finally show "pool_sum ?p f = pool_sum p f - entry_sum p f hs" by (simp add: sum total)
qed

lemma entry_sizes_le:
  assumes "sums_ok p" and "distinct hs" and "set hs \<subseteq> dom (hm_get (by_hash p))"
  shows "entry_sizes p hs \<le> total_bytes p"
    and "total_bytes (snd (remove_entries hs p)) = total_bytes p - entry_sizes p hs"
  using pool_sum_remove_entries [OF assms(2,3), of pe_serialized_size] assms(1)
    remove_entries_keeps(2) [OF assms(1), of hs]
  by (simp_all add: sums_ok_def)

definition eviction_state :: "pool_inner \<Rightarrow> shell_hash list \<times> usize \<Rightarrow> bool" where
  "eviction_state p acc \<longleftrightarrow>
     distinct (fst acc) \<and> set (fst acc) \<subseteq> dom (hm_get (by_hash p)) \<and> snd acc = entry_sizes p (fst acc)"

lemma evict_one_state:
  assumes "sums_ok p" and "eviction_state p acc" and "hm_get (by_hash p) h = Some e"
  shows "eviction_state p (evict_one p acc h) \<and> set (fst (evict_one p acc h)) = insert h (set (fst acc))"
proof (cases "h \<in> set (fst acc)")
  case True
  then show ?thesis using assms(2) by (auto simp: evict_one_def split: prod.split)
next
  case False
  let ?ev = "fst acc @ [h]"
  have "distinct ?ev" "set ?ev \<subseteq> dom (hm_get (by_hash p))"
    using False assms(2,3) by (auto simp: eviction_state_def)
  then have "entry_sizes p ?ev \<le> total_bytes p" by (rule entry_sizes_le [OF assms(1)])
  then have "entry_sizes p ?ev < usize_bound" using assms(1) by (simp add: sums_ok_def)
  then have "usize_sat_add (entry_sizes p (fst acc)) (pe_serialized_size e) = entry_sizes p ?ev"
    using assms(3) by (simp add: usize_sat_add_def entry_sum_def)
  then show ?thesis
    using False assms(2,3) \<open>distinct ?ev\<close> \<open>set ?ev \<subseteq> _\<close>
    by (auto simp: evict_one_def eviction_state_def split: prod.split)
qed

lemma evict_all_state:
  assumes "sums_ok p"
  shows "eviction_state p acc \<Longrightarrow> set hs \<subseteq> dom (hm_get (by_hash p)) \<Longrightarrow>
    eviction_state p (foldl (evict_one p) acc hs)
    \<and> set (fst (foldl (evict_one p) acc hs)) = set (fst acc) \<union> set hs"
proof (induction hs arbitrary: acc)
  case (Cons h hs)
  then obtain e where "hm_get (by_hash p) h = Some e" by auto
  then show ?case using Cons evict_one_state [OF assms, of acc h e] by auto
qed simp

text \<open>An entry and its later nonces.\<close>

definition descends :: "pool_entry \<Rightarrow> pool_entry \<Rightarrow> bool" where
  "descends c e \<longleftrightarrow> entry_sender e = entry_sender c \<and> entry_nonce c \<le> entry_nonce e"

lemma in_descendants:
  assumes ok: "index_ok tx_id p" and c: "hm_get (by_hash p) c = Some ec"
  shows "h \<in> set (entry_and_descendant_hashes p c) \<longleftrightarrow>
    (\<exists>e. hm_get (by_hash p) h = Some e \<and> descends ec e)"
proof -
  obtain q where q: "hm_get (by_sender p) (entry_sender ec) = Some q" "queue_of p (entry_sender ec) = q"
    using queue_in_index [OF ok c] by blast
  have "h \<in> set (entry_and_descendant_hashes p c) \<longleftrightarrow> (\<exists>n. (n, h) \<in> set (bt_range_from q (entry_nonce ec)))"
    by (force simp: entry_and_descendant_hashes_def c q)
  also have "\<dots> \<longleftrightarrow> (\<exists>n. entry_nonce ec \<le> n \<and> hm_get (queue_of p (entry_sender ec)) n = Some h)"
    by (simp add: bt_in_range_from q(2))
  finally show ?thesis unfolding index_queue [OF ok] descends_def by blast
qed

lemma min_choice_least:
  assumes "min_choice xs = Some r"
  shows "r \<in> set xs \<and> (\<forall>y \<in> set xs. fst r \<le> fst y)"
proof -
  have "let r = foldl (\<lambda>best y. if evict_before y best then y else best) x xs in
      r \<in> set (x # xs) \<and> (\<forall>y \<in> set (x # xs). fst r \<le> fst y)" for x and xs :: "(u64 \<times> u64 \<times> shell_hash) list"
  proof (induction xs arbitrary: x)
    case (Cons y xs)
    let ?z = "if evict_before y x then y else x"
    have "fst ?z \<le> fst x \<and> fst ?z \<le> fst y" by auto
    then show ?case using Cons [of ?z] by (auto simp: Let_def split: if_splits intro: order_trans)
  qed simp
  moreover obtain x ys where "xs = x # ys" "r = foldl (\<lambda>best y. if evict_before y best then y else best) x ys"
    using assms by (cases xs) auto
  ultimately show ?thesis unfolding Let_def by blast
qed

text \<open>The pool keeps the ancestors of the incoming transaction.\<close>

definition own_ancestor :: "address \<Rightarrow> u64 \<Rightarrow> pool_entry \<Rightarrow> bool" where
  "own_ancestor sender nonce e \<longleftrightarrow> entry_sender e = sender \<and> entry_nonce e \<le> nonce"

lemma eviction_candidate_lowest:
  assumes ok: "index_ok tx_id p"
    and cand: "eviction_candidate p evicted tip base_fee sender nonce = Some c"
  shows "\<exists>ec. hm_get (by_hash p) c = Some ec \<and> c \<notin> set evicted \<and> \<not> own_ancestor sender nonce ec
    \<and> entry_tip base_fee ec < tip
    \<and> (\<forall>h e. hm_get (by_hash p) h = Some e \<longrightarrow> h \<notin> set evicted \<longrightarrow> \<not> own_ancestor sender nonce e \<longrightarrow>
         entry_tip base_fee ec \<le> entry_tip base_fee e)"
proof -
  let ?xs = "eviction_choices p evicted base_fee sender nonce"
  have choice: "(t, s, h) \<in> set ?xs \<longleftrightarrow> (\<exists>e. hm_get (by_hash p) h = Some e \<and> h \<notin> set evicted
      \<and> \<not> own_ancestor sender nonce e \<and> t = entry_tip base_fee e \<and> s = pk_seq (pe_priority_key e))" for t s h
  proof
    assume "(t, s, h) \<in> set ?xs"
    then show "\<exists>e. hm_get (by_hash p) h = Some e \<and> h \<notin> set evicted
      \<and> \<not> own_ancestor sender nonce e \<and> t = entry_tip base_fee e \<and> s = pk_seq (pe_priority_key e)"
      by (auto simp: eviction_choices_def in_map_filter bt_in_entries index_priority [OF ok] own_ancestor_def
          split: if_splits option.splits)
  next
    assume "\<exists>e. hm_get (by_hash p) h = Some e \<and> h \<notin> set evicted
      \<and> \<not> own_ancestor sender nonce e \<and> t = entry_tip base_fee e \<and> s = pk_seq (pe_priority_key e)"
    then obtain e where e: "hm_get (by_hash p) h = Some e" "h \<notin> set evicted"
      "\<not> own_ancestor sender nonce e" "t = entry_tip base_fee e" "s = pk_seq (pe_priority_key e)" by blast
    have "(pe_priority_key e, h) \<in> set (bt_entries (by_priority p))"
      using index_entry(6) [OF ok e(1)] by (simp add: bt_in_entries)
    then show "(t, s, h) \<in> set ?xs"
      using e unfolding eviction_choices_def in_map_filter by (force simp: own_ancestor_def)
  qed
  obtain t s where min: "min_choice ?xs = Some (t, s, c)" "t < tip"
    using cand by (auto simp: eviction_candidate_def split: option.splits if_splits)
  note least = min_choice_least [OF min(1)]
  then obtain ec where ec: "hm_get (by_hash p) c = Some ec" "c \<notin> set evicted" "\<not> own_ancestor sender nonce ec"
    "t = entry_tip base_fee ec" using choice [of t s c] by blast
  have "t \<le> entry_tip base_fee e"
    if "hm_get (by_hash p) h = Some e" "h \<notin> set evicted" "\<not> own_ancestor sender nonce e" for h e
    using least choice [of "entry_tip base_fee e" "pk_seq (pe_priority_key e)" h] that by force
  then show ?thesis using ec min(2) by blast
qed

text \<open>Why a transaction is evicted: it descends from one whose tip is below the incoming tip and
  not above the tip of any transaction that stays, where the transactions of the sender up to the
  incoming nonce are not considered.\<close>

definition outbid :: "pool_inner \<Rightarrow> u64 \<Rightarrow> u64 \<Rightarrow> address \<Rightarrow> u64 \<Rightarrow> shell_hash list \<Rightarrow> shell_hash \<Rightarrow> bool" where
  "outbid p tip base_fee sender nonce evicted h \<longleftrightarrow>
     (\<exists>c ec e. c \<in> set evicted \<and> hm_get (by_hash p) c = Some ec \<and> hm_get (by_hash p) h = Some e
        \<and> descends ec e \<and> \<not> own_ancestor sender nonce ec \<and> entry_tip base_fee ec < tip
        \<and> (\<forall>k ek. hm_get (by_hash p) k = Some ek \<longrightarrow> k \<notin> set evicted \<longrightarrow> \<not> own_ancestor sender nonce ek \<longrightarrow>
             entry_tip base_fee ec \<le> entry_tip base_fee ek))"

lemma outbid_mono:
  "outbid p tip base_fee sender nonce ev h \<Longrightarrow> set ev \<subseteq> set ev' \<Longrightarrow> outbid p tip base_fee sender nonce ev' h"
  unfolding outbid_def by (meson subsetD)

text \<open>What a successful plan promises.\<close>

definition eviction_plan ::
    "mempool_config \<Rightarrow> pool_inner \<Rightarrow> u64 \<Rightarrow> u64 \<Rightarrow> address \<Rightarrow> u64 \<Rightarrow> usize \<Rightarrow> shell_hash list
       \<Rightarrow> shell_hash list \<times> usize \<Rightarrow> bool" where
  "eviction_plan cfg p tip base_fee sender nonce n initial plan \<longleftrightarrow>
     (case plan of (evicted, bytes) \<Rightarrow>
        distinct evicted \<and> set evicted \<subseteq> dom (hm_get (by_hash p)) \<and> set initial \<subseteq> set evicted
        \<and> hm_len (by_hash p) - length evicted + 1 \<le> max_pool_size cfg
        \<and> bytes = total_bytes p - entry_sizes p evicted + n \<and> bytes < usize_bound
        \<and> bytes \<le> max_pool_bytes cfg
        \<and> (\<forall>h \<in> set evicted - set initial. outbid p tip base_fee sender nonce evicted h))"

lemma eviction_loop_returns:
  assumes ok: "index_ok tx_id p" "sums_ok p" and "eviction_state p acc" and "set initial \<subseteq> set (fst acc)"
    and "\<forall>h \<in> set (fst acc) - set initial. outbid p tip base_fee sender nonce (fst acc) h"
  shows "\<exists>r. eviction_loop cfg p tip base_fee sender nonce n acc = Some r
    \<and> (\<forall>plan. r = Inr plan \<longrightarrow> eviction_plan cfg p tip base_fee sender nonce n initial plan)"
  using assms(3-)
proof (induction "hm_len (by_hash p) - length (fst acc)" arbitrary: acc rule: less_induct)
  case less
  let ?loop = "eviction_loop cfg p tip base_fee sender nonce n"
  have st: "distinct (fst acc)" "set (fst acc) \<subseteq> dom (hm_get (by_hash p))" "snd acc = entry_sizes p (fst acc)"
    using less.prems(1) by (simp_all add: eviction_state_def)
  show ?case
  proof (cases "eviction_candidate p (fst acc) tip base_fee sender nonce")
    case None
    then show ?thesis
      using st less.prems(2,3)
      by (subst eviction_loop.simps)
         (auto simp: Let_def eviction_plan_def usize_checked_add_def split: option.splits if_splits)
  next
    case (Some c)
    from eviction_candidate_lowest [OF ok(1) Some] obtain ec
      where c: "hm_get (by_hash p) c = Some ec" "c \<notin> set (fst acc)" "\<not> own_ancestor sender nonce ec"
        "entry_tip base_fee ec < tip"
      and low: "\<And>h e. hm_get (by_hash p) h = Some e \<Longrightarrow> h \<notin> set (fst acc) \<Longrightarrow>
        \<not> own_ancestor sender nonce e \<Longrightarrow> entry_tip base_fee ec \<le> entry_tip base_fee e" by blast
    let ?hs = "entry_and_descendant_hashes p c"
    let ?acc = "foldl (evict_one p) acc ?hs"
    have hs: "h \<in> set ?hs \<longleftrightarrow> (\<exists>e. hm_get (by_hash p) h = Some e \<and> descends ec e)" for h
      by (rule in_descendants [OF ok(1) c(1)])
    then have "set ?hs \<subseteq> dom (hm_get (by_hash p))" and "c \<in> set ?hs" using c(1) by (auto simp: descends_def)
    then have st': "eviction_state p ?acc" and set': "set (fst ?acc) = set (fst acc) \<union> set ?hs"
      using evict_all_state [OF ok(2) less.prems(1)] by auto
    have "outbid p tip base_fee sender nonce (fst ?acc) h" if "h \<in> set ?hs" for h
      using that hs [of h] c low \<open>c \<in> set ?hs\<close> unfolding outbid_def set' by blast
    then have out: "\<forall>h \<in> set (fst ?acc) - set initial. outbid p tip base_fee sender nonce (fst ?acc) h"
      using less.prems(3) outbid_mono [of p tip base_fee sender nonce "fst acc" _ "fst ?acc"] set' by blast
    have "card (set (fst acc)) < card (set (fst ?acc))"
      using c(2) \<open>c \<in> set ?hs\<close> set' by (intro psubset_card_mono) auto
    moreover have "card (set (fst ?acc)) \<le> hm_len (by_hash p)"
      using st' unfolding hm_len_card by (intro card_mono) (auto simp: eviction_state_def)
    ultimately have "hm_len (by_hash p) - length (fst ?acc) < hm_len (by_hash p) - length (fst acc)"
      using st(1) st' by (simp add: eviction_state_def distinct_card)
    then have ih: "\<exists>r. ?loop ?acc = Some r
        \<and> (\<forall>plan. r = Inr plan \<longrightarrow> eviction_plan cfg p tip base_fee sender nonce n initial plan)"
      using less.prems(2) st' out set' by (intro less.hyps) auto
    show ?thesis
      using st less.prems(2,3) Some ih
      by (subst eviction_loop.simps)
         (auto simp: Let_def eviction_plan_def usize_checked_add_def split: option.splits if_splits)
  qed
qed

lemma capacity_evictions_returns:
  assumes ok: "index_ok tx_id p" "sums_ok p" and "distinct initial" "set initial \<subseteq> dom (hm_get (by_hash p))"
  shows "\<exists>r. capacity_evictions cfg p initial tip base_fee sender nonce n = Some r
    \<and> (\<forall>plan. r = Inr plan \<longrightarrow> eviction_plan cfg p tip base_fee sender nonce n initial plan)"
proof -
  have sizes: "foldl (\<lambda>bytes e. usize_sat_add bytes (pe_serialized_size e)) 0
      (List.map_filter (hm_get (by_hash p)) hs) = entry_sizes p hs"
    if "distinct hs" "set hs \<subseteq> dom (hm_get (by_hash p))" for hs
    using that
  proof (induction hs rule: rev_induct)
    case (snoc h hs)
    then obtain e where e: "hm_get (by_hash p) h = Some e" by auto
    have "entry_sizes p (hs @ [h]) \<le> total_bytes p" by (rule entry_sizes_le [OF ok(2) snoc.prems])
    then have "entry_sizes p (hs @ [h]) < usize_bound" using ok(2) by (simp add: sums_ok_def)
    then show ?case
      using snoc e by (simp add: List.map_filter_def usize_sat_add_def entry_sum_def)
  qed (simp add: entry_sum_def)
  show ?thesis
    unfolding capacity_evictions_def Let_def
    by (rule eviction_loop_returns [OF ok])
       (simp_all add: eviction_state_def assms(3,4) sizes)
qed

section \<open>Admission\<close>

lemma rt_value_subtract_all:
  "sum_list (map (\<lambda>x. unat (c x)) xs) \<le> rt_value t \<Longrightarrow>
     rt_value (foldl (\<lambda>t x. rt_subtract t (c x)) t xs) = rt_value t - sum_list (map (\<lambda>x. unat (c x)) xs)"
proof (induction xs arbitrary: t)
  case (Cons x xs)
  then have "rt_value (rt_subtract t (c x)) = rt_value t - unat (c x)"
    by (intro rt_value_subtract) simp
  then show ?case using Cons by simp
qed simp

text \<open>Excluding transactions from a total is exact.\<close>

lemma reserved_total_excluding_exact:
  assumes "sums_ok p" and "distinct hs" and "set hs \<subseteq> dom (hm_get (by_hash p))"
  shows "rt_value (reserved_total_excluding p a hs) = reserved (snd (remove_entries hs p)) a"
proof -
  let ?c = "\<lambda>e. unat (reservation_cost_for (pe_tx e) a)"
  have mf: "List.map_filter (hm_get (by_hash p)) hs = map (\<lambda>h. the (hm_get (by_hash p) h)) hs"
    using assms(3) by (induction hs) (auto simp: List.map_filter_def)
  have le: "entry_sum p ?c hs \<le> reserved p a"
    using pool_sum_remove_entries(1) [OF assms(2,3), of ?c] assms(1) by (simp add: sums_ok_def)
  then have "rt_value (reserved_total_excluding p a hs) = reserved p a - entry_sum p ?c hs"
    unfolding reserved_total_excluding_def mf
    by (subst rt_value_subtract_all) (simp_all add: reserved_def entry_sum_def comp_def)
  then show ?thesis
    using pool_sum_remove_entries(2) [OF assms(2,3), of ?c] assms(1) remove_entries_keeps(2) [OF assms(1), of hs]
    by (simp add: sums_ok_def)
qed

text \<open>An accepted transaction: the plan it was admitted under and the pool it leaves.\<close>

definition replaced :: "pool_inner \<Rightarrow> signed_transaction \<Rightarrow> shell_hash list" where
  "replaced p s = (case hm_get (queue_of p (st_from s)) (tx_nonce (st_tx s)) of None \<Rightarrow> [] | Some h \<Rightarrow> [h])"

definition incoming_tip :: "signed_transaction \<Rightarrow> u64 \<Rightarrow> u64" where
  "incoming_tip s base_fee =
     miner_tip (tx_max_fee_per_gas (st_tx s)) (tx_max_priority_fee_per_gas (st_tx s)) base_fee"

lemma replaced_in_pool:
  "index_ok tx_id p \<Longrightarrow> distinct (replaced p s) \<and> set (replaced p s) \<subseteq> dom (hm_get (by_hash p))"
  using index_queue [of tx_id p "st_from s" "tx_nonce (st_tx s)"]
  by (cases "hm_get (queue_of p (st_from s)) (tx_nonce (st_tx s))") (auto simp: replaced_def)

lemma insert_locked_returns:
  assumes "index_ok tx_id p" "sums_ok p"
  shows "\<exists>r. insert_locked cfg v s hash chain_nonce n base_fee root p = Some r"
  using capacity_evictions_returns [OF assms, of "replaced p s" cfg "incoming_tip s base_fee" base_fee
      "st_from s" "tx_nonce (st_tx s)" n] replaced_in_pool [OF assms(1), of s]
  by (auto simp: insert_locked_def Let_def replaced_def incoming_tip_def split: option.splits sum.splits)

lemma insert_lockedE:
  assumes ok: "index_ok tx_id p" "sums_ok p"
    and ins: "insert_locked cfg v s hash chain_nonce n base_fee root p = Some (Inr (h', p'))"
  obtains evicted bytes seq' where
    "eviction_plan cfg p (incoming_tip s base_fee) base_fee (st_from s) (tx_nonce (st_tx s)) n
       (replaced p s) (evicted, bytes)"
    "checked_add (pool_seq p) 1 = Some seq'" "h' = hash" "hm_get (by_hash p) hash = None"
    "\<not> tx_nonce (st_tx s) < chain_nonce"
    "check_nonce_slot cfg p (st_tx s) (hm_get (queue_of p (st_from s)) (tx_nonce (st_tx s)))
       (next_expected_nonce (hm_get (by_sender p) (st_from s)) chain_nonce) = Inr ()"
    "replaced p s = [] \<Longrightarrow> hm_len (queue_of p (st_from s)) < max_per_sender cfg"
    "ensure_pending_balance_available p s v evicted = Inr ()"
    "p' = pool_store s hash seq' n root bytes (snd (remove_entries evicted p))"
proof -
  obtain r where r: "capacity_evictions cfg p (replaced p s) (incoming_tip s base_fee) base_fee
      (st_from s) (tx_nonce (st_tx s)) n = Some r"
    and plan: "\<And>plan. r = Inr plan \<Longrightarrow> eviction_plan cfg p (incoming_tip s base_fee) base_fee (st_from s)
      (tx_nonce (st_tx s)) n (replaced p s) plan"
    using capacity_evictions_returns [OF ok, of "replaced p s"] replaced_in_pool [OF ok(1), of s] by blast
  from ins r [unfolded replaced_def incoming_tip_def] obtain evicted bytes where e: "r = Inr (evicted, bytes)"
    by (cases r) (auto simp: insert_locked_def Let_def split: if_splits sum.splits)
  have "hm_get (by_hash p) hash = None" "\<not> tx_nonce (st_tx s) < chain_nonce"
    "check_nonce_slot cfg p (st_tx s) (hm_get (queue_of p (st_from s)) (tx_nonce (st_tx s)))
       (next_expected_nonce (hm_get (by_sender p) (st_from s)) chain_nonce) = Inr ()"
    "replaced p s = [] \<Longrightarrow> hm_len (queue_of p (st_from s)) < max_per_sender cfg"
    using ins r [unfolded replaced_def incoming_tip_def] e
    by (auto simp: insert_locked_def Let_def bind_simps hm_contains_def replaced_def
        split: if_splits sum.splits option.splits)
  moreover obtain seq' where "checked_add (pool_seq p) 1 = Some seq'" "h' = hash"
    "ensure_pending_balance_available p s v evicted = Inr ()"
    "p' = pool_store s hash seq' n root bytes (snd (remove_entries evicted p))"
    using ins r [unfolded replaced_def incoming_tip_def] e
    by (auto simp: insert_locked_def Let_def bind_simps split: if_splits sum.splits option.splits)
  ultimately show ?thesis using that plan [OF e] by blast
qed

lemma replaced_gone:
  assumes idx: "index_ok tx_id p" and "set (replaced p s) \<subseteq> set evicted"
  shows "hm_get (queue_of (snd (remove_entries evicted p)) (st_from s)) (tx_nonce (st_tx s)) = None"
  using assms(2) by (auto simp: remove_entries_queue [OF idx] replaced_def split: option.splits)

lemma removed_queue_room:
  assumes idx: "index_ok tx_id p" and lim: "limits_ok cfg p" and ev: "set (replaced p s) \<subseteq> set evicted"
    and room: "replaced p s = [] \<Longrightarrow> hm_len (queue_of p (st_from s)) < max_per_sender cfg"
  shows "hm_len (queue_of (snd (remove_entries evicted p)) (st_from s)) < max_per_sender cfg"
proof -
  let ?q = "snd (remove_entries evicted p)"
  have dom: "dom (hm_get (queue_of ?q (st_from s))) \<subseteq> dom (hm_get (queue_of p (st_from s)))"
    by (auto simp: remove_entries_queue [OF idx] split: option.splits if_splits)
  show ?thesis
  proof (cases "replaced p s")
    case Nil
    have "hm_len (queue_of ?q (st_from s)) \<le> hm_len (queue_of p (st_from s))"
      unfolding hm_len_card using dom by (intro card_mono) simp_all
    then show ?thesis using room [OF Nil] by simp
  next
    case (Cons h hs)
    have "tx_nonce (st_tx s) \<in> dom (hm_get (queue_of p (st_from s)))"
      using Cons by (auto simp: replaced_def split: option.splits)
    moreover have "tx_nonce (st_tx s) \<notin> dom (hm_get (queue_of ?q (st_from s)))" using replaced_gone [OF idx ev] by auto
    ultimately have "hm_len (queue_of ?q (st_from s)) < hm_len (queue_of p (st_from s))"
      unfolding hm_len_card using dom by (intro psubset_card_mono) auto
    then show ?thesis using lim by (simp add: limits_ok_def) (meson order_less_le_trans)
  qed
qed

lemma insert_locked_ok:
  assumes ok: "pool_ok cfg tx_id p" and id: "tx_id s = hash" and max: "tx_nonce (st_tx s) \<noteq> u_max"
    and ins: "insert_locked cfg v s hash chain_nonce n base_fee root p = Some (Inr (h', p'))"
  shows "pool_ok cfg tx_id p'"
proof -
  have idx: "index_ok tx_id p" and sums: "sums_ok p" and lim: "limits_ok cfg p"
    using ok by (simp_all add: pool_ok_def)
  from insert_lockedE [OF idx sums ins] obtain evicted bytes seq' where
    plan: "eviction_plan cfg p (incoming_tip s base_fee) base_fee (st_from s) (tx_nonce (st_tx s)) n
       (replaced p s) (evicted, bytes)" and seq: "checked_add (pool_seq p) 1 = Some seq'"
    and fresh: "hm_get (by_hash p) hash = None"
    and room: "replaced p s = [] \<Longrightarrow> hm_len (queue_of p (st_from s)) < max_per_sender cfg"
    and p': "p' = pool_store s hash seq' n root bytes (snd (remove_entries evicted p))" by metis
  let ?q = "snd (remove_entries evicted p)"
  have plan': "distinct evicted" "set evicted \<subseteq> dom (hm_get (by_hash p))" "set (replaced p s) \<subseteq> set evicted"
    "hm_len (by_hash p) - length evicted + 1 \<le> max_pool_size cfg"
    "bytes = total_bytes ?q + n" "bytes < usize_bound" "bytes \<le> max_pool_bytes cfg"
    using plan entry_sizes_le(2) [OF sums, of evicted] by (simp_all add: eviction_plan_def)
  have gone: "hm_get (queue_of ?q (st_from s)) (tx_nonce (st_tx s)) = None" by (rule replaced_gone [OF idx plan'(3)])
  have fresh': "hm_get (by_hash ?q) hash = None" using fresh by (simp add: remove_entries_get)
  have "pool_seq ?q < seq'"
    using seq by (simp add: remove_entries_seq checked_add_Some_iff word_less_nat_alt unat_plus_fits)
  then have "index_ok tx_id p'"
    unfolding p' using idx id fresh' gone max by (intro pool_store_index) (simp_all add: remove_entries_keeps)
  moreover have "sums_ok p'"
    unfolding p' using idx sums fresh' seq plan'(5,6)
    by (intro pool_store_sums [where tx_id = tx_id]) (simp_all add: remove_entries_keeps remove_entries_seq)
  moreover have "hm_len (queue_of p' a) \<le> max_per_sender cfg" for a
  proof -
    have le: "hm_len (queue_of ?q a) \<le> max_per_sender cfg" for a
      using remove_entries_keeps(3) [OF lim, of evicted] by (simp add: limits_ok_def)
    have "hm_len (queue_of ?q (st_from s)) < max_per_sender cfg"
      using removed_queue_room [OF idx lim plan'(3)] room by blast
    then show ?thesis using le [of a] gone by (simp add: p' pool_store_queue hm_len_insert)
  qed
  moreover have "hm_len (by_hash p') \<le> max_pool_size cfg"
    using plan'(4) fresh' remove_entries_count [OF plan'(1,2)] by (simp add: p' pool_store_fields hm_len_insert)
  ultimately show ?thesis
    using plan'(7) by (simp add: pool_ok_def limits_ok_def p' pool_store_fields)
qed

section \<open>Every operation\<close>

lemma pool_insertD:
  assumes "pool_insert cfg ce evm sel rd s p = Some (Inr (h, p'))"
  obtains n base_fee root chain_nonce where
    "validate_stateless cfg ce evm sel rd s = Inr (n, base_fee, root)"
    "check_balance_floor (rd_view rd) s = Inr ()" "tx_nonce (st_tx s) \<noteq> u_max"
    "get_nonce (rd_view rd) (st_from s) = Inr chain_nonce"
    "insert_locked cfg (rd_view rd) s (signed_hash (ce_blake3 ce) (ce_rlp ce) s) chain_nonce n base_fee root p
       = Some (Inr (h, p'))"
  using assms by (auto simp: pool_insert_def bind_simps split: sum.splits prod.splits)

text \<open>The steps of a pool: what callers and the node do, with the reads each of them makes.\<close>

datatype pool_event =
    EvInsert crypto_env evm_env governance_selectors pool_reads signed_transaction
  | EvRemove shell_hash
  | EvRemoveWithDescendants shell_hash
  | EvRemoveBatch "shell_hash list"
  | EvPruneNonces "(address \<times> u64) list"
  | EvPruneRoots "(address, shell_hash) hashmap"
  | EvClear

inductive pool_step :: "mempool_config \<Rightarrow> (u8 list \<Rightarrow> shell_hash) \<Rightarrow> rlp_codec \<Rightarrow> pool_event
    \<Rightarrow> pool_inner \<Rightarrow> pool_inner \<Rightarrow> bool" for cfg blake3 R where
  step_accept: "ce_blake3 ce = blake3 \<Longrightarrow> ce_rlp ce = R \<Longrightarrow>
     pool_insert cfg ce evm sel rd s p = Some (Inr (h, p')) \<Longrightarrow>
     pool_step cfg blake3 R (EvInsert ce evm sel rd s) p p'"
| step_reject: "pool_insert cfg ce evm sel rd s p = Some (Inl e) \<Longrightarrow>
     pool_step cfg blake3 R (EvInsert ce evm sel rd s) p p"
| step_remove: "pool_step cfg blake3 R (EvRemove h) p (snd (pool_remove h p))"
| step_remove_with_descendants:
    "pool_step cfg blake3 R (EvRemoveWithDescendants h) p (snd (remove_with_descendants h p))"
| step_remove_batch: "pool_step cfg blake3 R (EvRemoveBatch hs) p (remove_batch hs p)"
| step_prune_nonces: "pool_step cfg blake3 R (EvPruneNonces ns) p (snd (prune_stale_nonces ns p))"
| step_prune_roots: "pool_step cfg blake3 R (EvPruneRoots rs) p (snd (prune_replaced_roots rs p))"
| step_clear: "pool_step cfg blake3 R EvClear p (pool_clear p)"

inductive pool_reachable :: "mempool_config \<Rightarrow> (u8 list \<Rightarrow> shell_hash) \<Rightarrow> rlp_codec \<Rightarrow> pool_inner \<Rightarrow> bool"
  for cfg blake3 R where
  reach_new: "pool_reachable cfg blake3 R pool_new"
| reach_step: "pool_reachable cfg blake3 R p \<Longrightarrow> pool_step cfg blake3 R ev p p' \<Longrightarrow>
     pool_reachable cfg blake3 R p'"

inductive_cases pool_stepE: "pool_step cfg blake3 R ev p p'"

lemma pool_empty_ok:
  assumes "by_hash p = hm_new" "by_sender p = hm_new" "by_priority p = hm_new" "total_bytes p = 0"
    "reserved_by_account p = hm_new"
  shows "pool_ok cfg tx_id p"
  using assms
  by (simp add: pool_ok_def index_ok_def entries_ok_def seqs_distinct_def queues_ok_def queues_nonempty_def
      priorities_ok_def sums_ok_def limits_ok_def pool_sum_def hm_values_def queue_of_def reserved_def
      reserved_nonzero_def usize_bound_def)

lemma remove_entries_ok: "pool_ok cfg tx_id p \<Longrightarrow> pool_ok cfg tx_id (snd (remove_entries hs p))"
  by (simp add: pool_ok_def remove_entries_keeps)

lemma reset_seq_ok:
  assumes "pool_ok cfg tx_id p"
  shows "pool_ok cfg tx_id (reset_seq p)"
proof (cases "hm_len (by_hash p) = 0")
  case True
  then have none: "hm_get (by_hash p) h = None" for h by (simp add: hm_len_card dom_eq_empty_conv)
  have "entries_ok tx_id (p\<lparr>pool_seq := 0\<rparr>)" by (simp add: entries_ok_def none)
  moreover have "seqs_distinct (p\<lparr>pool_seq := 0\<rparr>) = seqs_distinct p" "queues_ok (p\<lparr>pool_seq := 0\<rparr>) = queues_ok p"
    "queues_nonempty (p\<lparr>pool_seq := 0\<rparr>) = queues_nonempty p" "priorities_ok (p\<lparr>pool_seq := 0\<rparr>) = priorities_ok p"
    "sums_ok (p\<lparr>pool_seq := 0\<rparr>) = sums_ok p" "limits_ok cfg (p\<lparr>pool_seq := 0\<rparr>) = limits_ok cfg p"
    by (simp_all add: seqs_distinct_def queues_ok_def queues_nonempty_def priorities_ok_def sums_ok_def
        limits_ok_def queue_of_def pool_sum_def reserved_def reserved_nonzero_def)
  ultimately show ?thesis using assms True by (simp add: reset_seq_def pool_ok_def index_ok_def)
qed (simp add: reset_seq_def assms)

lemma removals_snd:
  "snd (remove_each_with_descendants (h # hs) p) =
     snd (remove_each_with_descendants hs (snd (remove_entries (entry_and_descendant_hashes p h) p)))"
  "snd (pool_remove h p) = reset_seq (snd (remove_entry h p))"
  "snd (remove_with_descendants h p) =
     reset_seq (snd (remove_entries (entry_and_descendant_hashes p h) p))"
  by (simp_all add: remove_entry_and_descendants_def pool_remove_def remove_with_descendants_def case_prod_unfold)

lemma remove_each_with_descendants_ok:
  "pool_ok cfg tx_id p \<Longrightarrow> pool_ok cfg tx_id (snd (remove_each_with_descendants hs p))"
proof (induction hs arbitrary: p)
  case (Cons h hs)
  then show ?case unfolding removals_snd by (intro Cons.IH remove_entries_ok)
qed simp

lemma removals_ok:
  assumes "pool_ok cfg tx_id p"
  shows "pool_ok cfg tx_id (snd (pool_remove h p))"
    "pool_ok cfg tx_id (snd (remove_with_descendants h p))"
    "pool_ok cfg tx_id (remove_batch hs p)"
    "pool_ok cfg tx_id (snd (prune_stale_nonces ns p))"
    "pool_ok cfg tx_id (snd (prune_replaced_roots rs p))"
    "pool_ok cfg tx_id (pool_clear p)"
proof -
  show "pool_ok cfg tx_id (snd (pool_remove h p))"
    unfolding removals_snd using remove_entries_ok [OF assms, of "[h]"] by (intro reset_seq_ok) simp
  show "pool_ok cfg tx_id (snd (remove_with_descendants h p))"
    unfolding removals_snd by (intro reset_seq_ok remove_entries_ok assms)
  show "pool_ok cfg tx_id (remove_batch hs p)"
    unfolding remove_batch_def by (intro reset_seq_ok remove_entries_ok assms)
  show "pool_ok cfg tx_id (snd (prune_stale_nonces ns p))"
    unfolding prune_stale_nonces_def Let_def snd_conv by (intro reset_seq_ok remove_entries_ok assms)
  show "pool_ok cfg tx_id (snd (prune_replaced_roots rs p))"
    unfolding prune_replaced_roots_def Let_def case_prod_unfold snd_conv
    by (intro reset_seq_ok remove_each_with_descendants_ok assms)
  show "pool_ok cfg tx_id (pool_clear p)" by (rule pool_empty_ok) (simp_all add: pool_clear_def)
qed

lemma pool_step_ok:
  assumes "pool_step cfg blake3 R ev p p'" and "pool_ok cfg (signed_hash blake3 R) p"
  shows "pool_ok cfg (signed_hash blake3 R) p'"
  using assms(1)
proof cases
  case (step_accept ce evm sel rd s h)
  then show ?thesis by (elim pool_insertD) (rule insert_locked_ok [OF assms(2)], simp_all)
qed (simp_all add: assms(2) removals_ok)

lemma reachable_ok: "pool_reachable cfg blake3 R p \<Longrightarrow> pool_ok cfg (signed_hash blake3 R) p"
proof (induction rule: pool_reachable.induct)
  case reach_new
  then show ?case by (rule pool_empty_ok) (simp_all add: pool_new_def)
qed (rule pool_step_ok)

end
