(* ===== verification/Tx_Pool_Admission.thy ===== *)
theory Tx_Pool_Admission
  imports Tx_Pool_Invariant
begin

text \<open>
  What admission to the transaction pool guarantees on every pool that the operations reach: it
  always returns, it reserves no more than the payers own, it evicts only what is outbid, and the
  nonce it reports is the first gap after the chain's.
\<close>

section \<open>Exact costs\<close>

definition exact_cost :: "signed_transaction \<Rightarrow> address \<Rightarrow> nat" where
  "exact_cost s a =
     (if a = st_from s then unat (tx_value (st_tx s)) else 0)
     + (if a = gas_payer s then max_gas_cost_nat (st_tx s) else 0)"

lemma unat_pool_max_gas_cost: "unat (pool_max_gas_cost s) = max_gas_cost_nat (st_tx s)"
proof -
  obtain c where "max_transaction_gas_cost (st_tx s) = Some c" "unat c = max_gas_cost_nat (st_tx s)"
    using unat_max_transaction_gas_cost by blast
  then show ?thesis
    by (auto simp: pool_max_gas_cost_def max_transaction_gas_cost_def add_or_max_def Let_def split: option.splits)
qed

lemma balance_floor_exact:
  assumes "check_balance_floor v s = Inr ()"
  shows "unat (reservation_cost_for s a) = exact_cost s a"
proof (cases "gas_payer s = st_from s")
  case True
  then have "unat (pool_max_gas_cost s) + unat (tx_value (st_tx s)) < 2 ^ 256"
    using assms by (auto simp: check_balance_floor_def Let_def bind_simps checked_add_Some_iff split: option.splits)
  then have "unat (add_or_max (pool_max_gas_cost s) (tx_value (st_tx s)))
      = unat (pool_max_gas_cost s) + unat (tx_value (st_tx s))"
    by (simp add: add_or_max_def checked_add_def word_sum_fits unat_plus_fits)
  then show ?thesis
    using True by (simp add: cost_for_sender_pays exact_cost_def unat_pool_max_gas_cost)
next
  case False
  then show ?thesis by (simp add: cost_for_sponsored exact_cost_def unat_pool_max_gas_cost)
qed

section \<open>Where transactions come from\<close>

lemma reset_seq_by_hash [simp]: "by_hash (reset_seq p) = by_hash p"
  by (simp add: reset_seq_def)

lemma remove_each_get:
  "hm_get (by_hash (snd (remove_each_with_descendants hs p))) h = Some e \<Longrightarrow> hm_get (by_hash p) h = Some e"
proof (induction hs arbitrary: p)
  case (Cons k hs)
  from Cons.IH [OF Cons.prems [unfolded removals_snd]] show ?case
    by (simp add: remove_entries_get split: if_splits)
qed simp

lemma removals_shrink:
  "hm_get (by_hash (snd (pool_remove k p))) h = Some e \<Longrightarrow> hm_get (by_hash p) h = Some e"
  "hm_get (by_hash (snd (remove_with_descendants k p))) h = Some e \<Longrightarrow> hm_get (by_hash p) h = Some e"
  "hm_get (by_hash (remove_batch hs p)) h = Some e \<Longrightarrow> hm_get (by_hash p) h = Some e"
  "hm_get (by_hash (snd (prune_stale_nonces ns p))) h = Some e \<Longrightarrow> hm_get (by_hash p) h = Some e"
  "hm_get (by_hash (snd (prune_replaced_roots rs p))) h = Some e \<Longrightarrow> hm_get (by_hash p) h = Some e"
  "hm_get (by_hash (pool_clear p)) h = Some e \<Longrightarrow> hm_get (by_hash p) h = Some e"
proof -
  show "hm_get (by_hash (snd (prune_replaced_roots rs p))) h = Some e \<Longrightarrow> hm_get (by_hash p) h = Some e"
    unfolding prune_replaced_roots_def Let_def case_prod_unfold snd_conv reset_seq_by_hash by (rule remove_each_get)
qed (simp_all add: removals_snd remove_entry_get remove_batch_def prune_stale_nonces_def Let_def
      remove_entries_get pool_clear_def split: if_splits)

text \<open>The pool after an accepted transaction.\<close>

lemma pool_insert_effect:
  assumes ok: "pool_ok cfg (signed_hash (ce_blake3 ce) (ce_rlp ce)) p"
    and ins: "pool_insert cfg ce evm sel rd s p = Some (Inr (h, p'))"
  obtains n base_fee root chain_nonce evicted bytes seq' where
    "validate_stateless cfg ce evm sel rd s = Inr (n, base_fee, root)"
    "check_balance_floor (rd_view rd) s = Inr ()" "get_nonce (rd_view rd) (st_from s) = Inr chain_nonce"
    "tx_nonce (st_tx s) \<noteq> u_max"
    "eviction_plan cfg p (incoming_tip s base_fee) base_fee (st_from s) (tx_nonce (st_tx s)) n
       (replaced p s) (evicted, bytes)"
    "h = signed_hash (ce_blake3 ce) (ce_rlp ce) s" "hm_get (by_hash p) h = None"
    "checked_add (pool_seq p) 1 = Some seq'"
    "check_nonce_slot cfg p (st_tx s) (hm_get (queue_of p (st_from s)) (tx_nonce (st_tx s)))
       (next_expected_nonce (hm_get (by_sender p) (st_from s)) chain_nonce) = Inr ()"
    "ensure_pending_balance_available p s (rd_view rd) evicted = Inr ()"
    "p' = pool_store s h seq' n root bytes (snd (remove_entries evicted p))"
proof -
  from ins obtain n base_fee root chain_nonce where
    a: "validate_stateless cfg ce evm sel rd s = Inr (n, base_fee, root)"
      "check_balance_floor (rd_view rd) s = Inr ()" "tx_nonce (st_tx s) \<noteq> u_max"
      "get_nonce (rd_view rd) (st_from s) = Inr chain_nonce"
      "insert_locked cfg (rd_view rd) s (signed_hash (ce_blake3 ce) (ce_rlp ce) s) chain_nonce n base_fee root p
       = Some (Inr (h, p'))" by (rule pool_insertD)
  have "index_ok (signed_hash (ce_blake3 ce) (ce_rlp ce)) p" "sums_ok p" using ok by (simp_all add: pool_ok_def)
  from insert_lockedE [OF this a(5)] show ?thesis using that [OF a(1,2,4,3)] by metis
qed

lemma pool_step_entries:
  assumes step: "pool_step cfg blake3 R ev p p'" and ok: "pool_ok cfg (signed_hash blake3 R) p"
    and e: "hm_get (by_hash p') h = Some e"
  shows "hm_get (by_hash p) h = Some e \<or> (\<exists>v. check_balance_floor v (pe_tx e) = Inr ())"
  using step
proof cases
  case (step_accept ce evm sel rd s h')
  then obtain n root bytes seq' evicted where
    "check_balance_floor (rd_view rd) s = Inr ()"
    "p' = pool_store s h' seq' n root bytes (snd (remove_entries evicted p))"
    using ok by (elim pool_insert_effect [rotated]) auto
  then show ?thesis using e by (auto simp: pool_store_fields remove_entries_get new_entry_def split: if_splits)
next
  case (step_remove k)
  then show ?thesis using e removals_shrink(1) by blast
next
  case (step_remove_with_descendants k)
  then show ?thesis using e removals_shrink(2) by blast
next
  case (step_remove_batch hs)
  then show ?thesis using e removals_shrink(3) by blast
next
  case (step_prune_nonces ns)
  then show ?thesis using e removals_shrink(4) by blast
next
  case (step_prune_roots rs)
  then show ?thesis using e removals_shrink(5) by blast
next
  case step_clear
  then show ?thesis using e removals_shrink(6) by blast
qed (use e in simp)

lemma reachable_costs:
  assumes "pool_reachable cfg blake3 R p"
  shows "hm_get (by_hash p) h = Some e \<Longrightarrow> unat (reservation_cost_for (pe_tx e) a) = exact_cost (pe_tx e) a"
  using assms
proof (induction arbitrary: h e rule: pool_reachable.induct)
  case reach_new
  then show ?case by (simp add: pool_new_def)
next
  case (reach_step p ev p')
  then show ?case
    using pool_step_entries [OF reach_step.hyps(2) reachable_ok [OF reach_step.hyps(1)] reach_step.prems]
      balance_floor_exact by blast
qed

section \<open>Consistency and progress\<close>

text \<open>
  C17: every sequence of admissions, removals and prunings keeps the pool well formed: the indexes by
  hash, by sender and nonce, and by priority name the same transactions, each filed under its own
  identifier; the byte count is the sum of their sizes; the reservation of every account is the sum
  of their costs, carries included; and the limits on count, bytes and transactions per sender hold.
\<close>

theorem pool_stays_well_formed:
  assumes "pool_reachable cfg blake3 R p"
  shows "index_ok (signed_hash blake3 R) p \<and> sums_ok p \<and> limits_ok cfg p"
  using reachable_ok [OF assms] by (simp add: pool_ok_def)

text \<open>
  C18: admission always returns: on every reachable pool the loop that plans the evictions ends,
  whatever the transaction, the state of the chain and the limits.
\<close>

theorem admission_always_returns:
  assumes "pool_reachable cfg blake3 R p"
  shows "\<exists>r. pool_insert cfg ce evm sel rd s p = Some r"
proof -
  have "index_ok (signed_hash blake3 R) p" "sums_ok p"
    using reachable_ok [OF assms] by (simp_all add: pool_ok_def)
  then show ?thesis
    using insert_locked_returns by (simp add: pool_insert_def split: sum.split prod.split)
qed

section \<open>Reservations\<close>

lemma ensure_balances_each:
  "ensure_balances p v excluded costs = Inr () \<Longrightarrow> (a, c) \<in> set costs \<Longrightarrow> c \<noteq> 0 \<Longrightarrow>
     \<exists>b. get_balance v a = Inr b \<and>
       (let t = rt_add (reserved_total_excluding p a excluded) c in
        rt_overflow_units t = 0 \<and> rt_low t \<le> b)"
proof (induction costs)
  case (Cons ac costs)
  obtain a' c' where ac: "ac = (a', c')" by (cases ac)
  show ?case
  proof (cases "(a', c') = (a, c)")
    case True
    then show ?thesis
      using Cons.prems
      by (auto simp: ac Let_def bind_simps rt_saturating_u256_def not_less split: if_splits)
  next
    case False
    then show ?thesis
      using Cons by (auto simp: ac Let_def bind_simps split: if_splits)
  qed
qed simp

lemma exact_cost_listed:
  assumes "unat (reservation_cost_for s a) = exact_cost s a" and "exact_cost s a \<noteq> 0"
  shows "\<exists>c. (a, c) \<in> set (reservation_costs s) \<and> c \<noteq> 0 \<and> unat c = exact_cost s a"
proof (cases "gas_payer s = st_from s")
  case True
  then have "a = st_from s" using assms(2) by (auto simp: exact_cost_def split: if_splits)
  then show ?thesis
    using assms True by (intro exI [of _ "reservation_cost_for s a"])
      (auto simp: cost_for_sender_pays reservation_costs_def)
next
  case False
  then have "a = st_from s \<or> a = gas_payer s" using assms(2) by (auto simp: exact_cost_def split: if_splits)
  then show ?thesis
    using assms False by (intro exI [of _ "reservation_cost_for s a"])
      (auto simp: cost_for_sponsored reservation_costs_def)
qed

lemma seq_bound: "checked_add q 1 = Some q' \<Longrightarrow> n \<le> unat q \<Longrightarrow> n * (2 ^ 256 - 1) < (2 ^ 64 - 1) * 2 ^ 256" for q :: u64
proof -
  assume "checked_add q 1 = Some q'" "n \<le> unat q"
  then have "n \<le> 2 ^ 64 - 2" by (simp add: checked_add_Some_iff)
  then have "n * (2 ^ 256 - 1) \<le> (2 ^ 64 - 2) * (2 ^ 256 - 1)" by (rule mult_le_mono1)
  also have "\<dots> < (2 ^ 64 - 1) * 2 ^ 256" by simp
  finally show ?thesis .
qed

lemma reachable_reserved:
  assumes "pool_reachable cfg blake3 R p"
  shows "pool_sum p (\<lambda>e. exact_cost (pe_tx e) a) = reserved p a"
proof -
  have "exact_cost (pe_tx e) a = unat (reservation_cost_for (pe_tx e) a)" if "e \<in> set (hm_values (by_hash p))" for e
    using that reachable_costs [OF assms] by (auto simp: set_hm_values)
  then have "pool_sum p (\<lambda>e. exact_cost (pe_tx e) a) = pool_sum p (\<lambda>e. unat (reservation_cost_for (pe_tx e) a))"
    unfolding pool_sum_def by (intro arg_cong [where f = sum_list] map_cong refl)
  then show ?thesis using reachable_ok [OF assms] by (simp add: pool_ok_def sums_ok_def)
qed

text \<open>
  C13: the pool never promises money twice. When a transaction is accepted, the balance of every account
  that pays for it covers, in exact arithmetic, the maximal gas cost and the value of all
  transactions of the new pool that this account pays for: as a sender, as a paymaster of others,
  or both.
\<close>

theorem pool_never_overcommits:
  assumes reach: "pool_reachable cfg blake3 R p" and ce: "ce_blake3 ce = blake3" "ce_rlp ce = R"
    and ins: "pool_insert cfg ce evm sel rd s p = Some (Inr (h, p'))" and pays: "exact_cost s a \<noteq> 0"
  shows "\<exists>b. get_balance (rd_view rd) a = Inr b \<and> pool_sum p' (\<lambda>e. exact_cost (pe_tx e) a) \<le> unat b"
proof -
  have step: "pool_step cfg blake3 R (EvInsert ce evm sel rd s) p p'" using ce ins by (rule step_accept)
  have reach': "pool_reachable cfg blake3 R p'" using reach step by (rule reach_step)
  have ok: "pool_ok cfg (signed_hash (ce_blake3 ce) (ce_rlp ce)) p" using reachable_ok [OF reach] ce by simp
  from pool_insert_effect [OF ok ins] obtain n base_fee root evicted bytes seq' where
    floor: "check_balance_floor (rd_view rd) s = Inr ()" and seq: "checked_add (pool_seq p) 1 = Some seq'"
    and plan: "eviction_plan cfg p (incoming_tip s base_fee) base_fee (st_from s) (tx_nonce (st_tx s)) n
       (replaced p s) (evicted, bytes)"
    and bal: "ensure_pending_balance_available p s (rd_view rd) evicted = Inr ()"
    and p': "p' = pool_store s h seq' n root bytes (snd (remove_entries evicted p))" by metis
  let ?q = "snd (remove_entries evicted p)"
  have ev: "distinct evicted" "set evicted \<subseteq> dom (hm_get (by_hash p))" using plan by (simp_all add: eviction_plan_def)
  have sums: "sums_ok p" and q: "index_ok (signed_hash (ce_blake3 ce) (ce_rlp ce)) ?q" "sums_ok ?q"
    using ok by (simp_all add: pool_ok_def remove_entries_keeps)
  have small: "reserved ?q b < (2 ^ 64 - 1) * 2 ^ 256" for b
    using reserved_bound [OF q(2), of b] seq_bound [OF seq, of "hm_len (by_hash ?q)"] count_le_seq [OF q(1)]
    by (simp add: remove_entries_seq)
  obtain c where c: "(a, c) \<in> set (reservation_costs s)" "c \<noteq> 0" "unat c = exact_cost s a"
    using exact_cost_listed [OF balance_floor_exact [OF floor] pays] by blast
  let ?t = "reserved_total_excluding p a evicted"
  obtain b where b: "get_balance (rd_view rd) a = Inr b" "rt_overflow_units (rt_add ?t c) = 0" "rt_low (rt_add ?t c) \<le> b"
    using ensure_balances_each [OF bal [unfolded ensure_pending_balance_available_def] c(1,2)] by (auto simp: Let_def)
  have t: "rt_value ?t = reserved ?q a" by (rule reserved_total_excluding_exact [OF sums ev])
  then have "rt_overflow_units ?t \<noteq> u_max" using small [of a] by (intro rt_overflow_not_max) simp
  then have "rt_value (rt_add ?t c) = reserved ?q a + exact_cost s a" using t c(3) by (simp add: rt_value_add)
  moreover have "reserved p' a = reserved ?q a + unat (reservation_cost_for s a)"
    using reserved_add(1) [OF small] reserved_frame(1) [of p' "add_reservations ?q s"]
    by (simp add: p' pool_store_fields)
  moreover have "pool_sum p' (\<lambda>e. exact_cost (pe_tx e) a) = reserved p' a" by (rule reachable_reserved [OF reach'])
  ultimately have "pool_sum p' (\<lambda>e. exact_cost (pe_tx e) a) = rt_value (rt_add ?t c)"
    using balance_floor_exact [OF floor, of a] by simp
  also have "\<dots> \<le> unat b" using b(2,3) by (simp add: rt_value_def word_le_nat_alt)
  finally show ?thesis using b(1) by blast
qed

section \<open>Replacement and eviction\<close>

lemma checked_add_exact: "checked_add a b = Some c \<Longrightarrow> unat c = unat a + unat b"
  by (auto simp: checked_add_Some_iff unat_plus_fits)

lemma checked_mul_exact: "checked_mul a b = Some c \<Longrightarrow> unat c = unat a * unat b"
  for a b :: "'a::len word"
proof -
  assume "checked_mul a b = Some c"
  then have "uint a * uint b < 2 ^ LENGTH('a)" and c: "c = a * b" by (auto simp: checked_mul_def split: if_splits)
  moreover have "uint a * uint b = int (unat a * unat b)" "2 ^ LENGTH('a) = int (2 ^ LENGTH('a))" by simp_all
  ultimately have "unat a * unat b < 2 ^ LENGTH('a)" by (simp only: of_nat_less_iff)
  then show "unat c = unat a * unat b" unfolding c by (rule unat_mult_fits)
qed

lemma bumped_fee_fits:
  fixes x :: u128
  assumes "x \<le> ucast (u_max :: u64)"
  shows "unat (ucast x :: u64) = unat x"
proof -
  have "unat x \<le> unat (ucast (u_max :: u64) :: u128)" using assms by (simp only: word_le_nat_alt)
  then have "unat x < 2 ^ 64" by (simp add: unat_u_max)
  then show ?thesis by (simp add: unsigned_ucast_eq take_bit_nat_eq_self_iff)
qed

lemma unat_max: "unat (max a b) = max (unat a) (unat b)"
  by (simp add: max_def word_le_nat_alt)

lemma replacement_fee_required_cases:
  assumes "replacement_fee_required old bump = Some r" "bump \<noteq> 0"
  obtains m num n mb where "checked_add (ucast bump :: u128) 100 = Some m" "checked_mul (ucast old) m = Some num"
    "checked_add num 99 = Some n" "checked_add (ucast old :: u128) 1 = Some mb"
    "max (n div 100) mb \<le> ucast (u_max :: u64)" "r = ucast (max (n div 100) mb)"
  using assms unfolding replacement_fee_required_def Let_def
  by (auto simp only: bind_eq_Some_conv if_False option.inject split: if_splits)

lemma replacement_fee_required_bump:
  assumes "replacement_fee_required old bump = Some r"
  shows "unat old * (100 + unat bump) \<le> 100 * unat r \<and> (bump \<noteq> 0 \<longrightarrow> unat old < unat r)"
proof (cases "bump = 0")
  case True
  then show ?thesis using assms by (simp add: replacement_fee_required_def)
next
  case False
  from replacement_fee_required_cases [OF assms False] obtain m num n mb where
    m: "checked_add (ucast bump :: u128) 100 = Some m" and num: "checked_mul (ucast old) m = Some num"
    and n: "checked_add num 99 = Some n" and mb: "checked_add (ucast old :: u128) 1 = Some mb"
    and fits: "max (n div 100) mb \<le> ucast (u_max :: u64)" and r: "r = ucast (max (n div 100) mb)" .
  have "unat n = unat old * (unat bump + 100) + 99"
    by (simp add: checked_add_exact [OF n] checked_mul_exact [OF num] checked_add_exact [OF m] unat_ucast_u128)
  moreover have "unat mb = unat old + 1" by (simp add: checked_add_exact [OF mb] unat_ucast_u128)
  moreover have "unat r = max (unat n div 100) (unat mb)"
    unfolding r bumped_fee_fits [OF fits] unat_max by (simp add: unat_div)
  ultimately have "unat n = unat old * (100 + unat bump) + 99" "unat n div 100 \<le> unat r" "unat old < unat r"
    by (simp_all add: add.commute)
  then show ?thesis by linarith
qed

definition pays_bump :: "u64 \<Rightarrow> u64 \<Rightarrow> u64 \<Rightarrow> bool" where
  "pays_bump bump old new \<longleftrightarrow>
     unat old * (100 + unat bump) \<le> 100 * unat new \<and> (bump \<noteq> 0 \<longrightarrow> old < new)"

lemma check_fee_pairs_bump:
  "check_fee_pairs bump pairs = Inr () \<Longrightarrow> (old, new) \<in> set pairs \<Longrightarrow> pays_bump bump old new"
proof (induction pairs)
  case (Cons x pairs)
  obtain o' n' where x: "x = (o', n')" by (cases x)
  with Cons.prems(1) obtain r where r: "replacement_fee_required o' bump = Some r" "\<not> n' < r"
    "check_fee_pairs bump pairs = Inr ()" by (auto split: option.splits if_splits)
  have "pays_bump bump o' n'"
    using replacement_fee_required_bump [OF r(1)] r(2)
    by (auto simp: pays_bump_def word_less_nat_alt)
  then show ?case using Cons r(3) x by auto
qed simp

text \<open>A transaction gives way to one at the same nonce that raises each of its fees.\<close>

definition replaced_by :: "mempool_config \<Rightarrow> signed_transaction \<Rightarrow> pool_entry \<Rightarrow> bool" where
  "replaced_by cfg s e \<longleftrightarrow>
     entry_sender e = st_from s \<and> entry_nonce e = tx_nonce (st_tx s)
     \<and> pays_bump (replacement_fee_bump_pct cfg) (tx_max_priority_fee_per_gas (st_tx (pe_tx e)))
         (tx_max_priority_fee_per_gas (st_tx s))
     \<and> pays_bump (replacement_fee_bump_pct cfg) (tx_max_fee_per_gas (st_tx (pe_tx e))) (tx_max_fee_per_gas (st_tx s))
     \<and> (\<forall>f. tx_max_fee_per_blob_gas (st_tx (pe_tx e)) = Some f \<longrightarrow>
          pays_bump (replacement_fee_bump_pct cfg) f (blob_fee_or_zero (st_tx s)))"

lemma replaced_pays:
  assumes ok: "index_ok tx_id p"
    and slot: "check_nonce_slot cfg p (st_tx s) (hm_get (queue_of p (st_from s)) (tx_nonce (st_tx s))) n = Inr ()"
    and k: "k \<in> set (replaced p s)"
  shows "\<exists>e. hm_get (by_hash p) k = Some e \<and> replaced_by cfg s e"
proof -
  have q: "hm_get (queue_of p (st_from s)) (tx_nonce (st_tx s)) = Some k"
    using k by (auto simp: replaced_def split: option.splits)
  then obtain e where e: "hm_get (by_hash p) k = Some e" "entry_sender e = st_from s" "entry_nonce e = tx_nonce (st_tx s)"
    using index_queue [OF ok] by blast
  let ?pairs = "[(tx_max_priority_fee_per_gas (st_tx (pe_tx e)), tx_max_priority_fee_per_gas (st_tx s)),
      (tx_max_fee_per_gas (st_tx (pe_tx e)), tx_max_fee_per_gas (st_tx s))]
    @ (case tx_max_fee_per_blob_gas (st_tx (pe_tx e)) of None \<Rightarrow> [] | Some f \<Rightarrow> [(f, blob_fee_or_zero (st_tx s))])"
  have "check_fee_pairs (replacement_fee_bump_pct cfg) ?pairs = Inr ()"
    using slot q e(1) by (simp add: check_nonce_slot_def Let_def del: check_fee_pairs.simps)
  note pays = check_fee_pairs_bump [OF this]
  have "replaced_by cfg s e" unfolding replaced_by_def using e(2, 3) by (auto intro!: pays)
  then show ?thesis using e(1) by blast
qed

lemma validate_stateless_base_fee:
  "validate_stateless cfg ce evm sel rd s = Inr (n, base_fee, root) \<Longrightarrow> head_base_fee rd (st_tx s) = Inr base_fee"
  by (auto simp: validate_stateless_def Let_def bind_simps split: if_splits)

text \<open>
  C16: what an admission does to the pool. The accepted transaction is stored under its hash, which the
  pool did not hold, and every other transaction stays unless it is evicted. Evicted is only a
  transaction at the same nonce of the same sender whose fees the new one raises by the configured
  percentage, or one that belongs to or depends on a transaction that, at the base fee of the head,
  tips less than the new one. The transactions of the sender with the same or an earlier nonce, which
  the new one needs, are exempt from this second kind of eviction and may stay with a lower tip; among
  all others a transaction that stays tips at least as much as the one the eviction is due to.
\<close>

theorem admission_evicts_only_outbid:
  assumes reach: "pool_reachable cfg blake3 R p" and ce: "ce_blake3 ce = blake3" "ce_rlp ce = R"
    and ins: "pool_insert cfg ce evm sel rd s p = Some (Inr (h, p'))"
  shows "\<exists>base_fee evicted new.
    head_base_fee rd (st_tx s) = Inr base_fee \<and> h = signed_hash blake3 R s \<and> pe_tx new = s
    \<and> hm_get (by_hash p) h = None
    \<and> (\<forall>k. hm_get (by_hash p') k = (if k = h then Some new else if k \<in> set evicted then None else hm_get (by_hash p) k))
    \<and> (\<forall>k \<in> set evicted. (\<exists>e. hm_get (by_hash p) k = Some e \<and> replaced_by cfg s e)
         \<or> outbid p (incoming_tip s base_fee) base_fee (st_from s) (tx_nonce (st_tx s)) evicted k)"
proof -
  have ok: "pool_ok cfg (signed_hash (ce_blake3 ce) (ce_rlp ce)) p" using reachable_ok [OF reach] ce by simp
  from pool_insert_effect [OF ok ins] obtain n base_fee root chain_nonce evicted bytes seq' where
    valid: "validate_stateless cfg ce evm sel rd s = Inr (n, base_fee, root)"
    and h: "h = signed_hash (ce_blake3 ce) (ce_rlp ce) s" "hm_get (by_hash p) h = None"
    and plan: "eviction_plan cfg p (incoming_tip s base_fee) base_fee (st_from s) (tx_nonce (st_tx s)) n
       (replaced p s) (evicted, bytes)"
    and slot: "check_nonce_slot cfg p (st_tx s) (hm_get (queue_of p (st_from s)) (tx_nonce (st_tx s)))
       (next_expected_nonce (hm_get (by_sender p) (st_from s)) chain_nonce) = Inr ()"
    and p': "p' = pool_store s h seq' n root bytes (snd (remove_entries evicted p))" by metis
  have index: "index_ok (signed_hash (ce_blake3 ce) (ce_rlp ce)) p" using ok by (simp add: pool_ok_def)
  have why: "(\<exists>e. hm_get (by_hash p) k = Some e \<and> replaced_by cfg s e)
      \<or> outbid p (incoming_tip s base_fee) base_fee (st_from s) (tx_nonce (st_tx s)) evicted k"
    if "k \<in> set evicted" for k
    using that plan replaced_pays [OF index slot, of k] by (auto simp: eviction_plan_def)
  have "hm_get (by_hash p') k =
      (if k = h then Some (new_entry s (pool_seq (snd (remove_entries evicted p))) n root)
       else if k \<in> set evicted then None else hm_get (by_hash p) k)" for k
    by (simp add: p' pool_store_fields remove_entries_get)
  then show ?thesis
    using validate_stateless_base_fee [OF valid] h ce why
    by (intro exI [of _ base_fee] exI [of _ evicted] exI [of _ "new_entry s (pool_seq (snd (remove_entries evicted p))) n root"])
      (simp add: new_entry_def)
qed

section \<open>Instances\<close>

text \<open>The session-key bundle of \<open>demo_signed\<close>, offered to an empty pool that holds a
  single transaction, on a chain without blocks.\<close>

definition small_config :: mempool_config where
  "small_config = mempool_config_default\<lparr>max_pool_size := 1\<rparr>"

definition demo_reads :: pool_reads where
  "demo_reads = \<lparr>rd_view = demo_view, rd_head_hash = Inr None, rd_header = (\<lambda>_. Inr None),
     rd_json_size = (\<lambda>_. Inr 1000)\<rparr>"

definition demo_hash :: shell_hash where
  "demo_hash = signed_hash (ce_blake3 demo_env) (ce_rlp demo_env) demo_signed"

definition demo_pool :: pool_inner where
  "demo_pool = pool_store demo_signed demo_hash 1 1000 (Some (ce_blake3 demo_env [7])) 1000 pool_new"

lemma demo_account_reads:
  "get_balance demo_view a = Inr 1000000" "get_nonce demo_view a = Inr 0"
  by (simp_all add: get_balance_def get_nonce_def demo_view_fields new_user_account_def)

lemma demo_fees:
  "tx_max_fee_per_gas (st_tx demo_signed) = 2" "tx_max_priority_fee_per_gas (st_tx demo_signed) = 1"
  "tx_value (st_tx demo_signed) = 300" "gas_payer demo_signed = demo_sender"
  by (simp_all add: demo_signed_def sample_tx_def gas_payer_def)

lemma demo_cost: "pool_max_gas_cost demo_signed = 120000"
  by (simp add: pool_max_gas_cost_def demo_signed_def sample_tx_def checked_mul_def checked_add_def
      blob_gas_def add_or_max_def)

lemma demo_costs: "reservation_costs demo_signed = [(demo_sender, 120300), (demo_sender, 0)]"
  using demo_fees demo_cost demo_signed_fields(1)
  by (simp add: reservation_costs_def add_or_max_def checked_add_def)

lemma demo_stateless:
  "validate_stateless small_config demo_env demo_evm demo_selectors demo_reads demo_signed
   = Inr (1000, 0, Some (ce_blake3 demo_env [7]))"
proof -
  have "validated_root demo_env demo_view demo_signed
      \<lparr>out_pubkey = [7], out_should_register_pubkey = True, out_protocol_checks_nonce = True\<rparr>
    = Inr (Some (ce_blake3 demo_env [7]))"
    by (simp add: validated_root_def bind_map_def demo_view_fields new_user_account_def)
  moreover have "pool_intrinsic_gas demo_signed 24000 = Inr ()"
    by (simp add: demo_signed_def sample_tx_def checked_add_def is_contract_creation_def pool_intrinsic_gas_def
        compute_intrinsic_gas_def is_aa_bundle_def byte_gas_def
        sat_add_def Let_def)
  ultimately show ?thesis
    using demo_aa demo_bundle_structure demo_tx_checks demo_fees
    by (simp add: validate_stateless_def small_config_def mempool_config_default_def head_base_fee_def demo_reads_def
        bind_map_def bind_ok_def Let_def)
qed

lemma demo_balance_floor: "check_balance_floor demo_view demo_signed = Inr ()"
  using demo_fees demo_cost demo_account_reads demo_signed_fields(1)
  by (simp add: check_balance_floor_def bind_map_def checked_add_def Let_def)

lemma demo_locked:
  "insert_locked small_config demo_view demo_signed demo_hash 0 1000 0 (Some (ce_blake3 demo_env [7])) pool_new
   = Some (Inr (demo_hash, demo_pool))"
proof -
  have "capacity_evictions small_config pool_new [] tip 0 demo_sender 0 1000 = Some (Inr ([], 1000))" for tip
    by (simp add: capacity_evictions_def eviction_loop.simps pool_new_def small_config_def mempool_config_default_def
        usize_checked_add_def usize_bound_def hm_simps Let_def)
  moreover have "ensure_pending_balance_available pool_new demo_signed demo_view [] = Inr ()"
    by (simp add: ensure_pending_balance_available_def demo_costs demo_account_reads bind_map_def
        reserved_total_excluding_def rt_add_def rt_default_def rt_saturating_u256_def sat_add_def pool_new_def Let_def)
  ultimately show ?thesis
    using demo_tx_checks demo_signed_fields(1)
    by (simp add: insert_locked_def demo_pool_def queue_of_def pool_new_def check_nonce_slot_def
        next_expected_nonce_def small_config_def mempool_config_default_def checked_add_def bind_ok_def Let_def)
qed

lemma demo_insert:
  "pool_insert small_config demo_env demo_evm demo_selectors demo_reads demo_signed pool_new
   = Some (Inr (demo_hash, demo_pool))"
proof -
  have "rd_view demo_reads = demo_view" by (simp add: demo_reads_def)
  then show ?thesis
    using demo_stateless demo_balance_floor demo_locked demo_account_reads demo_tx_checks(2)
    by (simp add: pool_insert_def bind_ok_def bind_map_def demo_hash_def)
qed

lemma demo_reachable:
  "pool_reachable small_config (ce_blake3 demo_env) (ce_rlp demo_env) pool_new"
  "pool_reachable small_config (ce_blake3 demo_env) (ce_rlp demo_env) demo_pool"
proof -
  show "pool_reachable small_config (ce_blake3 demo_env) (ce_rlp demo_env) pool_new"
    by (rule reach_new)
  then show "pool_reachable small_config (ce_blake3 demo_env) (ce_rlp demo_env) demo_pool"
    by (rule reach_step) (rule step_accept [OF refl refl demo_insert])
qed

theorem pool_stays_well_formed_witness:
  "hm_contains (by_hash demo_pool) demo_hash
   \<and> index_ok (signed_hash (ce_blake3 demo_env) (ce_rlp demo_env)) demo_pool \<and> sums_ok demo_pool
   \<and> limits_ok small_config demo_pool"
  using pool_stays_well_formed [OF demo_reachable(2)]
  by (simp add: demo_pool_def pool_store_fields hm_contains_def)

text \<open>A plain transfer of another account with a higher tip, offered to the pool that holds
  \<open>demo_signed\<close>. The key is long enough for the two accounts to differ where the hash of the
  instance looks.\<close>

definition rival_key :: "u8 list" where
  "rival_key = 8 # replicate 30 0"

definition rival_sender :: address where
  "rival_sender = from_public_key (ce_blake3 demo_env) rival_key 1"

definition rival_signed :: signed_transaction where
  "rival_signed =
     \<lparr>st_from = rival_sender,
      st_tx = sample_tx\<lparr>tx_nonce := 0, tx_access_list := None, tx_type := 2,
        tx_max_priority_fee_per_gas := 4\<rparr>,
      st_signature = \<lparr>sig_type = MlDsa65, sig_data = [8]\<rparr>,
      st_pubkey_mode = Embedded rival_key, st_aa_bundle = None\<rparr>"

definition rival_hash :: shell_hash where
  "rival_hash = signed_hash (ce_blake3 demo_env) (ce_rlp demo_env) rival_signed"

lemma rival_fields:
  "st_from rival_signed = rival_sender" "st_aa_bundle rival_signed = None"
  "st_signature rival_signed = \<lparr>sig_type = MlDsa65, sig_data = [8]\<rparr>"
  "st_pubkey_mode rival_signed = Embedded rival_key" "tx_nonce (st_tx rival_signed) = 0"
  "tx_max_fee_per_gas (st_tx rival_signed) = 9" "tx_max_priority_fee_per_gas (st_tx rival_signed) = 4"
  "tx_value (st_tx rival_signed) = 300"
  by (simp_all add: rival_signed_def sample_tx_def)

lemma be_nat_inj:
  assumes "length xs = length ys" "be_nat xs = be_nat ys"
  shows "xs = ys"
  using assms be_nat_less_iff [of xs ys] be_nat_less_iff [of ys xs] by (metis less_irrefl linorder_neqE)

lemma demo_blake3_bytes:
  assumes "32 \<le> length bs"
  shows "be_bytes 32 (hash_bits (ce_blake3 demo_env bs)) = take 32 bs"
proof (rule be_nat_inj)
  have "be_nat (take 32 bs) < 2 ^ 256" using be_nat_bound [of "take 32 bs"] assms by simp
  then show "be_nat (be_bytes 32 (hash_bits (ce_blake3 demo_env bs))) = be_nat (take 32 bs)"
    by (simp add: demo_env_def be_nat_be_bytes unat_of_nat)
qed (use assms in simp)

lemma rival_hash_new: "rival_sender \<noteq> demo_sender" "rival_hash \<noteq> demo_hash"
proof -
  have rival: "take 16 (address_as_bytes rival_sender) = 1 # 8 # replicate 14 0"
    by (simp add: rival_sender_def from_public_key_def address_as_bytes_def demo_blake3_bytes rival_key_def
        take_Cons')
  have demo: "take 16 (address_as_bytes demo_sender) = replicate 16 0"
    unfolding demo_sender_def from_public_key_def address_as_bytes_def demo_env_def by code_simp
  have differ: "replicate 16 (0 :: u8) \<noteq> 1 # 8 # replicate 14 0" by code_simp
  then show "rival_sender \<noteq> demo_sender" using rival demo by metis
  have id: "take 16 (drop 16 (be_bytes 32 (hash_bits (signed_hash (ce_blake3 demo_env) R s))))
      = take 16 (address_as_bytes (st_from s))" for R s
    by (simp add: signed_hash_def demo_blake3_bytes ascii_def address_as_bytes_def)
  show "rival_hash \<noteq> demo_hash"
    using id [of "ce_rlp demo_env" rival_signed] id [of "ce_rlp demo_env" demo_signed] rival demo differ
    unfolding rival_hash_def demo_hash_def rival_fields demo_signed_fields by metis
qed

lemma rival_aa:
  "validate_aa_tx_inner demo_env demo_evm demo_selectors demo_view rival_signed None
   = Inr \<lparr>out_pubkey = rival_key, out_should_register_pubkey = True, out_protocol_checks_nonce = True\<rparr>"
proof -
  have "governance_fallback_pubkey demo_selectors demo_view rival_signed 0 = Inr None"
    by (simp add: governance_fallback_pubkey_def emergency_governance_active_def demo_config bind_map_def bind_ok_def)
  moreover have "check_algorithm demo_env demo_view rival_signed None 0 = Inr ()"
    using demo_allowed
    by (simp add: check_algorithm_def matured_direct_account_def demo_config rival_fields bind_map_def bind_ok_def)
  moreover have "check_key_binding demo_env demo_view rival_signed
      (Some (new_user_account hash_zero 1000000)) None rival_key 0 = Inr ()"
    by (simp add: check_key_binding_def rival_fields rival_sender_def Let_def)
  moreover have "check_bound_algorithm demo_env demo_view rival_signed rival_key 0 = Inr ()"
    by (simp add: check_bound_algorithm_def rival_fields bound_algorithm_def demo_config
      registered_session_root_deprecation_enabled_def bind_map_def bind_ok_def)
  moreover have "check_signature demo_env demo_view rival_signed rival_key 0 = Inr ()"
    by (simp add: check_signature_def rival_fields demo_verify_fields rival_key_def bind_map_def)
  moreover have "validate_paymaster_authorization demo_env demo_evm demo_view rival_signed None = Inr ()"
    by (simp add: validate_paymaster_authorization_def rival_fields)
  ultimately show ?thesis
    using demo_height
    by (simp add: validate_aa_tx_inner_def validate_root_account_def bind_map_def bind_ok_def demo_view_fields
        rival_fields resolve_pubkey_def new_user_account_def)
qed

lemma rival_stateless:
  "validate_stateless small_config demo_env demo_evm demo_selectors demo_reads rival_signed
   = Inr (1000, 0, Some (ce_blake3 demo_env rival_key))"
proof -
  have "validated_root demo_env demo_view rival_signed
      \<lparr>out_pubkey = rival_key, out_should_register_pubkey = True, out_protocol_checks_nonce = True\<rparr>
    = Inr (Some (ce_blake3 demo_env rival_key))"
    by (simp add: validated_root_def bind_map_def demo_view_fields new_user_account_def)
  moreover have "validate_transaction_type (tx_type (st_tx rival_signed)) = Inr ()"
    "validate_access_list (st_tx rival_signed) = Inr ()" "validate_blob_tx (st_tx rival_signed) = Inr ()"
    "validate_aa_bundle_structure rival_signed = Inr 0" "pool_intrinsic_gas rival_signed 0 = Inr ()"
    "tx_chain_id (st_tx rival_signed) = 1"
    by (simp_all add: rival_signed_def sample_tx_def validate_transaction_type_def validate_access_list_def
        validate_blob_tx_def validate_aa_bundle_structure_def checked_add_def is_contract_creation_def
        pool_intrinsic_gas_def compute_intrinsic_gas_def is_aa_bundle_def byte_gas_def sat_add_def Let_def)
  ultimately show ?thesis
    using rival_aa
    by (simp add: validate_stateless_def small_config_def mempool_config_default_def head_base_fee_def
        demo_reads_def rival_fields bind_map_def bind_ok_def Let_def)
qed

lemma rival_cost: "reservation_costs rival_signed = [(rival_sender, 450300), (rival_sender, 0)]"
  "check_balance_floor demo_view rival_signed = Inr ()"
proof -
  have "pool_max_gas_cost rival_signed = 450000" "gas_payer rival_signed = rival_sender"
    by (simp_all add: pool_max_gas_cost_def gas_payer_def rival_signed_def sample_tx_def checked_mul_def
        checked_add_def blob_gas_def add_or_max_def)
  then show "reservation_costs rival_signed = [(rival_sender, 450300), (rival_sender, 0)]"
    "check_balance_floor demo_view rival_signed = Inr ()"
    by (simp_all add: reservation_costs_def add_or_max_def check_balance_floor_def checked_add_def rival_fields
        demo_account_reads bind_map_def Let_def)
qed

lemma single_entry: "bt_entries (hm_insert hm_new k v) = [(k, v)]" "hm_len (hm_insert hm_new x v) = 1"
  by (simp_all add: bt_entries_def hm_len_def hm_entries_def hm_insert_def hm_new_def update.rep_eq empty.rep_eq)

lemma demo_pool_fields:
  "by_hash demo_pool = hm_insert hm_new demo_hash (new_entry demo_signed 0 1000 (Some (ce_blake3 demo_env [7])))"
  "by_priority demo_pool = hm_insert hm_new (PriorityKey (- 1) 0) demo_hash"
  "by_sender demo_pool = hm_insert hm_new demo_sender (hm_insert hm_new 0 demo_hash)"
  "pool_seq demo_pool = 1" "total_bytes demo_pool = 1000"
  by (simp_all add: demo_pool_def pool_store_fields pool_new_def queue_of_def new_entry_def demo_fees
      demo_tx_checks demo_signed_fields)

lemma rival_evicts: "capacity_evictions small_config demo_pool [] 4 0 rival_sender 0 1000 = Some (Inr ([demo_hash], 1000))"
proof -
  let ?e = "new_entry demo_signed 0 1000 (Some (ce_blake3 demo_env [7]))"
  have "eviction_choices demo_pool [] 0 rival_sender 0 = [(1, 0, demo_hash)]"
    using rival_hash_new(1)
    by (simp add: eviction_choices_def demo_pool_fields new_entry_def demo_signed_fields entry_tip_def miner_tip_def
        demo_fees hm_simps single_entry effective_gas_price_def sat_add_def sat_sub_def)
  then have "eviction_candidate demo_pool [] 4 0 rival_sender 0 = Some demo_hash"
    by (simp add: eviction_candidate_def)
  moreover have "entry_and_descendant_hashes demo_pool demo_hash = [demo_hash]"
    by (simp add: entry_and_descendant_hashes_def demo_pool_fields new_entry_def demo_signed_fields demo_tx_checks
        hm_simps bt_range_from_def single_entry)
  ultimately show ?thesis
    by (simp add: capacity_evictions_def eviction_loop.simps demo_pool_fields small_config_def new_entry_def
        mempool_config_default_def evict_one_def usize_checked_add_def usize_sat_add_def usize_bound_def single_entry Let_def)
qed

definition rival_pool :: pool_inner where
  "rival_pool = pool_store rival_signed rival_hash 2 1000 (Some (ce_blake3 demo_env rival_key)) 1000
     (snd (remove_entries [demo_hash] demo_pool))"

lemma rival_insert:
  "pool_insert small_config demo_env demo_evm demo_selectors demo_reads rival_signed demo_pool
   = Some (Inr (rival_hash, rival_pool))"
proof -
  have "ensure_pending_balance_available demo_pool rival_signed demo_view [demo_hash] = Inr ()"
    using rival_hash_new(1)
    by (simp add: ensure_pending_balance_available_def rival_cost demo_account_reads bind_map_def
        reserved_total_excluding_def demo_pool_def pool_store_fields add_reservations_def add_reservation_def demo_costs
        reservation_cost_for_def hm_get_or_insert pool_new_def
        rt_add_def rt_subtract_def rt_default_def rt_saturating_u256_def sat_add_def sat_sub_def new_entry_def Let_def)
  moreover have "checked_add (1 :: u64) 1 = Some 2" by code_simp
  moreover have "miner_tip 9 4 0 = 4" by (simp add: miner_tip_def effective_gas_price_def sat_add_def sat_sub_def)
  ultimately have "insert_locked small_config demo_view rival_signed rival_hash 0 1000 0
      (Some (ce_blake3 demo_env rival_key)) demo_pool = Some (Inr (rival_hash, rival_pool))"
    using rival_hash_new rival_evicts
    by (simp add: insert_locked_def rival_pool_def demo_pool_fields queue_of_def check_nonce_slot_def rival_fields
        next_expected_nonce_def small_config_def mempool_config_default_def bind_ok_def hm_simps Let_def)
  then show ?thesis
    using rival_stateless rival_cost demo_account_reads
    by (simp add: pool_insert_def bind_ok_def bind_map_def rival_hash_def rival_fields demo_reads_def)
qed

theorem admission_always_returns_witness:
  "\<exists>r. pool_insert small_config demo_env demo_evm demo_selectors demo_reads rival_signed demo_pool = Some r"
  by (rule admission_always_returns [OF demo_reachable(2)])

theorem pool_never_overcommits_witness:
  "exact_cost demo_signed demo_sender = 120300
   \<and> pool_sum demo_pool (\<lambda>e. exact_cost (pe_tx e) demo_sender) \<le> 1000000"
proof -
  have "exact_cost demo_signed demo_sender = 120300"
    using balance_floor_exact [OF demo_balance_floor, of demo_sender]
    by (simp add: reservation_cost_for_def demo_costs add_or_max_def checked_add_def)
  then show ?thesis
    using pool_never_overcommits [OF demo_reachable(1) refl refl demo_insert, of demo_sender]
    by (simp add: demo_reads_def demo_account_reads)
qed

theorem admission_evicts_only_outbid_witness:
  "hm_get (by_hash rival_pool) rival_hash \<noteq> None \<and> hm_get (by_hash rival_pool) demo_hash = None
   \<and> (\<exists>base_fee evicted. head_base_fee demo_reads (st_tx rival_signed) = Inr base_fee
        \<and> demo_hash \<in> set evicted
        \<and> outbid demo_pool (incoming_tip rival_signed base_fee) base_fee rival_sender 0 evicted demo_hash)"
proof -
  have gone: "hm_get (by_hash rival_pool) demo_hash = None"
    using rival_hash_new(2) by (simp add: rival_pool_def pool_store_fields remove_entry_get split: prod.split)
  have here: "hm_get (by_hash demo_pool) demo_hash = Some (new_entry demo_signed 0 1000 (Some (ce_blake3 demo_env [7])))"
    by (simp add: demo_pool_fields)
  obtain base_fee evicted new where *: "head_base_fee demo_reads (st_tx rival_signed) = Inr base_fee"
    "\<forall>k. hm_get (by_hash rival_pool) k = (if k = rival_hash then Some new else if k \<in> set evicted then None
       else hm_get (by_hash demo_pool) k)"
    "\<forall>k \<in> set evicted. (\<exists>e. hm_get (by_hash demo_pool) k = Some e \<and> replaced_by small_config rival_signed e)
       \<or> outbid demo_pool (incoming_tip rival_signed base_fee) base_fee rival_sender 0 evicted k"
    using admission_evicts_only_outbid [OF demo_reachable(2) refl refl rival_insert] unfolding rival_fields by blast
  have "demo_hash \<in> set evicted" using *(2) gone here rival_hash_new(2) by (metis option.distinct(1))
  moreover from this have "outbid demo_pool (incoming_tip rival_signed base_fee) base_fee rival_sender 0 evicted demo_hash"
    using *(3) here rival_hash_new(1) by (auto simp: replaced_by_def new_entry_def rival_fields demo_signed_fields)
  ultimately show ?thesis using *(1,2) gone by auto
qed

end
