(* ===== verification/Tx_Pool_Selection.thy ===== *)
theory Tx_Pool_Selection
  imports Tx_Pool_Admission
begin

text \<open>
  Block building from the transaction pool, the \<open>pending_for_block\<close> functions of
  \<open>mempool/src/pool.rs\<close>: a priority queue of the next transaction of each sender. The
  specification is a merge of one queue per sender, the longest run of consecutive eligible nonces,
  in which every step takes the transaction of the best key.
\<close>

section \<open>The selection\<close>

definition selection_key :: "(signed_transaction \<Rightarrow> u64) \<Rightarrow> pool_entry \<Rightarrow> priority_key" where
  "selection_key priority_fee entry =
     PriorityKey (- uint (priority_fee (pe_tx entry))) (pk_seq (pe_priority_key entry))"

type_synonym ready_queue = "(priority_key, address \<times> shell_hash) btreemap"

definition add_head ::
    "(signed_transaction \<Rightarrow> bool) \<Rightarrow> (signed_transaction \<Rightarrow> u64) \<Rightarrow> pool_inner
       \<Rightarrow> ready_queue \<Rightarrow> address \<times> (u64, shell_hash) btreemap \<Rightarrow> ready_queue" where
  "add_head is_eligible priority_fee inner ready sq =
     (case sq of (sender, queue) \<Rightarrow>
        (case bt_first queue of
           None \<Rightarrow> ready
         | Some (_, hash) \<Rightarrow>
             (case hm_get (by_hash inner) hash of
                None \<Rightarrow> ready
              | Some entry \<Rightarrow>
                  if is_eligible (pe_tx entry)
                  then hm_insert ready (selection_key priority_fee entry) (sender, hash)
                  else ready)))"

definition add_successor ::
    "(signed_transaction \<Rightarrow> bool) \<Rightarrow> (signed_transaction \<Rightarrow> u64) \<Rightarrow> pool_inner
       \<Rightarrow> priority_key \<Rightarrow> address \<Rightarrow> u64 \<Rightarrow> ready_queue \<Rightarrow> ready_queue" where
  "add_successor is_eligible priority_fee inner priority_key sender nonce ready =
     (case (hm_get (by_sender inner) sender, checked_add nonce 1) of
        (Some sender_queue, Some next_nonce) \<Rightarrow>
          (case bt_range_from sender_queue next_nonce of
             [] \<Rightarrow> ready
           | (queued_nonce, next_hash) # _ \<Rightarrow>
               if queued_nonce \<noteq> next_nonce then ready
               else case hm_get (by_hash inner) next_hash of
                 None \<Rightarrow> ready
               | Some next_entry \<Rightarrow>
                   let next_priority_key = selection_key priority_fee next_entry
                   in if next_priority_key \<noteq> priority_key \<and> is_eligible (pe_tx next_entry)
                      then hm_insert ready next_priority_key (sender, next_hash)
                      else ready)
      | _ \<Rightarrow> ready)"

text \<open>The loop ends: a round selects a transaction or drops an entry of the queue.\<close>

function selection_loop ::
    "(signed_transaction \<Rightarrow> bool) \<Rightarrow> (signed_transaction \<Rightarrow> u64) \<Rightarrow> pool_inner \<Rightarrow> usize
       \<Rightarrow> signed_transaction list \<Rightarrow> ready_queue \<Rightarrow> signed_transaction list" where
  "selection_loop is_eligible priority_fee inner limit selected ready =
     (if length selected < limit then
        (case bt_first ready of
           None \<Rightarrow> selected
         | Some (priority_key, sender, hash) \<Rightarrow>
             let ready = hm_remove ready priority_key
             in (case hm_get (by_hash inner) hash of
                   None \<Rightarrow> selection_loop is_eligible priority_fee inner limit selected ready
                 | Some entry \<Rightarrow>
                     selection_loop is_eligible priority_fee inner limit (selected @ [pe_tx entry])
                       (add_successor is_eligible priority_fee inner priority_key sender
                          (tx_nonce (st_tx (pe_tx entry))) ready)))
      else selected)"
  by pat_completeness auto
termination
  by (relation "measures [\<lambda>(el, fee, inner, limit, selected, ready). limit - length selected,
        \<lambda>(el, fee, inner, limit, selected, ready). hm_len ready]")
     (auto dest!: bt_first_SomeD dest: hm_keys_Suc)

declare selection_loop.simps [simp del]

definition pending_for_block_matching ::
    "usize \<Rightarrow> (signed_transaction \<Rightarrow> bool) \<Rightarrow> (signed_transaction \<Rightarrow> u64) \<Rightarrow> pool_inner
       \<Rightarrow> signed_transaction list" where
  "pending_for_block_matching limit is_eligible priority_fee inner =
     selection_loop is_eligible priority_fee inner limit []
       (foldl (add_head is_eligible priority_fee inner) hm_new (hm_entries (by_sender inner)))"

definition pending_for_block :: "usize \<Rightarrow> pool_inner \<Rightarrow> signed_transaction list" where
  "pending_for_block limit inner =
     pending_for_block_matching limit (\<lambda>_. True) (\<lambda>s. tx_max_priority_fee_per_gas (st_tx s)) inner"

definition eligible_at_fees :: "u64 \<Rightarrow> u64 \<Rightarrow> signed_transaction \<Rightarrow> bool" where
  "eligible_at_fees base_fee_per_gas blob_base_fee s \<longleftrightarrow>
     base_fee_per_gas \<le> tx_max_fee_per_gas (st_tx s)
     \<and> (tx_type (st_tx s) \<noteq> 3 \<or> blob_base_fee \<le> blob_fee_or_zero (st_tx s))"

definition pending_for_block_at_fees :: "usize \<Rightarrow> u64 \<Rightarrow> u64 \<Rightarrow> pool_inner \<Rightarrow> signed_transaction list" where
  "pending_for_block_at_fees limit base_fee_per_gas blob_base_fee inner =
     pending_for_block_matching limit (eligible_at_fees base_fee_per_gas blob_base_fee)
       (\<lambda>s. miner_tip (tx_max_fee_per_gas (st_tx s)) (tx_max_priority_fee_per_gas (st_tx s)) base_fee_per_gas)
       inner"

definition pending_for_block_at_base_fee :: "usize \<Rightarrow> u64 \<Rightarrow> pool_inner \<Rightarrow> signed_transaction list" where
  "pending_for_block_at_base_fee limit base_fee_per_gas inner =
     pending_for_block_at_fees limit base_fee_per_gas 0 inner"

section \<open>The run of a sender\<close>

text \<open>The longest prefix of a queue whose nonces are consecutive and whose transactions qualify.\<close>

fun consecutive_run :: "(pool_entry \<Rightarrow> bool) \<Rightarrow> pool_entry list \<Rightarrow> pool_entry list" where
  "consecutive_run P [] = []"
| "consecutive_run P [e] = (if P e then [e] else [])"
| "consecutive_run P (e # e' # es) =
     (if P e then e # (if entry_nonce e' = entry_nonce e + 1 then consecutive_run P (e' # es) else [])
      else [])"

definition sender_entries :: "pool_inner \<Rightarrow> address \<Rightarrow> pool_entry list" where
  "sender_entries p a = map (\<lambda>h. the (hm_get (by_hash p) h)) (sender_txs a p)"

definition sender_run :: "(signed_transaction \<Rightarrow> bool) \<Rightarrow> pool_inner \<Rightarrow> address \<Rightarrow> pool_entry list" where
  "sender_run is_eligible p a = consecutive_run (\<lambda>e. is_eligible (pe_tx e)) (sender_entries p a)"

lemma consecutive_run_prefix: "\<exists>rest. es = consecutive_run P es @ rest"
  by (induction P es rule: consecutive_run.induct) auto

lemma consecutive_run_nth: "i < length (consecutive_run P es) \<Longrightarrow> i < length es \<and> consecutive_run P es ! i = es ! i"
  using consecutive_run_prefix [of es P] by (metis length_append nth_append trans_less_add1)

lemma consecutive_run_first: "consecutive_run P es \<noteq> [] \<longleftrightarrow> es \<noteq> [] \<and> P (es ! 0)"
  by (induction P es rule: consecutive_run.induct) auto

lemma consecutive_run_Suc:
  "i < length (consecutive_run P es) \<Longrightarrow>
     Suc i < length (consecutive_run P es) \<longleftrightarrow>
       Suc i < length es \<and> entry_nonce (es ! Suc i) = entry_nonce (es ! i) + 1 \<and> P (es ! Suc i)"
proof (induction P es arbitrary: i rule: consecutive_run.induct)
  case (3 P e e' es)
  then show ?case
    using consecutive_run_first [of P "e' # es"] by (cases i) (auto split: if_splits)
qed auto

lemma consecutive_run_P: "e \<in> set (consecutive_run P es) \<Longrightarrow> P e"
  by (induction P es rule: consecutive_run.induct) (auto split: if_splits)

lemma sender_txs_queue: "sender_txs a p = bt_values (queue_of p a)"
  by (simp add: sender_txs_def queue_of_def hm_get_or_def bt_values_def bt_entries_def split: option.split)

lemma sender_entries_nonces:
  assumes ok: "index_ok tx_id p"
  shows "map entry_nonce (sender_entries p a) = bt_keys (queue_of p a)"
proof -
  have "entry_nonce (the (hm_get (by_hash p) h)) = n" if "(n, h) \<in> set (bt_entries (queue_of p a))" for n h
    using that index_queue [OF ok, of a n h] by (auto simp: bt_in_entries)
  then show ?thesis
    by (auto simp: sender_entries_def sender_txs_queue bt_values_def bt_keys_def)
qed

lemma in_sender_entries:
  assumes ok: "index_ok tx_id p"
  shows "e \<in> set (sender_entries p a) \<longleftrightarrow> entry_sender e = a \<and> (\<exists>h. hm_get (by_hash p) h = Some e)"
proof -
  have "e \<in> set (sender_entries p a) \<longleftrightarrow> (\<exists>n h. hm_get (queue_of p a) n = Some h \<and> e = the (hm_get (by_hash p) h))"
    by (simp add: sender_entries_def sender_txs_queue image_iff Bex_def set_bt_values) blast
  then show ?thesis unfolding index_queue [OF ok] by fastforce
qed

lemma sender_run_nth:
  assumes ok: "index_ok tx_id p" and i: "i < length (sender_run el p a)"
  shows "entry_sender (sender_run el p a ! i) = a"
    and "hm_get (by_hash p) (tx_id (pe_tx (sender_run el p a ! i))) = Some (sender_run el p a ! i)"
    and "el (pe_tx (sender_run el p a ! i))"
proof -
  let ?r = "sender_run el p a" and ?es = "sender_entries p a"
  have "?r ! i \<in> set ?es"
    using consecutive_run_nth [OF i [unfolded sender_run_def]] by (simp add: sender_run_def)
  then obtain h where h: "entry_sender (?r ! i) = a" "hm_get (by_hash p) h = Some (?r ! i)"
    using in_sender_entries [OF ok] by blast
  then show "entry_sender (?r ! i) = a" "hm_get (by_hash p) (tx_id (pe_tx (?r ! i))) = Some (?r ! i)"
    using index_entry(1) [OF ok h(2)] by simp_all
  show "el (pe_tx (?r ! i))"
    using nth_mem [OF i] consecutive_run_P [of "?r ! i" "\<lambda>e. el (pe_tx e)" ?es] by (simp add: sender_run_def)
qed

text \<open>The element after \<open>e\<close> in a run is the entry of the next nonce, if it qualifies.\<close>

lemma entry_nonce_less_Suc:
  assumes "index_ok tx_id p" and "hm_get (by_hash p) h = Some e"
  shows "entry_nonce e < n \<longleftrightarrow> entry_nonce e + 1 \<le> n"
proof -
  have "entry_nonce e \<noteq> u_max" by (rule index_entry(2) [OF assms])
  then have "unat (entry_nonce e) \<noteq> 18446744073709551615" by (simp add: word_unat_eq_iff unat_u_max)
  then have "unat (entry_nonce e + 1) = unat (entry_nonce e) + 1"
    using unat_u64_le [of "entry_nonce e"] by (subst unat_plus_fits) simp_all
  then show ?thesis by (simp add: word_less_nat_alt word_le_nat_alt Suc_le_eq)
qed

lemma next_sender_entry:
  assumes ok: "index_ok tx_id p" and i: "i < length (sender_entries p a)" and e: "sender_entries p a ! i = e"
    and succ: "\<And>n. entry_nonce e < n \<longleftrightarrow> entry_nonce e + 1 \<le> n"
    and e': "e' \<in> set (sender_entries p a)" "entry_nonce e' = entry_nonce e + 1"
  shows "Suc i < length (sender_entries p a) \<and> sender_entries p a ! Suc i = e'"
proof -
  let ?es = "sender_entries p a"
  have sorted: "sorted_wrt (<) (map entry_nonce ?es)"
    using sorted_bt_keys [of "queue_of p a"] by (simp add: sender_entries_nonces [OF ok])
  have lt: "entry_nonce (?es ! j) < entry_nonce (?es ! k)" if "j < k" "k < length ?es" for j k
    using sorted_wrt_nth_less [OF sorted] that by simp
  from e'(1) obtain k where k: "k < length ?es" "?es ! k = e'" by (auto simp: in_set_conv_nth)
  have gt: "entry_nonce e < entry_nonce (?es ! k)" using succ e'(2) k(2) by simp
  have "\<not> k < i" using lt [of k i] gt i e by (metis order_less_asym)
  moreover have "k \<noteq> i" using gt e by auto
  moreover have "\<not> Suc i < k"
  proof
    assume "Suc i < k"
    then have "entry_nonce e < entry_nonce (?es ! Suc i)" "entry_nonce (?es ! Suc i) < entry_nonce (?es ! k)"
      using lt [of i "Suc i"] lt [of "Suc i" k] k(1) e by simp_all
    then show False using succ e'(2) k(2) by (metis not_le)
  qed
  ultimately have "k = Suc i" by simp
  then show ?thesis using k by simp
qed

lemma sender_run_Suc:
  assumes ok: "index_ok tx_id p" and i: "i < length (sender_run el p a)"
  defines "e \<equiv> sender_run el p a ! i"
  shows "(case hm_get (queue_of p a) (entry_nonce e + 1) of
      None \<Rightarrow> Suc i = length (sender_run el p a)
    | Some h \<Rightarrow> (case hm_get (by_hash p) h of
        None \<Rightarrow> False
      | Some e' \<Rightarrow> if el (pe_tx e') then Suc i < length (sender_run el p a) \<and> sender_run el p a ! Suc i = e'
                   else Suc i = length (sender_run el p a)))"
proof -
  let ?r = "sender_run el p a" and ?es = "sender_entries p a" and ?P = "\<lambda>e. el (pe_tx e)"
  have r: "?r = consecutive_run ?P ?es" by (simp add: sender_run_def)
  have ei: "e = ?es ! i" "i < length ?es" using consecutive_run_nth [OF i [unfolded r]] by (simp_all add: e_def r)
  obtain h0 where "hm_get (by_hash p) h0 = Some e" using sender_run_nth(2) [OF ok i] e_def by blast
  note next_entry = next_sender_entry [OF ok ei(2) ei(1) [symmetric] entry_nonce_less_Suc [OF ok this]]
  have next_nonce: "hm_get (queue_of p a) (entry_nonce e + 1) \<noteq> None"
    if "Suc i < length ?es" "entry_nonce (?es ! Suc i) = entry_nonce e + 1"
  proof -
    have "entry_nonce (?es ! Suc i) \<in> set (map entry_nonce ?es)" using nth_mem [OF that(1)] by simp
    then have "entry_nonce e + 1 \<in> set (map entry_nonce ?es)" using that(2) by simp
    then show ?thesis by (auto simp: sender_entries_nonces [OF ok] set_bt_keys)
  qed
  note step = consecutive_run_Suc [OF i [unfolded r], folded r ei(1)]
  show ?thesis
  proof (cases "hm_get (queue_of p a) (entry_nonce e + 1)")
    case None
    then have "\<not> Suc i < length ?r" using step next_nonce by blast
    then show ?thesis using None i by simp
  next
    case (Some h)
    then obtain e' where e': "hm_get (by_hash p) h = Some e'" "entry_sender e' = a" "entry_nonce e' = entry_nonce e + 1"
      using index_queue [OF ok] by blast
    then have "e' \<in> set ?es" using in_sender_entries [OF ok] by blast
    note nx = next_entry [OF this e'(3)]
    have len: "Suc i < length ?r \<longleftrightarrow> el (pe_tx e')" using step nx e'(3) by simp
    moreover have "?r ! Suc i = e'" if "Suc i < length ?r"
      using consecutive_run_nth [OF that [unfolded r]] nx by (simp add: r)
    ultimately show ?thesis using Some e'(1) i by (cases "el (pe_tx e')") simp_all
  qed
qed

section \<open>The priority queue\<close>

lemma bt_range_from_case:
  "(case bt_range_from m k of [] \<Rightarrow> r | (k', v) # _ \<Rightarrow> if k' \<noteq> k then r else f v) =
     (case hm_get m k of None \<Rightarrow> r | Some v \<Rightarrow> f v)"
  by (simp flip: bt_range_from_hd split: list.split)

lemma selection_key_unique:
  assumes ok: "index_ok tx_id p" and i: "i < length (sender_run el p a)" and j: "j < length (sender_run el p b)"
    and eq: "selection_key fee (sender_run el p a ! i) = selection_key fee (sender_run el p b ! j)"
  shows "sender_run el p a ! i = sender_run el p b ! j \<and> a = b"
proof -
  note a = sender_run_nth [OF ok i] and b = sender_run_nth [OF ok j]
  have "tx_id (pe_tx (sender_run el p a ! i)) = tx_id (pe_tx (sender_run el p b ! j))"
    using eq by (intro index_seq_unique [OF ok a(2) b(2)]) (simp add: selection_key_def)
  then have "sender_run el p a ! i = sender_run el p b ! j" using a(2) b(2) by (metis option.inject)
  then show ?thesis using a(1) b(1) by simp
qed

lemma add_head_run:
  assumes ok: "index_ok tx_id p" and q: "hm_get (by_sender p) a = Some q"
  shows "add_head el fee p ready (a, q) =
    (if sender_run el p a = [] then ready
     else hm_insert ready (selection_key fee (sender_run el p a ! 0)) (a, tx_id (pe_tx (sender_run el p a ! 0))))"
proof -
  have qa: "queue_of p a = q" using q by (rule queue_of_Some)
  have "hm_len q \<noteq> 0" using ok q by (auto simp: index_ok_def queues_nonempty_def)
  then have "bt_first q \<noteq> None" by (simp add: bt_first_None hm_len_card dom_eq_empty_conv fun_eq_iff)
  then obtain n h rest where e: "bt_entries q = (n, h) # rest" by (auto simp: bt_first_def split: list.splits)
  then have "hm_get (queue_of p a) n = Some h" by (simp add: qa flip: bt_in_entries)
  then obtain e0 where e0: "hm_get (by_hash p) h = Some e0" using index_queue [OF ok] by blast
  have es: "sender_entries p a ! 0 = e0" "sender_entries p a \<noteq> []"
    using e e0 by (simp_all add: sender_entries_def sender_txs_queue qa bt_values_def)
  have run: "sender_run el p a \<noteq> [] \<longleftrightarrow> el (pe_tx e0)"
    using es consecutive_run_first [of "\<lambda>e. el (pe_tx e)" "sender_entries p a"] by (simp add: sender_run_def)
  have "sender_run el p a ! 0 = e0" if "sender_run el p a \<noteq> []"
    using that es consecutive_run_nth [of 0 "\<lambda>e. el (pe_tx e)" "sender_entries p a"] by (simp add: sender_run_def)
  then show ?thesis
    using run e e0 index_entry(1) [OF ok e0] by (auto simp: add_head_def bt_first_def)
qed

lemma add_successor_run:
  assumes ok: "index_ok tx_id p" and i: "i < length (sender_run el p a)"
  defines "e \<equiv> sender_run el p a ! i" and "e' \<equiv> sender_run el p a ! Suc i"
  shows "add_successor el fee p (selection_key fee e) a (entry_nonce e) ready =
    (if Suc i < length (sender_run el p a)
     then hm_insert ready (selection_key fee e') (a, tx_id (pe_tx e')) else ready)"
proof -
  have e: "entry_sender e = a" "hm_get (by_hash p) (tx_id (pe_tx e)) = Some e"
    using sender_run_nth [OF ok i] by (simp_all add: e_def)
  obtain q where q: "hm_get (by_sender p) a = Some q" "queue_of p a = q"
    using queue_in_index [OF ok e(2)] e(1) by auto
  have "unat (entry_nonce e) \<noteq> 18446744073709551615"
    using index_entry(2) [OF ok e(2)] by (simp add: word_unat_eq_iff unat_u_max)
  then have next_nonce: "checked_add (entry_nonce e) 1 = Some (entry_nonce e + 1)"
    using unat_u64_le [of "entry_nonce e"] by (simp add: checked_add_Some_iff)
  have diff: "selection_key fee e'' \<noteq> selection_key fee e"
    if "hm_get (by_hash p) h = Some e''" "entry_nonce e'' = entry_nonce e + 1" for h e''
  proof
    assume "selection_key fee e'' = selection_key fee e"
    then have "h = tx_id (pe_tx e)"
      by (intro index_seq_unique [OF ok that(1) e(2)]) (simp add: selection_key_def)
    then have "e'' = e" using that(1) e(2) by simp
    then show False using that(2) by simp
  qed
  note succ = sender_run_Suc [OF ok i, folded e_def e'_def]
  show ?thesis
  proof (cases "hm_get (queue_of p a) (entry_nonce e + 1)")
    case None
    then show ?thesis using succ q by (simp add: add_successor_def next_nonce bt_range_from_case)
  next
    case (Some h)
    then obtain e'' where e'': "hm_get (by_hash p) h = Some e''" "entry_nonce e'' = entry_nonce e + 1"
      using index_queue [OF ok] by blast
    have id: "tx_id (pe_tx e'') = h" by (rule index_entry(1) [OF ok e''(1)])
    show ?thesis
      using succ Some q e'' diff [OF e''] id
      by (cases "el (pe_tx e'')") (simp_all add: add_successor_def next_nonce bt_range_from_case Let_def)
  qed
qed

text \<open>The queue holds the next transaction of the run of every sender.\<close>

definition queue_state ::
    "(signed_transaction \<Rightarrow> shell_hash) \<Rightarrow> (signed_transaction \<Rightarrow> bool) \<Rightarrow> (signed_transaction \<Rightarrow> u64)
       \<Rightarrow> pool_inner \<Rightarrow> (address \<Rightarrow> nat) \<Rightarrow> ready_queue \<Rightarrow> bool" where
  "queue_state tx_id el fee p k ready \<longleftrightarrow>
     (\<forall>key a h. hm_get ready key = Some (a, h) \<longleftrightarrow>
        k a < length (sender_run el p a) \<and> h = tx_id (pe_tx (sender_run el p a ! k a))
        \<and> key = selection_key fee (sender_run el p a ! k a))"

lemma queue_state_initial:
  assumes ok: "index_ok tx_id p"
  shows "queue_state tx_id el fee p (\<lambda>_. 0) (foldl (add_head el fee p) hm_new (hm_entries (by_sender p)))"
proof -
  let ?head = "\<lambda>a key h. sender_run el p a \<noteq> [] \<and> h = tx_id (pe_tx (sender_run el p a ! 0))
      \<and> key = selection_key fee (sender_run el p a ! 0)"
  have "hm_get (foldl (add_head el fee p) hm_new xs) key = Some (a, h) \<longleftrightarrow> a \<in> fst ` set xs \<and> ?head a key h"
    if "set xs \<subseteq> set (hm_entries (by_sender p))" "distinct (map fst xs)" for xs key a h
    using that
  proof (induction xs arbitrary: key a h rule: rev_induct)
    case (snoc x xs)
    obtain b q where x: "x = (b, q)" by (cases x)
    then have q: "hm_get (by_sender p) b = Some q" using snoc.prems(1) by (auto simp: hm_in_entries)
    have ih: "hm_get (foldl (add_head el fee p) hm_new xs) key = Some (a, h) \<longleftrightarrow> a \<in> fst ` set xs \<and> ?head a key h"
      for key a h using snoc by simp
    have b: "b \<notin> fst ` set xs" using snoc.prems(2) x by simp
    have "c = b" if "?head c key h" "sender_run el p b \<noteq> []" "key = selection_key fee (sender_run el p b ! 0)" for c key h
      using selection_key_unique [OF ok, of 0 el c 0 b fee] that by simp
    then have uniq: "c = b" if "?head c key h" "?head b key h'" for c key h h' using that by blast
    show ?case
    proof (cases "sender_run el p b \<noteq> [] \<and> key = selection_key fee (sender_run el p b ! 0)")
      case True
      then have "hm_get (foldl (add_head el fee p) hm_new (xs @ [x])) key
          = Some (b, tx_id (pe_tx (sender_run el p b ! 0)))" by (simp add: x add_head_run [OF ok q])
      then show ?thesis using uniq [where c = a and key = key and h = h] True x by auto
    next
      case False
      then have "hm_get (foldl (add_head el fee p) hm_new (xs @ [x])) key
          = hm_get (foldl (add_head el fee p) hm_new xs) key" by (auto simp: x add_head_run [OF ok q])
      then show ?thesis using ih False x by auto
    qed
  qed simp
  moreover have "a \<in> fst ` set (hm_entries (by_sender p))" if "sender_run el p a \<noteq> []" for a
  proof -
    have "0 < length (sender_run el p a)" using that by simp
    note r = sender_run_nth [OF ok this]
    obtain q where "hm_get (by_sender p) a = Some q" using queue_in_index [OF ok r(2)] r(1) by auto
    then show ?thesis by (force simp flip: hm_in_entries)
  qed
  ultimately show ?thesis unfolding queue_state_def by auto
qed

lemma queue_state_step:
  assumes ok: "index_ok tx_id p" and st: "queue_state tx_id el fee p k ready"
    and i: "k a < length (sender_run el p a)"
  defines "e \<equiv> sender_run el p a ! k a"
  shows "queue_state tx_id el fee p (k(a := Suc (k a)))
    (add_successor el fee p (selection_key fee e) a (entry_nonce e) (hm_remove ready (selection_key fee e)))"
proof -
  have old: "hm_get ready key = Some (b, h) \<longleftrightarrow> k b < length (sender_run el p b)
      \<and> h = tx_id (pe_tx (sender_run el p b ! k b)) \<and> key = selection_key fee (sender_run el p b ! k b)" for key b h
    using st by (simp add: queue_state_def)
  have other: "selection_key fee (sender_run el p b ! k b) \<noteq> selection_key fee (sender_run el p a ! j)"
    if "b \<noteq> a" "k b < length (sender_run el p b)" "j < length (sender_run el p a)" for b j
    using selection_key_unique [OF ok that(2,3)] that(1) by blast
  let ?r = "sender_run el p a"
  let ?q = "add_successor el fee p (selection_key fee e) a (entry_nonce e) (hm_remove ready (selection_key fee e))"
  have new: "hm_get ?q key =
      (if Suc (k a) < length ?r \<and> key = selection_key fee (?r ! Suc (k a))
       then Some (a, tx_id (pe_tx (?r ! Suc (k a))))
       else if key = selection_key fee e then None else hm_get ready key)" for key
    unfolding e_def add_successor_run [OF ok i] by simp
  show ?thesis
    unfolding queue_state_def
  proof (intro allI)
    fix key b h
    show "hm_get ?q key = Some (b, h) \<longleftrightarrow>
        (k(a := Suc (k a))) b < length (sender_run el p b)
        \<and> h = tx_id (pe_tx (sender_run el p b ! (k(a := Suc (k a))) b))
        \<and> key = selection_key fee (sender_run el p b ! (k(a := Suc (k a))) b)"
    proof (cases "b = a")
      case True
      then show ?thesis unfolding new using old [of key a h] by (auto simp: e_def)
    next
      case False
      then show ?thesis
        unfolding new using old [of key b h] other [OF False _ i] other [OF False, of "Suc (k a)"]
        by (auto simp: e_def)
    qed
  qed
qed

section \<open>The merge\<close>

definition from_sender :: "address \<Rightarrow> signed_transaction list \<Rightarrow> signed_transaction list" where
  "from_sender a ts = filter (\<lambda>t. st_from t = a) ts"

text \<open>Every element is at its time the best of the next transactions of all senders.\<close>

definition best_first ::
    "(signed_transaction \<Rightarrow> shell_hash) \<Rightarrow> (signed_transaction \<Rightarrow> bool) \<Rightarrow> (signed_transaction \<Rightarrow> u64)
       \<Rightarrow> pool_inner \<Rightarrow> signed_transaction list \<Rightarrow> bool" where
  "best_first tx_id el fee p ts \<longleftrightarrow>
     (\<forall>i < length ts. \<forall>b.
        let k = length (from_sender b (take i ts)) in
        k < length (sender_run el p b) \<longrightarrow>
          selection_key fee (the (hm_get (by_hash p) (tx_id (ts ! i)))) \<le> selection_key fee (sender_run el p b ! k))"

definition merge_prefix ::
    "(signed_transaction \<Rightarrow> bool) \<Rightarrow> pool_inner \<Rightarrow> (address \<Rightarrow> nat) \<Rightarrow> signed_transaction list \<Rightarrow> bool" where
  "merge_prefix el p k ts \<longleftrightarrow>
     (\<forall>a. k a \<le> length (sender_run el p a) \<and> from_sender a ts = map pe_tx (take (k a) (sender_run el p a)))"

lemma merge_prefix_length: "merge_prefix el p k ts \<Longrightarrow> length (from_sender a ts) = k a"
  by (simp add: merge_prefix_def)

lemma merge_prefix_snoc:
  assumes ok: "index_ok tx_id p" and m: "merge_prefix el p k ts" and i: "k a < length (sender_run el p a)"
  shows "merge_prefix el p (k(a := Suc (k a))) (ts @ [pe_tx (sender_run el p a ! k a)])"
  using m i sender_run_nth(1) [OF ok i] by (auto simp: merge_prefix_def from_sender_def take_Suc_conv_app_nth)

lemma best_first_snoc:
  assumes "best_first tx_id el fee p ts"
    and "\<And>b. length (from_sender b ts) < length (sender_run el p b) \<Longrightarrow>
      selection_key fee (the (hm_get (by_hash p) (tx_id t)))
      \<le> selection_key fee (sender_run el p b ! length (from_sender b ts))"
  shows "best_first tx_id el fee p (ts @ [t])"
  using assms by (auto simp: best_first_def Let_def nth_append less_Suc_eq)

lemma selection_loop_merge:
  assumes ok: "index_ok tx_id p"
    and "queue_state tx_id el fee p k ready" and "merge_prefix el p k ts" and "best_first tx_id el fee p ts"
  shows "\<exists>k'. merge_prefix el p k' (selection_loop el fee p limit ts ready)
    \<and> best_first tx_id el fee p (selection_loop el fee p limit ts ready)
    \<and> length (selection_loop el fee p limit ts ready) \<le> max limit (length ts)
    \<and> (length (selection_loop el fee p limit ts ready) < limit \<longrightarrow> (\<forall>a. k' a = length (sender_run el p a)))"
  using assms(2-)
proof (induction "limit - length ts" arbitrary: k ready ts)
  case 0
  then have "selection_loop el fee p limit ts ready = ts" by (simp add: selection_loop.simps)
  then show ?case using 0 by auto
next
  case (Suc m)
  have lt: "length ts < limit" using Suc.hyps(2) by simp
  have st: "hm_get ready key = Some (a, h) \<longleftrightarrow> k a < length (sender_run el p a)
      \<and> h = tx_id (pe_tx (sender_run el p a ! k a)) \<and> key = selection_key fee (sender_run el p a ! k a)" for key a h
    using Suc.prems(1) by (simp add: queue_state_def)
  show ?case
  proof (cases "bt_first ready")
    case None
    then have "k a = length (sender_run el p a)" for a
      using st [of "selection_key fee (sender_run el p a ! k a)" a] Suc.prems(2)
      by (auto simp: bt_first_None merge_prefix_def le_less)
    moreover have "selection_loop el fee p limit ts ready = ts"
      using None lt by (simp add: selection_loop.simps)
    ultimately show ?thesis using Suc.prems lt by auto
  next
    case (Some x)
    obtain key a h where x: "x = (key, a, h)" by (cases x)
    note first = bt_first_SomeD [OF Some [unfolded x]]
    let ?e = "sender_run el p a ! k a"
    have i: "k a < length (sender_run el p a)" and h: "h = tx_id (pe_tx ?e)" and key: "key = selection_key fee ?e"
      using first st by blast+
    have e: "hm_get (by_hash p) h = Some ?e" unfolding h by (rule sender_run_nth(2) [OF ok i])
    let ?ready = "add_successor el fee p key a (entry_nonce ?e) (hm_remove ready key)"
    have loop: "selection_loop el fee p limit ts ready = selection_loop el fee p limit (ts @ [pe_tx ?e]) ?ready"
      using Some lt e by (subst selection_loop.simps) (simp add: x Let_def)
    have "best_first tx_id el fee p (ts @ [pe_tx ?e])"
    proof (rule best_first_snoc [OF Suc.prems(3)])
      fix b assume "length (from_sender b ts) < length (sender_run el p b)"
      then have "k b < length (sender_run el p b)" by (simp add: merge_prefix_length [OF Suc.prems(2)])
      then have "hm_get ready (selection_key fee (sender_run el p b ! k b)) = Some (b, tx_id (pe_tx (sender_run el p b ! k b)))"
        by (simp add: st)
      then show "selection_key fee (the (hm_get (by_hash p) (tx_id (pe_tx ?e))))
          \<le> selection_key fee (sender_run el p b ! length (from_sender b ts))"
        using first e by (simp add: merge_prefix_length [OF Suc.prems(2)] h key)
    qed
    moreover have "queue_state tx_id el fee p (k(a := Suc (k a))) ?ready"
      unfolding key by (rule queue_state_step [OF ok Suc.prems(1) i])
    moreover have "m = limit - length (ts @ [pe_tx ?e])" using Suc.hyps(2) by simp
    ultimately show ?thesis
      using Suc.hyps(1) [OF _ _ merge_prefix_snoc [OF ok Suc.prems(2) i]] lt unfolding loop by simp
  qed
qed

text \<open>
  C15: block building is a best-first merge. On every reachable pool, with any eligibility and
  any fee: no more than the limit is returned; the transactions of each sender appear in nonce
  order and are a prefix of its run of consecutive eligible nonces, so that none precedes or lacks
  its predecessor; each transaction pays at its time the best fee among the next ones of all
  senders, the earlier arrival among equals; and below the limit nothing eligible is left out.
\<close>

theorem block_selection_is_best_first_merge:
  fixes limit is_eligible priority_fee
  assumes "pool_reachable cfg blake3 R p"
  defines "ts \<equiv> pending_for_block_matching limit is_eligible priority_fee p"
  shows "length ts \<le> limit
    \<and> (\<forall>a. \<exists>k. from_sender a ts = map pe_tx (take k (sender_run is_eligible p a)))
    \<and> best_first (signed_hash blake3 R) is_eligible priority_fee p ts
    \<and> (length ts < limit \<longrightarrow> (\<forall>a. from_sender a ts = map pe_tx (sender_run is_eligible p a)))"
proof -
  let ?id = "signed_hash blake3 R"
  have ok: "index_ok ?id p" using reachable_ok [OF assms(1)] by (simp add: pool_ok_def)
  have "merge_prefix is_eligible p (\<lambda>_. 0) []" "best_first ?id is_eligible priority_fee p []"
    by (simp_all add: merge_prefix_def from_sender_def best_first_def)
  from selection_loop_merge [OF ok queue_state_initial [OF ok] this, of limit] obtain k
    where "merge_prefix is_eligible p k ts" "best_first ?id is_eligible priority_fee p ts" "length ts \<le> limit"
      "length ts < limit \<longrightarrow> (\<forall>a. k a = length (sender_run is_eligible p a))"
    unfolding ts_def pending_for_block_matching_def by auto
  then show ?thesis by (auto simp: merge_prefix_def)
qed

section \<open>Instances\<close>

lemma demo_sender_txs: "sender_txs demo_sender demo_pool = [demo_hash]"
  by (simp add: sender_txs_def demo_pool_fields bt_values_def single_entry)

theorem block_selection_is_best_first_merge_witness:
  "pending_for_block_at_base_fee 10 1 demo_pool = [demo_signed]"
proof -
  let ?new = "new_entry demo_signed 0 1000 (Some (ce_blake3 demo_env [7]))"
    and ?run = "sender_run (eligible_at_fees 1 0) demo_pool" and ?ts = "pending_for_block_at_base_fee 10 1 demo_pool"
  have "hm_get (by_hash demo_pool) demo_hash = Some ?new"
    by (simp add: demo_pool_def pool_store_fields pool_new_def)
  moreover have "eligible_at_fees 1 0 demo_signed" by (simp add: eligible_at_fees_def demo_fees demo_signed_def sample_tx_def)
  ultimately have run: "?run demo_sender = [?new]"
    by (simp add: sender_run_def sender_entries_def demo_sender_txs new_entry_def)
  have "sender_txs a demo_pool = []" if "a \<noteq> demo_sender" for a
    using that by (simp add: sender_txs_def demo_pool_def pool_store_fields pool_new_def demo_signed_fields)
  then have others: "?run a = []" if "a \<noteq> demo_sender" for a
    using that by (simp add: sender_run_def sender_entries_def)
  have merge: "(\<forall>a. \<exists>k. from_sender a ?ts = map pe_tx (take k (?run a)))
      \<and> (length ?ts < 10 \<longrightarrow> (\<forall>a. from_sender a ?ts = map pe_tx (?run a)))"
    using block_selection_is_best_first_merge [OF demo_reachable(2), of 10 "eligible_at_fees 1 0"
        "\<lambda>s. miner_tip (tx_max_fee_per_gas (st_tx s)) (tx_max_priority_fee_per_gas (st_tx s)) 1"]
    by (simp add: pending_for_block_at_base_fee_def pending_for_block_at_fees_def)
  have "st_from t = demo_sender" if "t \<in> set ?ts" for t
  proof (rule ccontr)
    assume "st_from t \<noteq> demo_sender"
    then have "from_sender (st_from t) ?ts = []" using merge others [of "st_from t"] by (metis list.map_disc_iff take_Nil)
    then show False using that by (auto simp: from_sender_def filter_empty_conv)
  qed
  then have all: "from_sender demo_sender ?ts = ?ts" by (simp add: from_sender_def)
  then have "length ?ts \<le> 1" using merge run by (metis length_map length_take list.size(3,4) min.cobounded1 One_nat_def add_0)
  then show ?thesis using merge run all by (simp add: new_entry_def)
qed

end
