(* ===== verification/Overlay_Store.thy ===== *)
theory Overlay_Store
  imports Kv_Store Primitives
begin

text \<open>
  The copy-on-write overlay of \<open>crates/storage/src/overlay_store.rs\<close>: writes stay private until
  a commit applies them to the base store in one batch. The overlay of a replay is frozen, so keys of
  the frozen namespaces never fall through to the base, and it can persist its staged writes, with a
  cursor, under a private namespace.

  The overlay is generic in the base store, which is the parameter \<open>K\<close> of the operations; its
  state is a field of the overlay. What the overlay relies on is the locale \<open>lawful_store\<close>. An
  operation that fails returns the error only; what a failed operation leaves in the base is not
  described.

  The theorems: over a lawful base the overlay is again a lawful store, reads are those of the base
  with the staged batches applied, and a commit makes the base equal to what was read; the journal of
  previous values undoes the writes since a checkpoint; the accounted bytes are exact, so the write
  limit holds; persisting a replay changes no value that can be read; clearing one ends and removes
  what was persisted. Over a base that does not fail (\<open>reliable_store\<close>) the operations succeed.
\<close>

section \<open>State and construction\<close>

record 's overlay_store =
  ov_base :: 's
  ov_write_limit :: "usize option"
  ov_replay_namespace :: "kv_key option"
  ov_staged_bytes :: usize
  ov_frozen_prefixes :: "kv_key list"
  ov_changes :: "(kv_key, kv_value option) btreemap"

definition overlay_new :: "'s \<Rightarrow> 's overlay_store" where
  "overlay_new base =
     \<lparr>ov_base = base, ov_write_limit = None, ov_replay_namespace = None, ov_staged_bytes = 0,
      ov_frozen_prefixes = [], ov_changes = hm_new\<rparr>"

definition with_snapshot_prefixes ::
    "'s kv_ops \<Rightarrow> 's \<Rightarrow> kv_key list \<Rightarrow> usize \<Rightarrow> storage_error + 's overlay_store" where
  "with_snapshot_prefixes K base prefixes max_bytes =
     bind_ok (kv_snapshot_prefixes K base prefixes max_bytes) (\<lambda>entries.
       Inr \<lparr>ov_base = base, ov_write_limit = None, ov_replay_namespace = None,
            ov_staged_bytes = sum_list (map (\<lambda>(key, value). length key + length value + 64) (bt_entries entries)),
            ov_frozen_prefixes = prefixes,
            ov_changes = hm_map (\<lambda>_ value. Some value) entries\<rparr>)"

definition with_write_limit :: "'s overlay_store \<Rightarrow> usize \<Rightarrow> storage_error + 's overlay_store" where
  "with_write_limit ov max_bytes =
     (if max_bytes < ov_staged_bytes ov then Inl (Database ''replay overlay write limit exceeded'')
      else Inr (ov\<lparr>ov_write_limit := Some max_bytes\<rparr>))"

definition with_replay_namespace :: "'s overlay_store \<Rightarrow> kv_key \<Rightarrow> storage_error + 's overlay_store" where
  "with_replay_namespace ov namespace =
     (if namespace = [] \<or> ov_frozen_prefixes ov = []
      then Inl (StorageInvalidInput ''durable replay requires a private namespace and frozen prefixes'')
      else Inr (ov\<lparr>ov_replay_namespace := Some namespace\<rparr>))"

definition reopen_replay :: "'s \<Rightarrow> kv_key \<Rightarrow> kv_key list \<Rightarrow> storage_error + 's overlay_store" where
  "reopen_replay base namespace prefixes =
     with_replay_namespace ((overlay_new base)\<lparr>ov_frozen_prefixes := prefixes\<rparr>) namespace"

section \<open>Durable replays\<close>

definition replay_key :: "'s overlay_store \<Rightarrow> kv_key \<Rightarrow> storage_error + kv_key" where
  "replay_key ov suffix =
     (case ov_replay_namespace ov of
        None \<Rightarrow> Inl (StorageInvalidInput ''replay namespace unavailable'')
      | Some namespace \<Rightarrow> Inr (namespace @ suffix))"

definition replay_checkpoint :: "'s kv_ops \<Rightarrow> 's overlay_store \<Rightarrow> storage_error + kv_value option" where
  "replay_checkpoint K ov = bind_ok (replay_key ov (ascii ''cursor'')) (kv_get K (ov_base ov))"

definition persist_replay_checkpoint ::
    "'s kv_ops \<Rightarrow> 's overlay_store \<Rightarrow> kv_value \<Rightarrow> storage_error + 's overlay_store" where
  "persist_replay_checkpoint K ov cursor =
     bind_ok (replay_key ov (ascii ''data/'')) (\<lambda>prefix.
     let batch = map (\<lambda>(key, value). Put (prefix @ key)
                        (case value of Some v \<Rightarrow> 1 # v | None \<Rightarrow> [0])) (bt_entries (ov_changes ov))
     in bind_ok (replay_key ov (ascii ''cursor'')) (\<lambda>cursor_key.
        bind_ok (kv_write_batch K (ov_base ov) (batch @ [Put cursor_key cursor])) (\<lambda>base.
          Inr (ov\<lparr>ov_base := base, ov_changes := hm_new, ov_staged_bytes := 0\<rparr>))))"

text \<open>\<open>clear_replay\<close>: rounds of at most 128 keys, each read after the previous one.\<close>

fun clear_round :: "'s kv_ops \<Rightarrow> 's \<Rightarrow> kv_key \<Rightarrow> nat \<Rightarrow> kv_key option \<Rightarrow> storage_error + write_batch" where
  "clear_round K base prefix 0 after = Inr []"
| "clear_round K base prefix (Suc n) after =
     bind_ok (kv_scan_prefix_after K base prefix after 1) (\<lambda>entries.
       if entries = [] then Inr []
       else let key = fst (last entries)
            in bind_ok (clear_round K base prefix n (Some key)) (\<lambda>batch. Inr (Delete key # batch)))"

partial_function (option) clear_rounds :: "'s kv_ops \<Rightarrow> kv_key \<Rightarrow> 's \<Rightarrow> (storage_error + 's) option" where
  "clear_rounds K prefix base =
     (case clear_round K base prefix 128 None of
        Inl e \<Rightarrow> Some (Inl e)
      | Inr batch \<Rightarrow>
          if batch = [] then Some (Inr base)
          else case kv_write_batch K base batch of
                 Inl e \<Rightarrow> Some (Inl e)
               | Inr base \<Rightarrow> clear_rounds K prefix base)"

definition clear_replay :: "'s kv_ops \<Rightarrow> 's overlay_store \<Rightarrow> (storage_error + 's overlay_store) option" where
  "clear_replay K ov =
     (case bind_ok (replay_key ov (ascii ''cursor'')) (\<lambda>cursor_key.
           bind_ok (kv_delete K (ov_base ov) cursor_key) (\<lambda>base.
           bind_ok (replay_key ov (ascii ''data/'')) (\<lambda>prefix. Inr (base, prefix)))) of
        Inl e \<Rightarrow> Some (Inl e)
      | Inr (base, prefix) \<Rightarrow>
          (case clear_rounds K prefix base of
             None \<Rightarrow> None
           | Some (Inl e) \<Rightarrow> Some (Inl e)
           | Some (Inr base) \<Rightarrow> Some (Inr (ov\<lparr>ov_base := base\<rparr>))))"

definition decode_replay_value :: "kv_value \<Rightarrow> storage_error + kv_value option" where
  "decode_replay_value value =
     (if value = [0] then Inr None
      else case value of
        [] \<Rightarrow> Inl (Database ''invalid persisted replay value'')
      | b # rest \<Rightarrow> if b = 1 then Inr (Some rest) else Inl (Database ''invalid persisted replay value''))"

section \<open>Reads and writes\<close>

definition unstaged_value :: "'s kv_ops \<Rightarrow> 's overlay_store \<Rightarrow> kv_key \<Rightarrow> storage_error + kv_value option" where
  "unstaged_value K ov key =
     bind_ok (if ov_replay_namespace ov = None then Inr None
              else bind_ok (replay_key ov (ascii ''data/'')) (\<lambda>prefix. kv_get K (ov_base ov) (prefix @ key)))
       (\<lambda>persisted.
         case persisted of
           Some value \<Rightarrow> decode_replay_value value
         | None \<Rightarrow>
             if list_ex (starts_with key) (ov_frozen_prefixes ov) then Inr None
             else kv_get K (ov_base ov) key)"

definition overlay_get :: "'s kv_ops \<Rightarrow> 's overlay_store \<Rightarrow> kv_key \<Rightarrow> storage_error + kv_value option" where
  "overlay_get K ov key =
     (case hm_get (ov_changes ov) key of Some value \<Rightarrow> Inr value | None \<Rightarrow> unstaged_value K ov key)"

definition commit_with_batch ::
    "'s kv_ops \<Rightarrow> 's overlay_store \<Rightarrow> write_batch \<Rightarrow> storage_error + 's overlay_store" where
  "commit_with_batch K ov additional =
     (if ov_frozen_prefixes ov \<noteq> [] then Inl (Database ''cannot commit a frozen replay overlay'')
      else let batch = map (\<lambda>(key, value). case value of Some v \<Rightarrow> Put key v | None \<Rightarrow> Delete key)
                         (bt_entries (ov_changes ov))
           in bind_ok (kv_write_batch K (ov_base ov) (batch @ additional)) (\<lambda>base.
                Inr (ov\<lparr>ov_base := base, ov_changes := hm_new, ov_staged_bytes := 0\<rparr>)))"

definition merge_change ::
    "(kv_key, kv_value) btreemap \<Rightarrow> kv_key \<times> kv_value option \<Rightarrow> (kv_key, kv_value) btreemap" where
  "merge_change entries kv =
     (case kv of (key, Some value) \<Rightarrow> hm_insert entries key value | (key, None) \<Rightarrow> hm_remove entries key)"

fun merge_replay ::
    "usize \<Rightarrow> (kv_key \<times> kv_value) list \<Rightarrow> (kv_key, kv_value) btreemap
       \<Rightarrow> storage_error + (kv_key, kv_value) btreemap" where
  "merge_replay n [] entries = Inr entries"
| "merge_replay n ((key, value) # kvs) entries =
     bind_ok (decode_replay_value value) (\<lambda>decoded.
       merge_replay n kvs (merge_change entries (drop n key, decoded)))"

definition merged_scan ::
    "'s kv_ops \<Rightarrow> 's overlay_store \<Rightarrow> kv_key \<Rightarrow> storage_error + (kv_key \<times> kv_value) list" where
  "merged_scan K ov prefix =
     bind_ok (if list_ex (starts_with prefix) (ov_frozen_prefixes ov) then Inr []
              else kv_scan_prefix K (ov_base ov) prefix) (\<lambda>scanned.
     let entries = hm_from_list (filter (\<lambda>(key, _). \<not> list_ex (starts_with key) (ov_frozen_prefixes ov)) scanned)
     in bind_ok (case ov_replay_namespace ov of
           None \<Rightarrow> Inr entries
         | Some namespace \<Rightarrow>
             bind_ok (replay_key ov (ascii ''data/'')) (\<lambda>data_prefix.
             bind_ok (kv_scan_prefix K (ov_base ov) (data_prefix @ prefix)) (\<lambda>persisted.
               merge_replay (length data_prefix) persisted
                 (hm_retain (\<lambda>key _. \<not> starts_with key namespace) entries)))) (\<lambda>entries.
        Inr (bt_entries (foldl merge_change entries
               (filter (\<lambda>(key, _). starts_with key prefix) (bt_entries (ov_changes ov)))))))"

text \<open>The batch with one entry per key, and the bytes it would leave staged.\<close>

definition batch_updates :: "write_batch \<Rightarrow> (kv_key, kv_value option) btreemap" where
  "batch_updates batch =
     foldl (\<lambda>updates op. case op of
        Put key value \<Rightarrow> hm_insert updates key (Some value)
      | Delete key \<Rightarrow> hm_insert updates key None) hm_new batch"

definition change_bytes :: "kv_key \<Rightarrow> kv_value option \<Rightarrow> usize" where
  "change_bytes key value = length key + (case value of None \<Rightarrow> 0 | Some v \<Rightarrow> length v) + 64"

definition projected_bytes :: "(kv_key, kv_value option) btreemap \<Rightarrow> usize \<Rightarrow> kv_key \<times> kv_value option \<Rightarrow> usize" where
  "projected_bytes changes bytes kv =
     (case kv of (key, value) \<Rightarrow>
        usize_sat_add
          (case hm_get changes key of Some old \<Rightarrow> bytes - change_bytes key old | None \<Rightarrow> bytes)
          (change_bytes key value))"

definition overlay_write_batch :: "'s overlay_store \<Rightarrow> write_batch \<Rightarrow> storage_error + 's overlay_store" where
  "overlay_write_batch ov batch =
     (let updates = bt_entries (batch_updates batch);
          bytes = foldl (projected_bytes (ov_changes ov)) (ov_staged_bytes ov) updates
      in if (case ov_write_limit ov of None \<Rightarrow> False | Some limit \<Rightarrow> limit < bytes)
         then Inl (Database ''replay overlay write limit exceeded'')
         else Inr (ov\<lparr>ov_changes := foldl (\<lambda>changes (key, value). hm_insert changes key value) (ov_changes ov) updates,
                      ov_staged_bytes := bytes\<rparr>))"

definition overlay_ops :: "'s kv_ops \<Rightarrow> 's overlay_store kv_ops" where
  "overlay_ops K =
     \<lparr>kv_get = overlay_get K,
      kv_put = (\<lambda>ov key value. overlay_write_batch ov [Put key value]),
      kv_delete = (\<lambda>ov key. overlay_write_batch ov [Delete key]),
      kv_write_batch = overlay_write_batch,
      kv_scan_prefix = merged_scan K,
      kv_scan_prefix_after = (\<lambda>ov. default_scan_prefix_after (merged_scan K ov)),
      kv_snapshot_prefixes = (\<lambda>_ _ _. Inl (Database ''consistent prefix snapshots unavailable''))\<rparr>"

section \<open>Rollback journals\<close>

definition checkpoint_prefixes ::
    "'s overlay_store \<Rightarrow> kv_key list \<Rightarrow> (kv_key, kv_value option) btreemap" where
  "checkpoint_prefixes ov prefixes =
     foldl (\<lambda>checkpoint prefix.
       foldl (\<lambda>checkpoint (key, value). hm_insert checkpoint key value) checkpoint
         (takeWhile (\<lambda>e. starts_with (fst e) prefix) (bt_range_from (ov_changes ov) prefix))) hm_new prefixes"

fun journal_entries ::
    "'s kv_ops \<Rightarrow> 's overlay_store \<Rightarrow> (kv_key, kv_value option) btreemap \<Rightarrow> (kv_key \<times> kv_value option) list
       \<Rightarrow> (kv_key, kv_value option) btreemap \<Rightarrow> storage_error + (kv_key, kv_value option) btreemap" where
  "journal_entries K ov checkpoint [] previous = Inr previous"
| "journal_entries K ov checkpoint ((key, value) # entries) previous =
     (if hm_get checkpoint key = Some value then journal_entries K ov checkpoint entries previous
      else bind_ok (case hm_get checkpoint key of Some old \<Rightarrow> Inr old | None \<Rightarrow> unstaged_value K ov key) (\<lambda>old.
        journal_entries K ov checkpoint entries (hm_insert previous key old)))"

fun journal_prefixes ::
    "'s kv_ops \<Rightarrow> 's overlay_store \<Rightarrow> (kv_key, kv_value option) btreemap \<Rightarrow> kv_key list
       \<Rightarrow> (kv_key, kv_value option) btreemap \<Rightarrow> storage_error + (kv_key, kv_value option) btreemap" where
  "journal_prefixes K ov checkpoint [] previous = Inr previous"
| "journal_prefixes K ov checkpoint (prefix # prefixes) previous =
     bind_ok (journal_entries K ov checkpoint
         (takeWhile (\<lambda>e. starts_with (fst e) prefix) (bt_range_from (ov_changes ov) prefix)) previous)
       (journal_prefixes K ov checkpoint prefixes)"

definition previous_values_since ::
    "'s kv_ops \<Rightarrow> 's overlay_store \<Rightarrow> (kv_key, kv_value option) btreemap \<Rightarrow> kv_key list
       \<Rightarrow> storage_error + (kv_key \<times> kv_value option) list" where
  "previous_values_since K ov checkpoint prefixes =
     bind_ok (journal_prefixes K ov checkpoint prefixes hm_new) (\<lambda>previous. Inr (bt_entries previous))"

section \<open>An overlay over a lawful store\<close>

definition plain_overlay :: "'s overlay_store \<Rightarrow> bool" where
  "plain_overlay ov \<longleftrightarrow> ov_replay_namespace ov = None \<and> ov_frozen_prefixes ov = []"

definition overlay_view :: "('s \<Rightarrow> kv_key \<Rightarrow> kv_value option) \<Rightarrow> 's overlay_store \<Rightarrow> kv_key \<Rightarrow> kv_value option" where
  "overlay_view view ov k = (case hm_get (ov_changes ov) k of Some v \<Rightarrow> v | None \<Rightarrow> view (ov_base ov) k)"

lemma apply_views_updates:
  "apply_views batch m k = (case hm_get (batch_updates batch) k of Some v \<Rightarrow> v | None \<Rightarrow> m k)"
  by (induction batch rule: rev_induct)
    (auto simp: batch_updates_def apply_view_def split: write_batch_op.split)

lemma distinct_fst_bt_entries [simp]: "distinct (map fst (bt_entries m))"
  using distinct_bt_keys [of m] by (simp add: bt_keys_def)

lemma map_of_rev_bt_entries: "map_of (rev (bt_entries m)) k = hm_get m k"
  by (simp add: map_of_rev_distinct map_of_bt_entries)

lemma overlay_write_batch_effect:
  assumes "overlay_write_batch ov batch = Inr ov'"
  shows "hm_get (ov_changes ov') k =
      (case hm_get (batch_updates batch) k of Some v \<Rightarrow> Some v | None \<Rightarrow> hm_get (ov_changes ov) k)"
    and "ov_base ov' = ov_base ov" "ov_replay_namespace ov' = ov_replay_namespace ov"
      "ov_frozen_prefixes ov' = ov_frozen_prefixes ov" "ov_write_limit ov' = ov_write_limit ov"
  using assms
  by (auto simp: overlay_write_batch_def Let_def hm_get_foldl_insert map_of_rev_bt_entries split: if_splits)

lemma overlay_write_view:
  assumes "overlay_write_batch ov batch = Inr ov'"
  shows "overlay_view view ov' = apply_views batch (overlay_view view ov)"
  by (rule ext)
    (simp add: overlay_view_def apply_views_updates overlay_write_batch_effect [OF assms] split: option.split)

lemma hm_get_merge_changes:
  "hm_get (foldl merge_change m kvs) k = (case map_of (rev kvs) k of Some v \<Rightarrow> v | None \<Rightarrow> hm_get m k)"
  by (induction kvs rule: rev_induct) (auto simp: merge_change_def split: option.split)

lemma map_of_rev_filter_changes:
  "map_of (rev (filter (\<lambda>(key, _). P key) (bt_entries m))) k = (if P k then hm_get m k else None)"
proof -
  have "map_of (rev (filter (\<lambda>(key, _). P key) (bt_entries m))) = map_of (filter (\<lambda>(key, _). P key) (bt_entries m))"
    by (intro map_of_rev_distinct distinct_map_filter) simp
  then show ?thesis
    by (simp add: map_of_filter_distinct [where P = "\<lambda>key _. P key"] map_of_bt_entries split: option.split)
qed

lemma lists_prefix_map_of:
  assumes "lists_prefix m p entries"
  shows "map_of entries k = (if starts_with k p then m k else None)" and "distinct (map fst entries)"
proof -
  show d: "distinct (map fst entries)" using assms by (simp add: lists_prefix_def strict_sorted_iff)
  have iff: "map_of entries k = Some v \<longleftrightarrow> starts_with k p \<and> m k = Some v" for v
    using assms d by (simp add: lists_prefix_def)
  show "map_of entries k = (if starts_with k p then m k else None)"
  proof (cases "map_of entries k")
    case None
    then show ?thesis using iff by (metis not_None_eq)
  qed (use iff in metis)
qed

lemma lists_prefix_bt_entries:
  "(\<And>k. hm_get e k = (if starts_with k p then m k else None)) \<Longrightarrow> lists_prefix m p (bt_entries e)"
  using sorted_bt_keys [of e] by (auto simp: lists_prefix_def bt_in_entries bt_keys_def)

lemma lists_prefix_exists:
  assumes "finite (dom m)"
  shows "\<exists>entries. lists_prefix m p entries"
proof -
  let ?ks = "sorted_list_of_set {k \<in> dom m. starts_with k p}"
  have "lists_prefix m p (map (\<lambda>k. (k, the (m k))) ?ks)"
    using assms by (auto simp: lists_prefix_def comp_def strict_sorted_list_of_set)
  then show ?thesis by blast
qed

lemma apply_views_commit:
  "apply_views (map (\<lambda>(key, value). case value of Some v \<Rightarrow> Put key v | None \<Rightarrow> Delete key) kvs) m k
   = (case map_of (rev kvs) k of Some v \<Rightarrow> v | None \<Rightarrow> m k)"
  by (induction kvs rule: rev_induct) (auto simp: apply_view_def split: option.split)

context lawful_store
begin

lemma overlay_get_view:
  assumes "inv (ov_base ov)" "plain_overlay ov" "overlay_get K ov k = Inr r"
  shows "r = overlay_view view ov k"
proof (cases "hm_get (ov_changes ov) k")
  case None
  then have "kv_get K (ov_base ov) k = Inr r"
    using assms(2,3) by (simp add: overlay_get_def unstaged_value_def plain_overlay_def bind_ok_def)
  then show ?thesis using get_law [OF assms(1)] None by (simp add: overlay_view_def)
next
  case (Some v)
  then show ?thesis using assms(3) by (simp add: overlay_get_def overlay_view_def)
qed

lemma merged_scan_view:
  assumes "inv (ov_base ov)" "plain_overlay ov" "merged_scan K ov p = Inr entries"
  shows "lists_prefix (overlay_view view ov) p entries"
proof -
  obtain scanned where s: "kv_scan_prefix K (ov_base ov) p = Inr scanned"
    and e: "entries = bt_entries (foldl merge_change (hm_from_list scanned)
        (filter (\<lambda>(key, _). starts_with key p) (bt_entries (ov_changes ov))))"
    using assms(2,3) by (auto simp: merged_scan_def plain_overlay_def bind_simps)
  note lp = lists_prefix_map_of [OF scan_law [OF assms(1) s]]
  show ?thesis
    unfolding e
    by (rule lists_prefix_bt_entries)
      (simp add: hm_get_merge_changes map_of_rev_filter_changes hm_get_from_list_distinct [OF lp(2)] lp(1)
        overlay_view_def split: option.split)
qed

lemma commit_view:
  assumes "inv (ov_base ov)" and "commit_with_batch K ov extra = Inr ov'"
  shows "inv (ov_base ov')" and "view (ov_base ov') = apply_views extra (overlay_view view ov)"
    and "overlay_view view ov' = view (ov_base ov')" and "plain_overlay ov \<Longrightarrow> plain_overlay ov'"
proof -
  let ?batch = "map (\<lambda>(key, value). case value of Some v \<Rightarrow> Put key v | None \<Rightarrow> Delete key) (bt_entries (ov_changes ov))"
  obtain base where w: "kv_write_batch K (ov_base ov) (?batch @ extra) = Inr base"
    and ov': "ov' = ov\<lparr>ov_base := base, ov_changes := hm_new, ov_staged_bytes := 0\<rparr>"
    using assms(2) by (auto simp: commit_with_batch_def Let_def bind_simps split: if_splits)
  have "apply_views ?batch (view (ov_base ov)) = overlay_view view ov"
    by (rule ext) (simp add: apply_views_commit map_of_rev_bt_entries overlay_view_def)
  then show "inv (ov_base ov')" "view (ov_base ov') = apply_views extra (overlay_view view ov)"
    using write_law [OF assms(1) w] by (simp_all add: ov')
  show "overlay_view view ov' = view (ov_base ov')" by (rule ext) (simp add: overlay_view_def ov')
  show "plain_overlay ov \<Longrightarrow> plain_overlay ov'" by (simp add: plain_overlay_def ov')
qed

lemma overlay_after_view:
  assumes "inv (ov_base ov)" "plain_overlay ov"
    and "default_scan_prefix_after (merged_scan K ov) p after limit = Inr entries"
    and fin: "finite (dom (overlay_view view ov))"
  shows "\<exists>all. lists_prefix (overlay_view view ov) p all
      \<and> entries = take limit (filter (\<lambda>(k, _). \<not> (case after of None \<Rightarrow> False | Some a \<Rightarrow> k \<le> a)) all)"
proof (cases "limit = 0")
  case True
  then show ?thesis using assms(3) lists_prefix_exists [OF fin] by (auto simp: default_scan_prefix_after_def)
next
  case False
  then obtain all where "merged_scan K ov p = Inr all"
    and "entries = take limit (filter (\<lambda>(k, _). \<not> (case after of None \<Rightarrow> False | Some a \<Rightarrow> k \<le> a)) all)"
    using assms(3) by (auto simp: default_scan_prefix_after_def bind_simps)
  then show ?thesis using merged_scan_view [OF assms(1,2)] by blast
qed

lemma overlay_write_law:
  assumes "inv (ov_base ov) \<and> plain_overlay ov" and "overlay_write_batch ov batch = Inr ov'"
  shows "(inv (ov_base ov') \<and> plain_overlay ov') \<and> overlay_view view ov' = apply_views batch (overlay_view view ov)"
  using assms(1) overlay_write_view [OF assms(2)]
  by (simp add: plain_overlay_def overlay_write_batch_effect(2-4) [OF assms(2)])

lemma overlay_finite: "inv (ov_base ov) \<Longrightarrow> finite (dom (overlay_view view ov))"
  by (rule finite_subset [of _ "dom (hm_get (ov_changes ov)) \<union> dom (view (ov_base ov))"])
    (auto simp: overlay_view_def finite_view split: option.splits)

lemma overlay_lawful: "lawful_store (overlay_ops K) (\<lambda>ov. inv (ov_base ov) \<and> plain_overlay ov) (overlay_view view)"
proof
  fix ov ov' k v batch
  assume ov: "inv (ov_base ov) \<and> plain_overlay ov"
  show "finite (dom (overlay_view view ov))" using ov by (simp add: overlay_finite)
  show "r = overlay_view view ov k" if "kv_get (overlay_ops K) ov k = Inr r" for r
    using that overlay_get_view ov by (simp add: overlay_ops_def)
  show "(inv (ov_base ov') \<and> plain_overlay ov') \<and> overlay_view view ov' = (overlay_view view ov)(k := Some v)"
    if "kv_put (overlay_ops K) ov k v = Inr ov'"
    using overlay_write_law [OF ov, of "[Put k v]" ov'] that by (simp add: overlay_ops_def apply_view_def)
  show "(inv (ov_base ov') \<and> plain_overlay ov') \<and> overlay_view view ov' = (overlay_view view ov)(k := None)"
    if "kv_delete (overlay_ops K) ov k = Inr ov'"
    using overlay_write_law [OF ov, of "[Delete k]" ov'] that by (simp add: overlay_ops_def apply_view_def)
  show "(inv (ov_base ov') \<and> plain_overlay ov') \<and> overlay_view view ov' = apply_views batch (overlay_view view ov)"
    if "kv_write_batch (overlay_ops K) ov batch = Inr ov'"
    using overlay_write_law [OF ov, of batch ov'] that by (simp add: overlay_ops_def)
  show "lists_prefix (overlay_view view ov) p entries" if "kv_scan_prefix (overlay_ops K) ov p = Inr entries" for p entries
    using that merged_scan_view ov by (simp add: overlay_ops_def)
  show "\<exists>all. lists_prefix (overlay_view view ov) p all
      \<and> entries = take limit (filter (\<lambda>(k, _). \<not> (case after of None \<Rightarrow> False | Some a \<Rightarrow> k \<le> a)) all)"
    if "kv_scan_prefix_after (overlay_ops K) ov p after limit = Inr entries" for p after limit entries
    using that ov by (intro overlay_after_view) (simp_all add: overlay_ops_def overlay_finite)
  show "hm_get m k = (if list_ex (starts_with k) prefixes then overlay_view view ov k else None)"
    if "kv_snapshot_prefixes (overlay_ops K) ov prefixes max_bytes = Inr m" for prefixes max_bytes m
    using that by (simp add: overlay_ops_def)
qed

end

context reliable_store
begin

lemma overlay_plain_ok:
  assumes "inv (ov_base ov)" and "plain_overlay ov"
  shows "\<exists>r. overlay_get K ov k = Inr r" and "\<exists>entries. merged_scan K ov p = Inr entries"
    and "\<exists>ov'. commit_with_batch K ov extra = Inr ov'"
proof -
  show "\<exists>r. overlay_get K ov k = Inr r"
    using assms get_ok [OF assms(1)]
    by (simp add: overlay_get_def unstaged_value_def plain_overlay_def bind_ok_def split: option.split)
  show "\<exists>entries. merged_scan K ov p = Inr entries"
    using assms(2) scan_ok [OF assms(1), of p] by (auto simp: merged_scan_def plain_overlay_def bind_ok_def)
  obtain base where "kv_write_batch K (ov_base ov) (map (\<lambda>(key, value). case value of Some v \<Rightarrow> Put key v
      | None \<Rightarrow> Delete key) (bt_entries (ov_changes ov)) @ extra) = Inr base"
    using write_ok [OF assms(1)] by blast
  then show "\<exists>ov'. commit_with_batch K ov extra = Inr ov'"
    using assms(2) by (simp add: commit_with_batch_def plain_overlay_def bind_ok_def Let_def)
qed

end

interpretation ov_mem: lawful_store "overlay_ops mem_ops" "\<lambda>ov. plain_overlay ov" "overlay_view hm_get"
  using mem.overlay_lawful by simp

section \<open>Reads, scans and commits\<close>

fun overlay_writes :: "'s overlay_store \<Rightarrow> write_batch list \<Rightarrow> storage_error + 's overlay_store" where
  "overlay_writes ov [] = Inr ov"
| "overlay_writes ov (batch # batches) = bind_ok (overlay_write_batch ov batch) (\<lambda>ov. overlay_writes ov batches)"

lemma overlay_writes_view:
  "overlay_writes ov batches = Inr ov' \<Longrightarrow> overlay_view view ov' = apply_views (concat batches) (overlay_view view ov)"
  by (induction batches arbitrary: ov) (auto simp: bind_simps overlay_write_view)

lemma overlay_writes_frame:
  "overlay_writes ov batches = Inr ov' \<Longrightarrow> ov_base ov' = ov_base ov
     \<and> ov_replay_namespace ov' = ov_replay_namespace ov \<and> ov_frozen_prefixes ov' = ov_frozen_prefixes ov
     \<and> ov_write_limit ov' = ov_write_limit ov \<and> dom (hm_get (ov_changes ov)) \<subseteq> dom (hm_get (ov_changes ov'))"
proof (induction batches arbitrary: ov)
  case (Cons batch batches)
  then obtain mid where "overlay_write_batch ov batch = Inr mid" "overlay_writes mid batches = Inr ov'"
    by (auto simp: bind_simps)
  with Cons.IH [OF this(2)] overlay_write_batch_effect [OF this(1)] show ?case
    by (force simp: domIff split: option.splits)
qed simp

text \<open>
  C19: an overlay is its base with the staged batches applied. After any sequence of accepted batches on
  a new overlay of a lawful store, the base is untouched; a read returns the value of the base map
  with the batches applied in order; a scan lists exactly the entries of that map with the prefix,
  in the order of the keys; and a commit, with an additional batch, makes the base that map with the
  additional batch applied last. On a base that does not fail, reads, scans and commits succeed.
\<close>

theorem overlay_refines_updated_map:
  assumes "lawful_store K valid view" and "valid base" and w: "overlay_writes (overlay_new base) batches = Inr ov"
  defines "updated \<equiv> apply_views (concat batches) (view base)"
  shows "ov_base ov = base
    \<and> (\<forall>k r. overlay_get K ov k = Inr r \<longrightarrow> r = updated k)
    \<and> (\<forall>p entries. merged_scan K ov p = Inr entries \<longrightarrow> lists_prefix updated p entries)
    \<and> (\<forall>extra ov'. commit_with_batch K ov extra = Inr ov' \<longrightarrow>
         valid (ov_base ov') \<and> view (ov_base ov') = apply_views extra updated)
    \<and> (reliable_store K valid view \<longrightarrow>
         (\<forall>k. \<exists>r. overlay_get K ov k = Inr r) \<and> (\<forall>p. \<exists>entries. merged_scan K ov p = Inr entries)
         \<and> (\<forall>extra. \<exists>ov'. commit_with_batch K ov extra = Inr ov'))"
proof -
  have plain: "plain_overlay ov" and base: "ov_base ov = base"
    using overlay_writes_frame [OF w] by (simp_all add: plain_overlay_def overlay_new_def)
  moreover have "overlay_view view (overlay_new base) = view base"
    by (rule ext) (simp add: overlay_view_def overlay_new_def)
  then have "overlay_view view ov = updated"
    using overlay_writes_view [OF w, of view] by (simp add: updated_def)
  moreover have "(\<exists>r. overlay_get K ov k = Inr r) \<and> (\<exists>entries. merged_scan K ov p = Inr entries)
      \<and> (\<exists>ov'. commit_with_batch K ov extra = Inr ov')" if "reliable_store K valid view" for k p extra
    using reliable_store.overlay_plain_ok [OF that] plain assms(2) by (simp add: base)
  ultimately show ?thesis
    using assms(2) lawful_store.overlay_get_view [OF assms(1), of ov] lawful_store.merged_scan_view [OF assms(1), of ov]
      lawful_store.commit_view(1,2) [OF assms(1), of ov] by auto
qed

section \<open>Journals\<close>

lemma takeWhile_filter:
  "sorted_wrt (\<lambda>x y. P y \<longrightarrow> P x) xs \<Longrightarrow> takeWhile P xs = filter P xs"
  by (induction xs) (auto simp: filter_empty_conv)

lemma starts_with_between: "p \<le> a \<Longrightarrow> a \<le> b \<Longrightarrow> starts_with b p \<Longrightarrow> starts_with a p"
  using prefix_interval [of p a] prefix_interval [of p b] by (auto split: option.splits)

lemma prefix_range_takeWhile:
  "takeWhile (\<lambda>e. starts_with (fst e) p) (bt_range_from m p) = filter (\<lambda>e. starts_with (fst e) p) (bt_entries m)"
proof -
  have "sorted_wrt (\<lambda>x y. fst x < fst y) (bt_range_from m p)"
    using sorted_bt_keys [of m] unfolding bt_range_from_def bt_keys_def sorted_wrt_map by (rule sorted_wrt_filter)
  then have "sorted_wrt (\<lambda>x y. starts_with (fst y) p \<longrightarrow> starts_with (fst x) p) (bt_range_from m p)"
    by (rule sorted_wrt_mono_rel [rotated])
      (auto simp: bt_range_from_def intro: starts_with_between less_imp_le)
  then have "takeWhile (\<lambda>e. starts_with (fst e) p) (bt_range_from m p) = filter (\<lambda>e. starts_with (fst e) p) (bt_range_from m p)"
    by (rule takeWhile_filter)
  also have "\<dots> = filter (\<lambda>e. starts_with (fst e) p) (bt_entries m)"
    unfolding bt_range_from_def filter_filter by (rule filter_cong) (auto dest: starts_with_le)
  finally show ?thesis .
qed

lemma checkpoint_prefixes_get:
  "hm_get (checkpoint_prefixes ov prefixes) k =
     (if list_ex (starts_with k) prefixes then hm_get (ov_changes ov) k else None)"
proof (induction prefixes rule: rev_induct)
  case (snoc p ps)
  have "map_of (rev (filter (\<lambda>e. starts_with (fst e) p) (bt_entries (ov_changes ov)))) k
      = (if starts_with k p then hm_get (ov_changes ov) k else None)"
    using map_of_rev_filter_changes [of "\<lambda>key. starts_with key p" "ov_changes ov" k] by (simp add: case_prod_unfold)
  then show ?case
    using snoc
    by (auto simp: checkpoint_prefixes_def prefix_range_takeWhile hm_get_foldl_insert split: option.split)
qed (simp add: checkpoint_prefixes_def)

definition journal_value ::
    "'s kv_ops \<Rightarrow> 's overlay_store \<Rightarrow> (kv_key, kv_value option) btreemap \<Rightarrow> kv_key
       \<Rightarrow> storage_error + kv_value option" where
  "journal_value K ov checkpoint k =
     (case hm_get checkpoint k of Some old \<Rightarrow> Inr old | None \<Rightarrow> unstaged_value K ov k)"

text \<open>A journal is right for a set of keys when it has the old value of each that changed.\<close>

definition journals ::
    "'s kv_ops \<Rightarrow> 's overlay_store \<Rightarrow> (kv_key, kv_value option) btreemap \<Rightarrow> (kv_key \<Rightarrow> bool)
       \<Rightarrow> (kv_key, kv_value option) btreemap \<Rightarrow> bool" where
  "journals K ov checkpoint P previous \<longleftrightarrow>
     (\<forall>k. case hm_get previous k of
        Some old \<Rightarrow> journal_value K ov checkpoint k = Inr old
      | None \<Rightarrow> P k \<longrightarrow> hm_get (ov_changes ov) k = None \<or> hm_get checkpoint k = hm_get (ov_changes ov) k)"

lemma journals_insert:
  assumes "journals K ov cp P prev" and "journal_value K ov cp k = Inr old"
  shows "journals K ov cp (\<lambda>x. P x \<or> x = k) (hm_insert prev k old)"
  using assms unfolding journals_def by (auto split: option.splits)

lemma journals_same:
  assumes "journals K ov cp P prev" and "hm_get cp k = hm_get (ov_changes ov) k"
  shows "journals K ov cp (\<lambda>x. P x \<or> x = k) prev"
  using assms unfolding journals_def by (auto split: option.splits)

lemma journals_mono: "journals K ov cp P prev \<Longrightarrow> (\<And>k. Q k \<Longrightarrow> P k) \<Longrightarrow> journals K ov cp Q prev"
  unfolding journals_def by (metis (mono_tags, lifting) option.case_eq_if)

lemma journal_entries_right:
  assumes "journal_entries K ov cp kvs prev = Inr prev'" and "journals K ov cp P prev"
    and "\<forall>(k, v) \<in> set kvs. hm_get (ov_changes ov) k = Some v"
  shows "journals K ov cp (\<lambda>k. P k \<or> k \<in> fst ` set kvs) prev'"
  using assms
proof (induction kvs arbitrary: prev P)
  case (Cons kv kvs)
  obtain k v where kv: "kv = (k, v)" by (cases kv)
  have v: "hm_get (ov_changes ov) k = Some v" using Cons.prems(3) kv by auto
  have rest: "\<forall>(k, v) \<in> set kvs. hm_get (ov_changes ov) k = Some v" using Cons.prems(3) by auto
  obtain prev1 where p1: "journal_entries K ov cp kvs prev1 = Inr prev'" "journals K ov cp (\<lambda>x. P x \<or> x = k) prev1"
  proof (cases "hm_get cp k = Some v")
    case True
    then show ?thesis using that [of prev] Cons.prems(1) journals_same [OF Cons.prems(2), of k] v kv by simp
  next
    case False
    then obtain old where "journal_value K ov cp k = Inr old" "journal_entries K ov cp kvs (hm_insert prev k old) = Inr prev'"
      using Cons.prems(1) kv by (auto simp: bind_simps journal_value_def split: if_splits)
    then show ?thesis using that journals_insert [OF Cons.prems(2)] by blast
  qed
  show ?case using Cons.IH [OF p1 rest] by (rule journals_mono) (auto simp: kv)
qed simp

lemma journal_prefixes_right:
  assumes "journal_prefixes K ov cp ps prev = Inr prev'" and "journals K ov cp P prev"
  shows "journals K ov cp (\<lambda>k. P k \<or> (list_ex (starts_with k) ps \<and> hm_get (ov_changes ov) k \<noteq> None)) prev'"
  using assms
proof (induction ps arbitrary: prev P)
  case (Cons p ps)
  let ?kvs = "filter (\<lambda>e. starts_with (fst e) p) (bt_entries (ov_changes ov))"
  obtain mid where mid: "journal_entries K ov cp ?kvs prev = Inr mid" "journal_prefixes K ov cp ps mid = Inr prev'"
    using Cons.prems(1) by (auto simp: bind_simps prefix_range_takeWhile)
  have "journals K ov cp (\<lambda>k. P k \<or> k \<in> fst ` set ?kvs) mid"
    using mid(1) Cons.prems(2) by (rule journal_entries_right) (auto simp: bt_in_entries)
  moreover have "k \<in> fst ` set ?kvs \<longleftrightarrow> starts_with k p \<and> hm_get (ov_changes ov) k \<noteq> None" for k
    by (force simp: bt_in_entries image_iff)
  ultimately have "journals K ov cp (\<lambda>k. P k \<or> (starts_with k p \<and> hm_get (ov_changes ov) k \<noteq> None)) mid" by simp
  from Cons.IH [OF mid(2) this] show ?case by (rule journals_mono) auto
qed simp

lemma previous_values_right:
  assumes "previous_values_since K ov cp ps = Inr previous"
  shows "case map_of previous k of
      Some old \<Rightarrow> journal_value K ov cp k = Inr old
    | None \<Rightarrow> list_ex (starts_with k) ps \<longrightarrow>
        hm_get (ov_changes ov) k = None \<or> hm_get cp k = hm_get (ov_changes ov) k"
proof -
  obtain m where m: "journal_prefixes K ov cp ps hm_new = Inr m" "previous = bt_entries m"
    using assms by (auto simp: previous_values_since_def bind_simps)
  have "journals K ov cp (\<lambda>_. False) hm_new" by (simp add: journals_def)
  from journal_prefixes_right [OF m(1) this] show ?thesis
    unfolding journals_def m(2) map_of_bt_entries by (auto split: option.splits dest: spec [of _ k])
qed

lemma unstaged_value_frame:
  "ov_base ov' = ov_base ov \<Longrightarrow> ov_replay_namespace ov' = ov_replay_namespace ov \<Longrightarrow>
     ov_frozen_prefixes ov' = ov_frozen_prefixes ov \<Longrightarrow> unstaged_value K ov' k = unstaged_value K ov k"
  by (simp add: unstaged_value_def replay_key_def)

lemma journal_entries_ok:
  "(\<And>k. \<exists>r. unstaged_value K ov k = Inr r) \<Longrightarrow> \<exists>prev'. journal_entries K ov cp kvs prev = Inr prev'"
proof (induction kvs arbitrary: prev)
  case (Cons kv kvs)
  obtain r where "unstaged_value K ov (fst kv) = Inr r" using Cons.prems by blast
  then show ?case using Cons by (cases kv) (auto simp: bind_ok_def split: option.split)
qed simp

lemma journal_prefixes_ok:
  "(\<And>k. \<exists>r. unstaged_value K ov k = Inr r) \<Longrightarrow> \<exists>prev'. journal_prefixes K ov cp ps prev = Inr prev'"
proof (induction ps arbitrary: prev)
  case (Cons p ps)
  obtain mid where "journal_entries K ov cp (takeWhile (\<lambda>e. starts_with (fst e) p) (bt_range_from (ov_changes ov) p)) prev
      = Inr mid"
    using journal_entries_ok [OF Cons.prems] by blast
  then show ?case using Cons.IH [OF Cons.prems, of mid] by (simp add: bind_ok_def)
qed simp

text \<open>
  C20: the rollback journal undoes exactly the writes since a checkpoint. Take a checkpoint of some
  prefixes, stage any batches, and read the previous values of the same prefixes: for every key with
  one of the prefixes, the value that was visible at the checkpoint is the journal's value, or the
  value visible now when the journal has none. The journal is there whenever the base can be read.
\<close>

theorem journal_restores_checkpoint:
  assumes w: "overlay_writes ov batches = Inr ov'"
    and key: "list_ex (starts_with key) prefixes"
  shows "(\<forall>previous. previous_values_since K ov' (checkpoint_prefixes ov prefixes) prefixes = Inr previous \<longrightarrow>
      overlay_get K ov key = (case map_of previous key of Some old \<Rightarrow> Inr old | None \<Rightarrow> overlay_get K ov' key))
    \<and> ((\<forall>k. \<exists>r. unstaged_value K ov k = Inr r) \<longrightarrow>
      (\<exists>previous. previous_values_since K ov' (checkpoint_prefixes ov prefixes) prefixes = Inr previous))"
proof (intro conjI allI impI)
  fix previous
  assume p: "previous_values_since K ov' (checkpoint_prefixes ov prefixes) prefixes = Inr previous"
  note frame = overlay_writes_frame [OF w]
  have un: "unstaged_value K ov' key = unstaged_value K ov key" using frame by (intro unstaged_value_frame) simp_all
  have cp: "hm_get (checkpoint_prefixes ov prefixes) key = hm_get (ov_changes ov) key"
    using key by (simp add: checkpoint_prefixes_get)
  then have jv: "journal_value K ov' (checkpoint_prefixes ov prefixes) key = overlay_get K ov key"
    by (simp add: journal_value_def overlay_get_def un split: option.split)
  have "hm_get (ov_changes ov') key = None \<Longrightarrow> hm_get (ov_changes ov) key = None" using frame by blast
  then show "overlay_get K ov key = (case map_of previous key of Some old \<Rightarrow> Inr old | None \<Rightarrow> overlay_get K ov' key)"
    using previous_values_right [OF p, of key] key cp jv un
    by (auto simp: overlay_get_def split: option.splits)
next
  assume ok: "\<forall>k. \<exists>r. unstaged_value K ov k = Inr r"
  have "unstaged_value K ov' k = unstaged_value K ov k" for k
    using overlay_writes_frame [OF w] by (intro unstaged_value_frame) simp_all
  then have "\<exists>r. unstaged_value K ov' k = Inr r" for k using ok by simp
  from journal_prefixes_ok [OF this] obtain prev
    where "journal_prefixes K ov' (checkpoint_prefixes ov prefixes) prefixes hm_new = Inr prev" by blast
  then show "\<exists>previous. previous_values_since K ov' (checkpoint_prefixes ov prefixes) prefixes = Inr previous"
    by (simp add: previous_values_since_def bind_ok_def)
qed

section \<open>Accounted bytes\<close>

definition staged_total :: "(kv_key, kv_value option) btreemap \<Rightarrow> nat" where
  "staged_total changes = (\<Sum>k \<in> dom (hm_get changes). change_bytes k (the (hm_get changes k)))"

lemma staged_total_insert:
  "staged_total (hm_insert m k v) =
     (case hm_get m k of Some old \<Rightarrow> staged_total m - change_bytes k old | None \<Rightarrow> staged_total m) + change_bytes k v"
  and staged_total_covers: "hm_get m k = Some old \<Longrightarrow> change_bytes k old \<le> staged_total m"
proof -
  let ?f = "\<lambda>m k. change_bytes k (the (hm_get m k))"
  have rest: "staged_total m = (if hm_get m k = None then 0 else ?f m k) + (\<Sum>x \<in> dom (hm_get m) - {k}. ?f m x)" for m
  proof (cases "hm_get m k")
    case None
    then have "dom (hm_get m) - {k} = dom (hm_get m)" by auto
    then show ?thesis by (simp add: staged_total_def None)
  qed (simp add: staged_total_def sum.remove [of _ k] domI)
  have "(\<Sum>x \<in> dom (hm_get (hm_insert m k v)) - {k}. ?f (hm_insert m k v) x) = (\<Sum>x \<in> dom (hm_get m) - {k}. ?f m x)"
    by (rule sum.cong) (auto split: if_splits)
  then have "staged_total (hm_insert m k v) = change_bytes k v + (\<Sum>x \<in> dom (hm_get m) - {k}. ?f m x)"
    unfolding rest [of "hm_insert m k v"] by simp
  then show "staged_total (hm_insert m k v) =
      (case hm_get m k of Some old \<Rightarrow> staged_total m - change_bytes k old | None \<Rightarrow> staged_total m) + change_bytes k v"
    unfolding rest [of m] by (simp split: option.split)
  show "hm_get m k = Some old \<Longrightarrow> change_bytes k old \<le> staged_total m"
    unfolding rest [of m] by simp
qed

lemma projected_bytes_total:
  assumes "staged_total c + sum_list (map (\<lambda>(k, v). change_bytes k v) kvs) < usize_bound" and "distinct (map fst kvs)"
    and "\<forall>k \<in> fst ` set kvs. hm_get c k = hm_get c0 k"
  shows "foldl (projected_bytes c0) (staged_total c) kvs
    = staged_total (foldl (\<lambda>changes (key, value). hm_insert changes key value) c kvs)"
  using assms
proof (induction kvs arbitrary: c)
  case (Cons kv kvs)
  obtain k v where kv: "kv = (k, v)" by (cases kv)
  let ?c = "hm_insert c k v"
  have le: "staged_total ?c \<le> staged_total c + change_bytes k v"
    by (simp add: staged_total_insert split: option.split)
  then have "projected_bytes c0 (staged_total c) kv = staged_total ?c"
    using Cons.prems(1,3) kv
    by (auto simp: projected_bytes_def staged_total_insert usize_sat_add_def split: option.splits)
  moreover have "foldl (projected_bytes c0) (staged_total ?c) kvs
      = staged_total (foldl (\<lambda>changes (key, value). hm_insert changes key value) ?c kvs)"
    using Cons.prems le kv by (intro Cons.IH) auto
  ultimately show ?case by (simp add: kv)
qed simp

definition batch_bytes :: "write_batch \<Rightarrow> nat" where
  "batch_bytes batch = sum_list (map (\<lambda>(k, v). change_bytes k v) (bt_entries (batch_updates batch)))"

definition overlay_accounted :: "'s overlay_store \<Rightarrow> bool" where
  "overlay_accounted ov \<longleftrightarrow>
     ov_staged_bytes ov = staged_total (ov_changes ov)
     \<and> (\<forall>limit. ov_write_limit ov = Some limit \<longrightarrow> ov_staged_bytes ov \<le> limit)"

lemma overlay_write_accounted:
  assumes "overlay_accounted ov" and "overlay_write_batch ov batch = Inr ov'"
    and "staged_total (ov_changes ov) + batch_bytes batch < usize_bound"
  shows "overlay_accounted ov'"
proof -
  let ?updates = "bt_entries (batch_updates batch)"
  have "foldl (projected_bytes (ov_changes ov)) (staged_total (ov_changes ov)) ?updates
      = staged_total (foldl (\<lambda>changes (key, value). hm_insert changes key value) (ov_changes ov) ?updates)"
    using assms(3) by (intro projected_bytes_total) (simp_all add: batch_bytes_def)
  then show ?thesis
    using assms(1,2) by (auto simp: overlay_write_batch_def overlay_accounted_def Let_def split: if_splits option.splits)
qed

lemma staged_total_new: "staged_total hm_new = 0"
  by (simp add: staged_total_def dom_def)

lemma snapshot_accounted:
  assumes "with_snapshot_prefixes K base prefixes max_bytes = Inr ov"
  shows "overlay_accounted ov"
proof -
  obtain m where ov: "ov_staged_bytes ov = sum_list (map (\<lambda>(key, value). length key + length value + 64) (bt_entries m))"
    "ov_changes ov = hm_map (\<lambda>_ value. Some value) m" "ov_write_limit ov = None"
    using assms by (auto simp: with_snapshot_prefixes_def bind_simps)
  have "(\<Sum>(key, value) \<leftarrow> bt_entries m. length key + length value + 64)
      = (\<Sum>k \<leftarrow> bt_keys m. change_bytes k (Some (the (hm_get m k))))"
    unfolding bt_keys_def map_map comp_def
    by (rule arg_cong [where f = sum_list], rule map_cong) (auto simp: bt_in_entries change_bytes_def)
  also have "\<dots> = (\<Sum>k \<in> dom (hm_get m). change_bytes k (Some (the (hm_get m k))))"
    by (simp add: sum_list_distinct_conv_sum_set distinct_bt_keys set_bt_keys)
  also have "\<dots> = staged_total (hm_map (\<lambda>_ value. Some value) m)"
    unfolding staged_total_def by (rule sum.cong) (auto simp: dom_def)
  finally show ?thesis by (simp add: overlay_accounted_def ov)
qed

text \<open>The overlays a caller can build; a batch is in memory, so its size is a \<open>usize\<close>.\<close>

inductive overlay_built :: "'s kv_ops \<Rightarrow> 's overlay_store \<Rightarrow> bool" for K where
  built_new: "overlay_built K (overlay_new base)"
| built_snapshot: "with_snapshot_prefixes K base prefixes max_bytes = Inr ov \<Longrightarrow> overlay_built K ov"
| built_reopen: "reopen_replay base namespace prefixes = Inr ov \<Longrightarrow> overlay_built K ov"
| built_limit: "overlay_built K ov \<Longrightarrow> with_write_limit ov max_bytes = Inr ov' \<Longrightarrow> overlay_built K ov'"
| built_namespace: "overlay_built K ov \<Longrightarrow> with_replay_namespace ov namespace = Inr ov' \<Longrightarrow> overlay_built K ov'"
| built_write: "overlay_built K ov \<Longrightarrow> overlay_write_batch ov batch = Inr ov' \<Longrightarrow>
    staged_total (ov_changes ov) + batch_bytes batch < usize_bound \<Longrightarrow> overlay_built K ov'"
| built_commit: "overlay_built K ov \<Longrightarrow> commit_with_batch K ov extra = Inr ov' \<Longrightarrow> overlay_built K ov'"
| built_persist: "overlay_built K ov \<Longrightarrow> persist_replay_checkpoint K ov cursor = Inr ov' \<Longrightarrow> overlay_built K ov'"
| built_clear: "overlay_built K ov \<Longrightarrow> clear_replay K ov = Some (Inr ov') \<Longrightarrow> overlay_built K ov'"
| built_base: "overlay_built K ov \<Longrightarrow> overlay_built K (ov\<lparr>ov_base := base\<rparr>)"

text \<open>
  C21: the accounting of an overlay is exact: in every overlay that can be built from batches that fit
  the address space together with what is staged, the accounted bytes are the sum over the staged entries of the lengths of key and value and the allowance, so that the
  subtraction on an overwritten entry never goes below zero, and with a write limit the staged data
  never exceeds it.
\<close>

theorem overlay_bytes_exact:
  assumes "overlay_built K ov"
  shows "ov_staged_bytes ov = staged_total (ov_changes ov)
    \<and> (\<forall>limit. ov_write_limit ov = Some limit \<longrightarrow> staged_total (ov_changes ov) \<le> limit)
    \<and> (\<forall>key old. hm_get (ov_changes ov) key = Some old \<longrightarrow> change_bytes key old \<le> ov_staged_bytes ov)"
proof -
  from assms have "overlay_accounted ov"
  proof (induction rule: overlay_built.induct)
    case (built_snapshot base prefixes max_bytes ov)
    then show ?case by (rule snapshot_accounted)
  next
    case (built_write ov batch ov')
    then show ?case by (blast intro: overlay_write_accounted)
  qed (auto simp: overlay_accounted_def overlay_new_def staged_total_new reopen_replay_def with_replay_namespace_def
      with_write_limit_def commit_with_batch_def persist_replay_checkpoint_def clear_replay_def Let_def bind_simps
      split: if_splits sum.splits option.splits)
  then show ?thesis by (auto simp: overlay_accounted_def staged_total_covers)
qed

section \<open>Persisted replays\<close>

abbreviation encode_replay_value :: "kv_value option \<Rightarrow> kv_value" where
  "encode_replay_value value \<equiv> (case value of Some v \<Rightarrow> 1 # v | None \<Rightarrow> [0])"

lemma decode_encode_replay_value [simp]: "decode_replay_value (encode_replay_value value) = Inr value"
  by (simp add: decode_replay_value_def split: option.split)

lemma apply_views_persist:
  "apply_views (map (\<lambda>(key, value). Put (prefix @ key) (encode_replay_value value)) kvs) m x =
     (case (if starts_with x prefix then map_of (rev kvs) (drop (length prefix) x) else None) of
        Some v \<Rightarrow> Some (encode_replay_value v) | None \<Rightarrow> m x)"
proof (induction kvs rule: rev_induct)
  case (snoc kv kvs)
  have "x = prefix @ fst kv \<longleftrightarrow> starts_with x prefix \<and> drop (length prefix) x = fst kv"
    by (auto simp: starts_with_iff)
  then show ?case using snoc by (cases kv) (auto simp: apply_view_def)
qed simp

text \<open>What a read finds below the staged writes.\<close>

definition replay_lookup ::
    "('s \<Rightarrow> kv_key \<Rightarrow> kv_value option) \<Rightarrow> 's overlay_store \<Rightarrow> kv_key \<Rightarrow> storage_error + kv_value option" where
  "replay_lookup view ov key =
     (case (case ov_replay_namespace ov of
              None \<Rightarrow> None | Some n \<Rightarrow> view (ov_base ov) (n @ ascii ''data/'' @ key)) of
        Some value \<Rightarrow> decode_replay_value value
      | None \<Rightarrow> Inr (if list_ex (starts_with key) (ov_frozen_prefixes ov) then None else view (ov_base ov) key))"

context lawful_store
begin

lemma unstaged_value_lookup:
  assumes "inv (ov_base ov)" and "unstaged_value K ov key = Inr r"
  shows "replay_lookup view ov key = Inr r"
proof -
  let ?persisted = "case ov_replay_namespace ov of None \<Rightarrow> None | Some n \<Rightarrow> view (ov_base ov) (n @ ascii ''data/'' @ key)"
  obtain p where p: "(if ov_replay_namespace ov = None then Inr None
       else bind_ok (replay_key ov (ascii ''data/'')) (\<lambda>prefix. kv_get K (ov_base ov) (prefix @ key))) = Inr p"
    and r: "(case p of Some value \<Rightarrow> decode_replay_value value
       | None \<Rightarrow> if list_ex (starts_with key) (ov_frozen_prefixes ov) then Inr None else kv_get K (ov_base ov) key) = Inr r"
    using assms(2) unfolding unstaged_value_def bind_simps by blast
  have pe: "?persisted = p"
  proof (cases "ov_replay_namespace ov")
    case (Some n)
    then have "kv_get K (ov_base ov) (n @ ascii ''data/'' @ key) = Inr p" using p by (simp add: bind_ok_def replay_key_def)
    then show ?thesis using get_law [OF assms(1)] Some by simp
  qed (use p in simp)
  have "(if list_ex (starts_with key) (ov_frozen_prefixes ov) then None else view (ov_base ov) key) = r" if "p = None"
  proof (cases "list_ex (starts_with key) (ov_frozen_prefixes ov)")
    case False
    then have "kv_get K (ov_base ov) key = Inr r" using r that by simp
    from get_law [OF assms(1) this] show ?thesis using False by simp
  qed (use r that in simp)
  then show ?thesis unfolding replay_lookup_def pe using r by (cases p) simp_all
qed

lemma persist_base:
  assumes "inv (ov_base ov)" and "persist_replay_checkpoint K ov cursor = Inr ov'" and ns: "ov_replay_namespace ov = Some n"
  shows "inv (ov_base ov')" and "ov' = ov\<lparr>ov_base := ov_base ov', ov_changes := hm_new, ov_staged_bytes := 0\<rparr>"
    and "view (ov_base ov') x =
      (if x = n @ ascii ''cursor'' then Some cursor
       else case (if starts_with x (n @ ascii ''data/'')
                  then hm_get (ov_changes ov) (drop (length (n @ ascii ''data/'')) x) else None) of
              Some v \<Rightarrow> Some (encode_replay_value v) | None \<Rightarrow> view (ov_base ov) x)"
proof -
  let ?prefix = "n @ ascii ''data/''"
  let ?batch = "map (\<lambda>(key, value). Put (?prefix @ key) (encode_replay_value value)) (bt_entries (ov_changes ov))"
  obtain base where w: "kv_write_batch K (ov_base ov) (?batch @ [Put (n @ ascii ''cursor'') cursor]) = Inr base"
    and ov': "ov' = ov\<lparr>ov_base := base, ov_changes := hm_new, ov_staged_bytes := 0\<rparr>"
    using assms(2) by (auto simp: persist_replay_checkpoint_def replay_key_def ns Let_def bind_simps)
  have "view base x = apply_view (apply_views ?batch (view (ov_base ov))) (Put (n @ ascii ''cursor'') cursor) x"
    using write_law [OF assms(1) w] by simp
  also have "\<dots> = (if x = n @ ascii ''cursor'' then Some cursor else apply_views ?batch (view (ov_base ov)) x)"
    by (simp add: apply_view_def)
  finally show "view (ov_base ov') x =
      (if x = n @ ascii ''cursor'' then Some cursor
       else case (if starts_with x ?prefix then hm_get (ov_changes ov) (drop (length ?prefix) x) else None) of
              Some v \<Rightarrow> Some (encode_replay_value v) | None \<Rightarrow> view (ov_base ov) x)"
    unfolding apply_views_persist map_of_rev_bt_entries by (simp add: ov')
  show "inv (ov_base ov')" using write_law [OF assms(1) w] by (simp add: ov')
  show "ov' = ov\<lparr>ov_base := ov_base ov', ov_changes := hm_new, ov_staged_bytes := 0\<rparr>" by (simp add: ov')
qed

lemma persist_lookup:
  assumes "inv (ov_base ov)" and "persist_replay_checkpoint K ov cursor = Inr ov'" and ns: "ov_replay_namespace ov = Some n"
    and key: "\<not> starts_with key n"
  shows "replay_lookup view ov' key =
    (case hm_get (ov_changes ov) key of Some v \<Rightarrow> Inr v | None \<Rightarrow> replay_lookup view ov key)"
proof -
  note base = persist_base(3) [OF assms(1-3)]
  have fields: "ov_replay_namespace ov' = Some n" "ov_frozen_prefixes ov' = ov_frozen_prefixes ov"
    using ns by (subst persist_base(2) [OF assms(1-3)], simp)+
  have "ascii ''data/'' @ key \<noteq> ascii ''cursor''" by (simp add: ascii_def)
  then have data: "view (ov_base ov') (n @ ascii ''data/'' @ key) = (case hm_get (ov_changes ov) key of
      Some v \<Rightarrow> Some (encode_replay_value v) | None \<Rightarrow> view (ov_base ov) (n @ ascii ''data/'' @ key))"
    unfolding base by (simp add: starts_with_def)
  have "view (ov_base ov') key = view (ov_base ov) key"
    using key unfolding base by (auto simp: starts_with_iff)
  then show ?thesis
    by (simp add: replay_lookup_def fields ns data split: option.split)
qed

end

context reliable_store
begin

lemma unstaged_value_eq: "inv (ov_base ov) \<Longrightarrow> unstaged_value K ov key = replay_lookup view ov key"
  by (auto simp: unstaged_value_def replay_lookup_def replay_key_def bind_ok_def get_eq split: option.split)

end

text \<open>
  C22: persisting a replay is invisible to its reader. When the staged writes of a durable replay are
  persisted with a cursor, every key outside the private namespace reads as before, also after the
  replay is reopened with the same namespace and prefixes, and the stored cursor is the new one; in
  the base store nothing outside the private namespace changes. On a base that does not fail the reads
  succeed.
\<close>

theorem persisted_replay_reads_back:
  assumes lawful: "lawful_store K valid view" and "valid (ov_base ov)" and ns: "ov_replay_namespace ov = Some n"
    and persist: "persist_replay_checkpoint K ov cursor = Inr ov'"
    and reopen: "reopen_replay (ov_base ov') n (ov_frozen_prefixes ov) = Inr again"
    and key: "\<not> starts_with key n" and before: "overlay_get K ov key = Inr r"
  shows "(\<forall>r'. overlay_get K ov' key = Inr r' \<longrightarrow> r' = r)
    \<and> (\<forall>r'. overlay_get K again key = Inr r' \<longrightarrow> r' = r)
    \<and> (\<forall>c. replay_checkpoint K again = Inr c \<longrightarrow> c = Some cursor)
    \<and> view (ov_base ov') key = view (ov_base ov) key
    \<and> (reliable_store K valid view \<longrightarrow> overlay_get K ov' key = Inr r \<and> overlay_get K again key = Inr r
         \<and> replay_checkpoint K again = Inr (Some cursor))"
proof -
  note base = lawful_store.persist_base [OF lawful assms(2) persist ns]
  note unstaged = lawful_store.unstaged_value_lookup [OF lawful]
  have again: "again = \<lparr>ov_base = ov_base ov', ov_write_limit = None, ov_replay_namespace = Some n, ov_staged_bytes = 0,
      ov_frozen_prefixes = ov_frozen_prefixes ov, ov_changes = hm_new\<rparr>"
    using reopen by (auto simp: reopen_replay_def with_replay_namespace_def overlay_new_def split: if_splits)
  have ov': "ov_changes ov' = hm_new" "ov_replay_namespace ov' = Some n" "ov_frozen_prefixes ov' = ov_frozen_prefixes ov"
    using ns by (subst base(2), simp)+
  have same: "replay_lookup view again key = replay_lookup view ov' key"
    by (simp add: replay_lookup_def again ov' split: option.split)
  have lookup: "replay_lookup view ov' key = Inr r"
    using before unstaged [OF assms(2), of key r] lawful_store.persist_lookup [OF lawful assms(2) persist ns key]
    by (cases "hm_get (ov_changes ov) key") (simp_all add: overlay_get_def)
  have "r' = r" if "overlay_get K ov' key = Inr r'" for r'
    using unstaged [OF base(1), of key r'] that lookup by (simp add: overlay_get_def ov')
  moreover have "r' = r" if "overlay_get K again key = Inr r'" for r'
    using unstaged [of again key r'] base(1) that lookup same by (simp add: overlay_get_def again)
  moreover have "c = Some cursor" if "replay_checkpoint K again = Inr c" for c
    using that lawful_store.get_law [OF lawful base(1), of "n @ ascii ''cursor''" c] base(3) [of "n @ ascii ''cursor''"]
    by (simp add: replay_checkpoint_def replay_key_def again bind_ok_def)
  moreover have "view (ov_base ov') key = view (ov_base ov) key"
    using key unfolding base(3) by (auto simp: starts_with_iff)
  moreover have "overlay_get K ov' key = Inr r \<and> overlay_get K again key = Inr r
      \<and> replay_checkpoint K again = Inr (Some cursor)" if rel: "reliable_store K valid view"
    using reliable_store.unstaged_value_eq [OF rel, of ov' key] reliable_store.unstaged_value_eq [OF rel, of again key]
      reliable_store.get_eq [OF rel base(1), of "n @ ascii ''cursor''"] base(1) base(3) [of "n @ ascii ''cursor''"]
      lookup same
    by (simp add: overlay_get_def ov' again replay_checkpoint_def replay_key_def bind_ok_def)
  ultimately show ?thesis by blast
qed

section \<open>Erasing a replay\<close>

context lawful_store
begin

lemma scan_after_one:
  assumes "inv s" and "kv_scan_prefix_after K s prefix after 1 = Inr entries"
  shows "entries \<noteq> [] \<Longrightarrow> starts_with (fst (last entries)) prefix \<and> view s (fst (last entries)) \<noteq> None"
    and "entries = [] \<Longrightarrow> after = None \<Longrightarrow> starts_with k prefix \<Longrightarrow> view s k = None"
proof -
  obtain all where all: "lists_prefix (view s) prefix all"
    and e: "entries = take 1 (filter (\<lambda>(k, _). \<not> (case after of None \<Rightarrow> False | Some a \<Rightarrow> k \<le> a)) all)"
    using after_law [OF assms] by blast
  show "starts_with (fst (last entries)) prefix \<and> view s (fst (last entries)) \<noteq> None" if "entries \<noteq> []"
  proof -
    have "last entries \<in> set all" using in_set_takeD [OF last_in_set [OF that, unfolded e]] e by simp
    moreover obtain k v where "last entries = (k, v)" by (cases "last entries")
    ultimately show ?thesis using all unfolding lists_prefix_def by (metis fst_conv option.distinct(1))
  qed
  show "view s k = None" if "entries = []" "after = None" "starts_with k prefix"
  proof -
    have "all = []" using e that(1,2) by (auto simp: filter_empty_conv split: list.splits)
    then show ?thesis using all that(3) by (cases "view s k") (auto simp: lists_prefix_def)
  qed
qed

lemma clear_round_keys:
  assumes "inv s" and "clear_round K s prefix n after = Inr batch"
  shows "\<exists>keys. batch = map Delete keys \<and> (\<forall>k \<in> set keys. starts_with k prefix \<and> view s k \<noteq> None)"
    and "batch = [] \<Longrightarrow> 0 < n \<Longrightarrow> after = None \<Longrightarrow> starts_with k prefix \<Longrightarrow> view s k = None"
proof -
  show "\<exists>keys. batch = map Delete keys \<and> (\<forall>k \<in> set keys. starts_with k prefix \<and> view s k \<noteq> None)"
    using assms(2)
  proof (induction n arbitrary: after batch)
    case (Suc n)
    then obtain entries where e: "kv_scan_prefix_after K s prefix after 1 = Inr entries" by (auto simp: bind_simps)
    show ?case
    proof (cases "entries = []")
      case True
      then show ?thesis using Suc.prems e by (auto simp: bind_ok_def)
    next
      case False
      then obtain rest where r: "clear_round K s prefix n (Some (fst (last entries))) = Inr rest"
        and b: "batch = Delete (fst (last entries)) # rest"
        using Suc.prems e by (auto simp: bind_simps Let_def)
      from Suc.IH [OF r] obtain keys where
        "rest = map Delete keys \<and> (\<forall>k \<in> set keys. starts_with k prefix \<and> view s k \<noteq> None)" by blast
      then show ?thesis
        using b scan_after_one(1) [OF assms(1) e False] by (intro exI [of _ "fst (last entries) # keys"]) simp
    qed
  qed simp
  show "view s k = None" if e0: "batch = []" "0 < n" "after = None" "starts_with k prefix"
  proof -
    obtain m where n: "n = Suc m" using e0(2) by (cases n) simp_all
    with assms(2) obtain entries where e: "kv_scan_prefix_after K s prefix None 1 = Inr entries" "entries = []"
      using e0(1,3) by (auto simp: bind_simps Let_def split: if_splits)
    from scan_after_one(2) [OF assms(1) e(1,2) refl e0(4)] show ?thesis .
  qed
qed

lemma apply_views_deletes: "apply_views (map Delete keys) m k = (if k \<in> set keys then None else m k)"
  by (induction keys arbitrary: m) (auto simp: apply_view_def)

lemma clear_rounds_erases:
  assumes "inv s"
  shows "\<exists>r. clear_rounds K prefix s = Some r \<and>
    (\<forall>s'. r = Inr s' \<longrightarrow> inv s' \<and> view s' = (\<lambda>k. if starts_with k prefix then None else view s k)) \<and>
    (\<forall>e. r = Inl e \<longrightarrow> (\<exists>s'. inv s' \<and>
       (clear_round K s' prefix 128 None = Inl e \<or> (\<exists>batch. kv_write_batch K s' batch = Inl e))))"
  using assms
proof (induction "card {k \<in> dom (view s). starts_with k prefix}" arbitrary: s rule: less_induct)
  case less
  let ?D = "\<lambda>s. {k \<in> dom (view s). starts_with k prefix}"
  show ?case
  proof (cases "clear_round K s prefix 128 None")
    case (Inl e)
    then show ?thesis using less.prems by (auto simp: clear_rounds.simps)
  next
    case (Inr batch)
    obtain keys where keys: "batch = map Delete keys" "\<forall>k \<in> set keys. starts_with k prefix \<and> view s k \<noteq> None"
      using clear_round_keys(1) [OF less.prems Inr] by blast
    show ?thesis
    proof (cases "batch = []")
      case True
      then have "view s = (\<lambda>k. if starts_with k prefix then None else view s k)"
        using clear_round_keys(2) [OF less.prems Inr] by auto
      then show ?thesis using True Inr less.prems by (simp add: clear_rounds.simps [of K prefix s])
    next
      case False
      show ?thesis
      proof (cases "kv_write_batch K s batch")
        case (Inl e)
        then show ?thesis using Inr False less.prems by (auto simp: clear_rounds.simps [of K prefix s])
      next
        case wr: (Inr s1)
        then have s1: "inv s1" "view s1 = (\<lambda>k. if k \<in> set keys then None else view s k)"
          using write_law [OF less.prems wr] by (auto simp: keys(1) apply_views_deletes fun_eq_iff)
        obtain a where a: "a \<in> set keys" using keys(1) False by (cases keys) auto
        have "?D s1 \<subseteq> ?D s - {a}" using a by (auto simp: s1(2) split: if_splits)
        moreover have "a \<in> ?D s" using a keys(2) by blast
        ultimately have "?D s1 \<subset> ?D s" by blast
        then have "card (?D s1) < card (?D s)" using finite_view [OF less.prems] by (intro psubset_card_mono) auto
        from less.hyps [OF this s1(1)] obtain r where r: "clear_rounds K prefix s1 = Some r"
          "\<forall>s'. r = Inr s' \<longrightarrow> inv s' \<and> view s' = (\<lambda>k. if starts_with k prefix then None else view s1 k)"
          "\<forall>e. r = Inl e \<longrightarrow> (\<exists>s'. inv s' \<and>
             (clear_round K s' prefix 128 None = Inl e \<or> (\<exists>batch. kv_write_batch K s' batch = Inl e)))" by blast
        have "(\<lambda>k. if starts_with k prefix then None else view s1 k) = (\<lambda>k. if starts_with k prefix then None else view s k)"
          using keys(2) by (auto simp: s1(2) fun_eq_iff)
        then show ?thesis using r Inr False wr by (simp add: clear_rounds.simps [of K prefix s])
      qed
    qed
  qed
qed

end

context reliable_store
begin

lemma clear_round_ok: "inv s \<Longrightarrow> \<exists>batch. clear_round K s prefix n after = Inr batch"
proof (induction n arbitrary: after)
  case (Suc n)
  obtain entries where "kv_scan_prefix_after K s prefix after 1 = Inr entries" using after_ok [OF Suc.prems] by blast
  then show ?case using Suc.IH [OF Suc.prems, of "Some (fst (last entries))"] by (auto simp: bind_ok_def)
qed simp

lemma clear_rounds_ok: "inv s \<Longrightarrow> \<exists>s'. clear_rounds K prefix s = Some (Inr s')"
  using clear_rounds_erases [of s prefix] clear_round_ok write_ok by (metis Inl_Inr_False sumE)

end

text \<open>
  C23: over a base that obeys the laws of a key-value store, whose operations may fail at any point,
  clearing a replay ends. When it succeeds it has removed the cursor and every persisted entry of the
  replay, and nothing else; it succeeds for a durable replay on a base that does not fail. (A base that
  confirms a batch without applying it is not lawful, and would be scanned forever.)
\<close>

theorem clear_replay_ends_and_erases:
  assumes lawful: "lawful_store K valid view" and base: "valid (ov_base ov)"
  shows "\<exists>r. clear_replay K ov = Some r \<and> (\<forall>ov' n. r = Inr ov' \<longrightarrow> ov_replay_namespace ov = Some n \<longrightarrow>
    view (ov_base ov') = (\<lambda>k. if k = n @ ascii ''cursor'' \<or> starts_with k (n @ ascii ''data/'') then None
                              else view (ov_base ov) k))
    \<and> (reliable_store K valid view \<longrightarrow> ov_replay_namespace ov \<noteq> None \<longrightarrow> (\<exists>ov'. r = Inr ov'))"
proof (cases "ov_replay_namespace ov")
  case None
  then show ?thesis by (simp add: clear_replay_def replay_key_def bind_ok_def)
next
  case (Some n)
  show ?thesis
  proof (cases "kv_delete K (ov_base ov) (n @ ascii ''cursor'')")
    case (Inl e)
    have "\<not> reliable_store K valid view" using reliable_store.delete_ok [of K valid view, OF _ base] Inl by (metis Inl_Inr_False)
    then show ?thesis using Some Inl by (simp add: clear_replay_def replay_key_def bind_ok_def)
  next
    case (Inr b)
    have b: "valid b" "view b = (view (ov_base ov))(n @ ascii ''cursor'' := None)"
      using lawful_store.delete_law [OF lawful base Inr] by simp_all
    obtain r where r: "clear_rounds K (n @ ascii ''data/'') b = Some r"
      "\<And>s'. r = Inr s' \<Longrightarrow> view s' = (\<lambda>k. if starts_with k (n @ ascii ''data/'') then None else view b k)"
      using lawful_store.clear_rounds_erases [OF lawful b(1)] by blast
    have "\<exists>s'. r = Inr s'" if "reliable_store K valid view"
      using reliable_store.clear_rounds_ok [OF that b(1), of "n @ ascii ''data/''"] r(1) by simp
    with r show ?thesis
      using Some Inr by (cases r) (auto simp: clear_replay_def replay_key_def bind_ok_def b(2) fun_eq_iff)
  qed
qed


section \<open>An overlay of the in-memory store\<close>

definition demo_db :: memory_db where
  "demo_db = hm_from_list [([1], [10]), ([2], [20])]"

definition demo_batches :: "write_batch list" where
  "demo_batches = [[Put [1] [7], Delete [2]], [Put [3] [30]]]"

definition demo_overlay :: "memory_db overlay_store" where
  "demo_overlay = projr (overlay_writes (overlay_new demo_db) demo_batches)"

definition demo_replay :: "memory_db overlay_store" where
  "demo_replay = (overlay_new demo_db)\<lparr>ov_frozen_prefixes := [[1]], ov_replay_namespace := Some [9],
     ov_changes := hm_insert hm_new [1, 4] (Some [44])\<rparr>"

definition demo_persisted :: "memory_db overlay_store" where
  "demo_persisted = projr (persist_replay_checkpoint mem_ops demo_replay [5])"

definition demo_limited_overlay :: "memory_db overlay_store" where
  "demo_limited_overlay = (overlay_new demo_db)\<lparr>ov_write_limit := Some 100, ov_staged_bytes := 66,
     ov_changes := hm_insert hm_new [1] (Some [7])\<rparr>"

lemma demo_get: "hm_get demo_db k = (if k = [1] then Some [10] else if k = [2] then Some [20] else None)"
  by (simp add: demo_db_def hm_get_from_list)

lemma demo_writes: "overlay_writes (overlay_new demo_db) demo_batches = Inr demo_overlay"
  by (simp add: demo_overlay_def demo_batches_def overlay_write_batch_def overlay_new_def bind_ok_def Let_def)

lemma demo_persist:
  "persist_replay_checkpoint mem_ops demo_replay [5] = Inr demo_persisted"
  "reopen_replay (ov_base demo_persisted) [9] (ov_frozen_prefixes demo_replay)
   = Inr ((overlay_new (ov_base demo_persisted))\<lparr>ov_frozen_prefixes := [[1]], ov_replay_namespace := Some [9]\<rparr>)"
  by (simp_all add: demo_persisted_def demo_replay_def persist_replay_checkpoint_def replay_key_def bind_ok_def Let_def
      mem_ops_simps reopen_replay_def with_replay_namespace_def overlay_new_def)

theorem overlay_refines_updated_map_witness:
  "overlay_get mem_ops demo_overlay [1] = Inr (Some [7]) \<and> overlay_get mem_ops demo_overlay [2] = Inr None
   \<and> hm_get (ov_base demo_overlay) [1] = Some [10]"
proof -
  have ok: "reliable_store mem_ops (\<lambda>_. True) hm_get" by (rule mem_ok.reliable_store_axioms)
  note all = overlay_refines_updated_map [OF mem.lawful_store_axioms TrueI demo_writes]
  have "overlay_get mem_ops demo_overlay k = Inr (apply_views (concat demo_batches) (hm_get demo_db) k)" for k
    using all ok by metis
  then show ?thesis using all by (simp add: demo_batches_def apply_view_def demo_get)
qed

theorem journal_restores_checkpoint_witness:
  "\<exists>previous. previous_values_since mem_ops demo_overlay (checkpoint_prefixes (overlay_new demo_db) [[1], [2]]) [[1], [2]]
     = Inr previous
   \<and> (case map_of previous [2] of Some old \<Rightarrow> Inr old | None \<Rightarrow> overlay_get mem_ops demo_overlay [2]) = Inr (Some [20])"
proof -
  have "\<forall>k. \<exists>r. unstaged_value mem_ops (overlay_new demo_db) k = Inr r"
    by (simp add: unstaged_value_def overlay_new_def bind_ok_def mem_ops_simps)
  moreover have "overlay_get mem_ops (overlay_new demo_db) [2] = Inr (Some [20])"
    by (simp add: overlay_get_def unstaged_value_def overlay_new_def bind_ok_def mem_ops_simps demo_get)
  ultimately show ?thesis
    using journal_restores_checkpoint [OF demo_writes, of "[2]" "[[1], [2]]" mem_ops] by (auto simp: starts_with_iff)
qed

lemma demo_limited:
  "overlay_built mem_ops demo_limited_overlay"
  "hm_get (ov_changes demo_limited_overlay) [1] = Some (Some [7])"
  "ov_write_limit demo_limited_overlay = Some 100"
proof -
  let ?ov = "(overlay_new demo_db)\<lparr>ov_write_limit := Some 100\<rparr>"
  have updates: "bt_entries (batch_updates [Put [1] [7]]) = [([1], Some [7])]" by code_simp
  have w: "overlay_write_batch ?ov [Put [1] [7]] = Inr demo_limited_overlay"
    by (simp add: overlay_write_batch_def Let_def updates demo_limited_overlay_def overlay_new_def projected_bytes_def
        change_bytes_def usize_sat_add_def usize_bound_def)
  have "overlay_built mem_ops ?ov"
    by (rule built_limit [OF built_new, of demo_db 100]) (simp add: with_write_limit_def overlay_new_def)
  moreover have "staged_total (ov_changes ?ov) + batch_bytes [Put [1] [7]] < usize_bound"
    by (simp add: overlay_new_def staged_total_new batch_bytes_def updates change_bytes_def usize_bound_def)
  ultimately show "overlay_built mem_ops demo_limited_overlay" by (rule built_write [OF _ w])
qed (simp_all add: demo_limited_overlay_def)

theorem overlay_bytes_exact_witness:
  "ov_staged_bytes demo_limited_overlay = 66 \<and> staged_total (ov_changes demo_limited_overlay) = 66"
  using overlay_bytes_exact [OF demo_limited(1)] by (simp add: demo_limited_overlay_def)

theorem persisted_replay_reads_back_witness:
  "overlay_get mem_ops demo_persisted [1, 4] = Inr (Some [44]) \<and> hm_get (ov_base demo_persisted) [1, 4] = None"
proof -
  have ns: "ov_replay_namespace demo_replay = Some [9]" by (simp add: demo_replay_def)
  have get: "overlay_get mem_ops demo_replay [1, 4] = Inr (Some [44])" by (simp add: demo_replay_def overlay_get_def)
  have base: "hm_get (ov_base demo_replay) [1, 4] = None" by (simp add: demo_replay_def overlay_new_def demo_get)
  have "\<not> starts_with [1, 4] [9]" by (simp add: starts_with_iff)
  note all = persisted_replay_reads_back [OF mem.lawful_store_axioms TrueI ns demo_persist this get]
  have "overlay_get mem_ops demo_persisted [1, 4] = Inr (Some [44])" using all mem_ok.reliable_store_axioms by blast
  moreover have "hm_get (ov_base demo_persisted) [1, 4] = hm_get (ov_base demo_replay) [1, 4]" using all by blast
  ultimately show ?thesis using base by (simp only:)
qed

theorem clear_replay_ends_and_erases_witness:
  "\<exists>ov'. clear_replay mem_ops demo_persisted = Some (Inr ov') \<and> hm_get (ov_base ov') [1] = Some [10]
     \<and> hm_get (ov_base ov') ([9] @ ascii ''data/'' @ [1, 4]) = None"
proof -
  have ns: "ov_replay_namespace demo_persisted = Some [9]"
    by (simp add: demo_persisted_def demo_replay_def persist_replay_checkpoint_def replay_key_def bind_ok_def Let_def
        mem_ops_simps)
  have "hm_get (ov_base demo_persisted) [1] = Some [10]"
    by (subst mem.persist_base(3) [OF TrueI demo_persist(1)])
      (simp_all add: demo_replay_def overlay_new_def demo_get ascii_def starts_with_iff)
  then show ?thesis
    using clear_replay_ends_and_erases [OF mem.lawful_store_axioms TrueI, of demo_persisted] ns
      mem_ok.reliable_store_axioms by (elim exE conjE) (simp, elim exE, simp add: ascii_def starts_with_iff)
qed

end
