(* ===== verification/Parallel_Plan.thy ===== *)
theory Parallel_Plan
  imports Primitives "HOL-Library.Multiset"
begin

text \<open>
  The scheduler of \<open>crates/pqvm/src/parallel.rs\<close> for parallel execution, with the read and write
  sets of \<open>rwset.rs\<close>: a conflict graph over a batch of transactions and a greedy plan of waves. The
  extractor of read and write sets is a trait object and a parameter here; transactions are only
  passed to it and to the executor, so their type is a variable. The thread pool is not modelled: a
  parallel wave is a list of results, in the order of the wave, as \<open>rayon\<close> collects them.

  The theorems: the waves cut the block in order, with no conflict inside a parallel wave and a
  conflict at each cut; running each parallel wave in any order ends in the state of the serial
  block, when each transaction stays within its complete read and write set; the collected results
  are those of a serial run.
\<close>

section \<open>Read and write sets\<close>

datatype access_path =
    GlobalState
  | NativeBalance address
  | NativeNonce address
  | ContractStorageAny address
  | Erc20Balance address address
  | ValidatorSet
  | PqPublicKey address
  | ValidationCode address

record rw_set =
  rw_reads :: "access_path list"
  rw_writes :: "access_path list"
  rw_complete :: bool

section \<open>The conflict graph\<close>

datatype conflict_reason = ReadWrite | WriteWrite | Incomplete

record tx_conflict =
  cf_left :: usize
  cf_right :: usize
  cf_reason :: conflict_reason
  cf_shared_paths :: "access_path list"

record conflict_graph =
  cg_rwsets :: "rw_set list"
  cg_conflicts :: "tx_conflict list"

definition access_paths_conflict :: "access_path \<Rightarrow> access_path \<Rightarrow> bool" where
  "access_paths_conflict l r =
     (l = GlobalState \<or> r = GlobalState \<or>
      (case (l, r) of
         (NativeBalance a, NativeBalance b) \<Rightarrow> a = b
       | (NativeNonce a, NativeNonce b) \<Rightarrow> a = b
       | (PqPublicKey a, PqPublicKey b) \<Rightarrow> a = b
       | (ValidationCode a, ValidationCode b) \<Rightarrow> a = b
       | (ValidatorSet, ValidatorSet) \<Rightarrow> True
       | (Erc20Balance token owner, Erc20Balance token' owner') \<Rightarrow> token = token' \<and> owner = owner'
       | (ContractStorageAny a, ContractStorageAny b) \<Rightarrow> a = b
       | (ContractStorageAny a, Erc20Balance token _) \<Rightarrow> a = token
       | (Erc20Balance token _, ContractStorageAny a) \<Rightarrow> a = token
       | _ \<Rightarrow> False))"

definition push_unique :: "access_path list \<Rightarrow> access_path \<Rightarrow> access_path list" where
  "push_unique paths candidate = (if candidate \<in> set paths then paths else paths @ [candidate])"

text \<open>One of the two loops of \<open>detect_conflict\<close>: the writes of one side against all of the other.\<close>

definition collect_shared :: "access_path list \<Rightarrow> rw_set \<Rightarrow> access_path list \<Rightarrow> access_path list" where
  "collect_shared writes other shared_paths =
     foldl (\<lambda>paths w. foldl (\<lambda>paths p. if access_paths_conflict w p then push_unique paths w else paths) paths
              (rw_reads other @ rw_writes other)) shared_paths writes"

definition detect_conflict :: "usize \<Rightarrow> usize \<Rightarrow> rw_set \<Rightarrow> rw_set \<Rightarrow> tx_conflict option" where
  "detect_conflict left_index right_index l r =
     (let shared_paths = collect_shared (rw_writes r) l (collect_shared (rw_writes l) r [])
      in if shared_paths \<noteq> []
         then Some \<lparr>cf_left = left_index, cf_right = right_index,
                cf_reason =
                  (if \<not> rw_complete l \<or> \<not> rw_complete r then Incomplete
                   else if list_ex (\<lambda>p. list_ex (access_paths_conflict p) (rw_writes r)) (rw_writes l) then WriteWrite
                   else ReadWrite),
                cf_shared_paths = shared_paths\<rparr>
         else if \<not> rw_complete l \<or> \<not> rw_complete r
         then Some \<lparr>cf_left = left_index, cf_right = right_index, cf_reason = Incomplete,
                cf_shared_paths = [GlobalState]\<rparr>
         else None)"

definition graph_build :: "rw_set list \<Rightarrow> conflict_graph" where
  "graph_build rwsets =
     \<lparr>cg_rwsets = rwsets,
      cg_conflicts =
        concat (map (\<lambda>left. List.map_filter (\<lambda>right. detect_conflict left right (rwsets ! left) (rwsets ! right))
                  [left + 1..<length rwsets]) [0..<length rwsets])\<rparr>"

definition has_conflict :: "conflict_graph \<Rightarrow> usize \<Rightarrow> usize \<Rightarrow> bool" where
  "has_conflict g left right =
     list_ex (\<lambda>edge. (cf_left edge = left \<and> cf_right edge = right) \<or> (cf_left edge = right \<and> cf_right edge = left))
       (cg_conflicts g)"

section \<open>The plan\<close>

record parallel_config =
  pc_enabled :: bool
  pc_max_workers :: usize
  pc_fallback_on_incomplete :: bool

record execution_wave =
  tx_indices :: "usize list"
  parallelizable :: bool

record execution_plan =
  waves :: "execution_wave list"
  fallback_serial :: bool

definition serial_plan :: "usize \<Rightarrow> execution_plan" where
  "serial_plan len =
     \<lparr>waves = [\<lparr>tx_indices = [0..<len], parallelizable = False\<rparr>], fallback_serial = True\<rparr>"

definition conflicts_by_tx :: "conflict_graph \<Rightarrow> usize set list" where
  "conflicts_by_tx g =
     foldl (\<lambda>sets conflict.
       if cf_left conflict < length sets \<and> cf_right conflict < length sets
       then let sets = sets[cf_left conflict := insert (cf_right conflict) (sets ! cf_left conflict)]
            in sets[cf_right conflict := insert (cf_left conflict) (sets ! cf_right conflict)]
       else sets) (replicate (length (cg_rwsets g)) {}) (cg_conflicts g)"

definition can_join_last_wave :: "execution_wave list \<Rightarrow> bool list \<Rightarrow> usize set \<Rightarrow> bool" where
  "can_join_last_wave ws in_last_wave tx_conflicts =
     (ws \<noteq> [] \<and>
      (let wave = last ws
       in if card tx_conflicts < length (tx_indices wave)
          then (\<forall>conflict \<in> tx_conflicts. \<not> in_last_wave ! conflict)
          else list_all (\<lambda>existing. existing \<notin> tx_conflicts) (tx_indices wave)))"

definition schedule_tx ::
    "execution_wave list \<times> bool list \<Rightarrow> usize \<times> usize set \<Rightarrow> execution_wave list \<times> bool list" where
  "schedule_tx st tx =
     (case st of (ws, in_last_wave) \<Rightarrow> case tx of (tx_index, tx_conflicts) \<Rightarrow>
        if can_join_last_wave ws in_last_wave tx_conflicts
        then (butlast ws @ [\<lparr>tx_indices = tx_indices (last ws) @ [tx_index], parallelizable = True\<rparr>],
              in_last_wave[tx_index := True])
        else let in_last_wave = (if ws = [] then in_last_wave
                   else foldl (\<lambda>marks existing. marks[existing := False]) in_last_wave (tx_indices (last ws)))
             in (ws @ [\<lparr>tx_indices = [tx_index], parallelizable = False\<rparr>], in_last_wave[tx_index := True]))"

definition plan_from_graph :: "parallel_config \<Rightarrow> conflict_graph \<Rightarrow> execution_plan" where
  "plan_from_graph config g =
     (let n = length (cg_rwsets g)
      in if cg_rwsets g = [] then \<lparr>waves = [], fallback_serial = False\<rparr>
         else if \<not> pc_enabled config then serial_plan n
         else if pc_fallback_on_incomplete config \<and> list_ex (\<lambda>rw. \<not> rw_complete rw) (cg_rwsets g)
         then \<lparr>waves = [\<lparr>tx_indices = [0..<n], parallelizable = False\<rparr>], fallback_serial = True\<rparr>
         else if cg_conflicts g = []
         then \<lparr>waves = [\<lparr>tx_indices = [0..<n], parallelizable = 1 < n\<rparr>], fallback_serial = False\<rparr>
         else \<lparr>waves = fst (foldl schedule_tx ([], replicate n False) (zip [0..<n] (conflicts_by_tx g))),
               fallback_serial = False\<rparr>)"

definition scheduler_plan :: "parallel_config \<Rightarrow> ('tx \<Rightarrow> rw_set) \<Rightarrow> 'tx list \<Rightarrow> conflict_graph \<times> execution_plan" where
  "scheduler_plan config extract txs =
     (let graph = graph_build (map extract txs) in (graph, plan_from_graph config graph))"

section \<open>Execution\<close>

fun push_results :: "('e + 't) list \<Rightarrow> 't list \<Rightarrow> 'e + 't list" where
  "push_results [] outputs = Inr outputs"
| "push_results (result # results) outputs = bind_ok result (\<lambda>out. push_results results (outputs @ [out]))"

fun run_serially :: "('tx \<Rightarrow> 'e + 't) \<Rightarrow> 'tx list \<Rightarrow> usize list \<Rightarrow> 't list \<Rightarrow> 'e + 't list" where
  "run_serially execute_tx txs [] outputs = Inr outputs"
| "run_serially execute_tx txs (index # indices) outputs =
     bind_ok (execute_tx (txs ! index)) (\<lambda>out. run_serially execute_tx txs indices (outputs @ [out]))"

fun execute_waves :: "('tx \<Rightarrow> 'e + 't) \<Rightarrow> 'tx list \<Rightarrow> execution_wave list \<Rightarrow> 't list \<Rightarrow> 'e + 't list" where
  "execute_waves execute_tx txs [] outputs = Inr outputs"
| "execute_waves execute_tx txs (wave # ws) outputs =
     bind_ok (if parallelizable wave
              then push_results (map (\<lambda>index. execute_tx (txs ! index)) (tx_indices wave)) outputs
              else run_serially execute_tx txs (tx_indices wave) outputs)
       (execute_waves execute_tx txs ws)"


section \<open>The graph has exactly the conflicting pairs\<close>

definition rw_conflict :: "rw_set \<Rightarrow> rw_set \<Rightarrow> bool" where
  "rw_conflict l r \<longleftrightarrow> \<not> rw_complete l \<or> \<not> rw_complete r
     \<or> (\<exists>w \<in> set (rw_writes l). \<exists>p \<in> set (rw_reads r) \<union> set (rw_writes r). access_paths_conflict w p)
     \<or> (\<exists>w \<in> set (rw_writes r). \<exists>p \<in> set (rw_reads l) \<union> set (rw_writes l). access_paths_conflict w p)"

lemma push_unique_nonempty [simp]: "push_unique paths p \<noteq> []"
  by (auto simp: push_unique_def)

lemma collect_inner_empty:
  "foldl (\<lambda>paths p. if access_paths_conflict w p then push_unique paths w else paths) acc ps = []
   \<longleftrightarrow> acc = [] \<and> (\<forall>p \<in> set ps. \<not> access_paths_conflict w p)"
  by (induction ps arbitrary: acc) auto

lemma collect_shared_empty:
  "collect_shared ws other acc = [] \<longleftrightarrow>
     acc = [] \<and> (\<forall>w \<in> set ws. \<forall>p \<in> set (rw_reads other) \<union> set (rw_writes other). \<not> access_paths_conflict w p)"
  unfolding collect_shared_def by (induction ws arbitrary: acc) (auto simp: collect_inner_empty)

lemma detect_conflict_Some:
  "(\<exists>c. detect_conflict i j l r = Some c) \<longleftrightarrow> rw_conflict l r"
  by (auto simp: detect_conflict_def rw_conflict_def Let_def collect_shared_empty)

lemma detect_conflict_ends: "detect_conflict i j l r = Some c \<Longrightarrow> cf_left c = i \<and> cf_right c = j"
  by (auto simp: detect_conflict_def Let_def split: if_splits)

lemma has_conflict_sym: "has_conflict g i j = has_conflict g j i"
  by (auto simp: has_conflict_def list_ex_iff)

lemma graph_build_edges:
  "c \<in> set (cg_conflicts (graph_build rwsets)) \<longleftrightarrow>
     (\<exists>i j. i < j \<and> j < length rwsets \<and> detect_conflict i j (rwsets ! i) (rwsets ! j) = Some c)"
proof -
  have "set (List.map_filter f xs) = {c. \<exists>x \<in> set xs. f x = Some c}" for f :: "usize \<Rightarrow> tx_conflict option" and xs
    by (force simp: List.map_filter_def)
  then have "c \<in> set (cg_conflicts (graph_build rwsets)) \<longleftrightarrow> (\<exists>i \<in> {0..<length rwsets}. \<exists>j \<in> {i + 1..<length rwsets}.
      detect_conflict i j (rwsets ! i) (rwsets ! j) = Some c)"
    by (simp add: graph_build_def)
  then show ?thesis by (simp add: Bex_def Suc_le_eq) (meson less_trans)
qed

lemma graph_build_conflict:
  assumes "i < j" and "j < length rwsets"
  shows "has_conflict (graph_build rwsets) i j \<longleftrightarrow> rw_conflict (rwsets ! i) (rwsets ! j)"
proof
  assume "has_conflict (graph_build rwsets) i j"
  then obtain c where c: "c \<in> set (cg_conflicts (graph_build rwsets))"
    and e: "(cf_left c = i \<and> cf_right c = j) \<or> (cf_left c = j \<and> cf_right c = i)"
    by (auto simp: has_conflict_def list_ex_iff)
  from c obtain i' j' where d: "i' < j'" "detect_conflict i' j' (rwsets ! i') (rwsets ! j') = Some c"
    unfolding graph_build_edges by blast
  then have "i' = i" "j' = j" using e assms detect_conflict_ends [OF d(2)] by auto
  then show "rw_conflict (rwsets ! i) (rwsets ! j)" using d(2) detect_conflict_Some by blast
next
  assume "rw_conflict (rwsets ! i) (rwsets ! j)"
  then obtain c where c: "detect_conflict i j (rwsets ! i) (rwsets ! j) = Some c" using detect_conflict_Some by blast
  then have "c \<in> set (cg_conflicts (graph_build rwsets))" using assms unfolding graph_build_edges by blast
  then show "has_conflict (graph_build rwsets) i j"
    using detect_conflict_ends [OF c] by (auto simp: has_conflict_def list_ex_iff)
qed

section \<open>Waves\<close>

lemma conflicts_by_tx_nth:
  "length (conflicts_by_tx g) = length (cg_rwsets g)"
  "i < length (cg_rwsets g) \<Longrightarrow> conflicts_by_tx g ! i = {j. j < length (cg_rwsets g) \<and> has_conflict g i j}"
proof -
  let ?n = "length (cg_rwsets g)"
  let ?step = "\<lambda>sets conflict.
       if cf_left conflict < length sets \<and> cf_right conflict < length sets
       then let sets = sets[cf_left conflict := insert (cf_right conflict) (sets ! cf_left conflict)]
            in sets[cf_right conflict := insert (cf_left conflict) (sets ! cf_right conflict)]
       else sets"
  have "length (foldl ?step (replicate ?n {}) es) = ?n \<and> (\<forall>i < ?n. foldl ?step (replicate ?n {}) es ! i =
      {j. j < ?n \<and> (\<exists>c \<in> set es. (cf_left c = i \<and> cf_right c = j) \<or> (cf_left c = j \<and> cf_right c = i))})" for es
  proof (induction es rule: rev_induct)
    case (snoc e es)
    then show ?case by (auto simp: Let_def nth_list_update)
  qed simp
  then show "length (conflicts_by_tx g) = ?n"
    "i < ?n \<Longrightarrow> conflicts_by_tx g ! i = {j. j < ?n \<and> has_conflict g i j}"
    by (auto simp: conflicts_by_tx_def has_conflict_def list_ex_iff)
qed

definition wave_free :: "conflict_graph \<Rightarrow> execution_wave \<Rightarrow> bool" where
  "wave_free g w \<longleftrightarrow> tx_indices w \<noteq> [] \<and> sorted_wrt (\<lambda>i j. \<not> has_conflict g i j) (tx_indices w)"

definition wave_cut :: "conflict_graph \<Rightarrow> execution_wave \<Rightarrow> execution_wave \<Rightarrow> bool" where
  "wave_cut g v w \<longleftrightarrow> (\<exists>i \<in> set (tx_indices v). has_conflict g i (hd (tx_indices w)))"

definition scheduled :: "conflict_graph \<Rightarrow> nat \<Rightarrow> execution_wave list \<times> bool list \<Rightarrow> bool" where
  "scheduled g k st \<longleftrightarrow> (case st of (ws, marks) \<Rightarrow>
     length marks = length (cg_rwsets g) \<and> concat (map tx_indices ws) = [0..<k]
     \<and> (\<forall>i < length marks. marks ! i \<longleftrightarrow> ws \<noteq> [] \<and> i \<in> set (tx_indices (last ws)))
     \<and> list_all (wave_free g) ws \<and> successively (wave_cut g) ws)"

lemma can_join_iff:
  assumes "scheduled g k (ws, marks)" and "k < length (cg_rwsets g)"
  shows "can_join_last_wave ws marks (conflicts_by_tx g ! k) \<longleftrightarrow>
    ws \<noteq> [] \<and> (\<forall>i \<in> set (tx_indices (last ws)). \<not> has_conflict g k i)"
proof (cases "ws = []")
  case False
  then obtain vs w where ws: "ws = vs @ [w]" by (cases ws rule: rev_cases) auto
  have "set (concat (map tx_indices ws)) = {..<k}" using assms(1) by (simp add: scheduled_def atLeast0LessThan del: set_concat)
  then have "i < k" if "i \<in> set (tx_indices w)" for i using that by (auto simp: ws)
  then have "i < length (cg_rwsets g)" if "i \<in> set (tx_indices w)" for i using assms(2) that by force
  then show ?thesis
    using assms unfolding can_join_last_wave_def scheduled_def Let_def ws conflicts_by_tx_nth(2) [OF assms(2)] list_all_iff
    by auto
qed (simp add: can_join_last_wave_def)

lemma length_unmark [simp]: "length (foldl (\<lambda>marks i. marks[i := False]) marks is) = length marks"
  by (induction "is" arbitrary: marks) simp_all

lemma unmark_nth:
  "i < length marks \<Longrightarrow> foldl (\<lambda>marks i. marks[i := False]) marks is ! i \<longleftrightarrow> marks ! i \<and> i \<notin> set is"
proof (induction "is" arbitrary: marks)
  case (Cons a "is")
  then show ?case by (cases "i = a") simp_all
qed simp

lemma schedule_tx_step:
  assumes st: "scheduled g k (ws, marks)" and k: "k < length (cg_rwsets g)"
  shows "scheduled g (Suc k) (schedule_tx (ws, marks) (k, conflicts_by_tx g ! k))"
proof (cases "can_join_last_wave ws marks (conflicts_by_tx g ! k)")
  case True
  then have "ws \<noteq> []" and free: "\<forall>i \<in> set (tx_indices (last ws)). \<not> has_conflict g k i"
    using can_join_iff [OF st k] by simp_all
  then obtain vs w where ws: "ws = vs @ [w]" by (cases ws rule: rev_cases) auto
  have hd: "tx_indices w \<noteq> []" using st by (simp add: scheduled_def ws wave_free_def)
  have "successively (wave_cut g) (vs @ [\<lparr>tx_indices = tx_indices w @ [k], parallelizable = True\<rparr>])"
    using st hd by (auto simp: scheduled_def ws successively_append_iff wave_cut_def)
  moreover have "wave_free g \<lparr>tx_indices = tx_indices w @ [k], parallelizable = True\<rparr>"
    using st free by (auto simp: scheduled_def ws wave_free_def sorted_wrt_append has_conflict_sym [of g _ k])
  moreover have "(marks[k := True]) ! i \<longleftrightarrow> i \<in> set (tx_indices w @ [k])" if "i < length marks" for i
    using st that by (cases "i = k") (simp_all add: scheduled_def ws)
  ultimately show ?thesis using True st unfolding schedule_tx_def scheduled_def by (simp add: ws)
next
  case False
  then have cut: "ws \<noteq> [] \<Longrightarrow> \<exists>i \<in> set (tx_indices (last ws)). has_conflict g i k"
    using can_join_iff [OF st k] has_conflict_sym by blast
  have "successively (wave_cut g) (ws @ [\<lparr>tx_indices = [k], parallelizable = False\<rparr>])"
    using st cut by (auto simp: scheduled_def successively_append_iff wave_cut_def)
  moreover define marks' where "marks' = (if ws = [] then marks
      else foldl (\<lambda>marks i. marks[i := False]) marks (tx_indices (last ws)))"
  then have len: "length marks' = length marks" by simp
  moreover have "(marks'[k := True]) ! i \<longleftrightarrow> i = k" if "i < length marks" for i
    using st that len by (cases "i = k"; simp add: scheduled_def unmark_nth marks'_def)
  moreover have "wave_free g \<lparr>tx_indices = [k], parallelizable = False\<rparr>" by (simp add: wave_free_def)
  ultimately show ?thesis using False st unfolding schedule_tx_def scheduled_def by (simp add: Let_def flip: marks'_def)
qed

lemma schedule_all:
  "k \<le> length (cg_rwsets g) \<Longrightarrow>
   scheduled g k (foldl schedule_tx ([], replicate (length (cg_rwsets g)) False) (zip [0..<k] (conflicts_by_tx g)))"
proof (induction k)
  case (Suc k)
  then have "zip [0..<Suc k] (conflicts_by_tx g) = zip [0..<k] (conflicts_by_tx g) @ [(k, conflicts_by_tx g ! k)]"
    using conflicts_by_tx_nth(1) [of g] by (intro nth_equalityI) (auto simp: nth_append less_Suc_eq)
  with Suc show ?case
    using schedule_tx_step [of g k] by (cases "foldl schedule_tx ([], replicate (length (cg_rwsets g)) False)
      (zip [0..<k] (conflicts_by_tx g))") auto
qed (simp add: scheduled_def)

lemma plan_waves:
  "concat (map tx_indices (waves (plan_from_graph config g))) = [0..<length (cg_rwsets g)]
   \<and> list_all (\<lambda>w. parallelizable w \<longrightarrow> wave_free g w) (waves (plan_from_graph config g))
   \<and> (\<not> fallback_serial (plan_from_graph config g) \<longrightarrow>
        list_all (wave_free g) (waves (plan_from_graph config g))
        \<and> successively (wave_cut g) (waves (plan_from_graph config g)))"
proof -
  let ?n = "length (cg_rwsets g)"
  have free: "sorted_wrt (\<lambda>i j. \<not> has_conflict g i j) xs" if "cg_conflicts g = []" for xs
    using that by (intro sorted_wrt_iff_nth_less [THEN iffD2]) (simp add: has_conflict_def)
  have "scheduled g ?n (foldl schedule_tx ([], replicate ?n False) (zip [0..<?n] (conflicts_by_tx g)))"
    by (rule schedule_all) simp
  then show ?thesis
    using free by (auto simp: plan_from_graph_def Let_def serial_plan_def scheduled_def wave_free_def list_all_iff split: prod.splits)
qed

text \<open>
  The plan of a graph: the waves, one after the other, are the transactions in block order; no two
  transactions of a wave that runs in parallel conflict; and unless the plan is the serial fallback,
  each wave ends because the next transaction conflicts with one of its transactions.
\<close>

theorem plan_cuts_block_at_conflicts:
  "concat (map tx_indices (waves (plan_from_graph config g))) = [0..<length (cg_rwsets g)]
   \<and> list_all (\<lambda>w. parallelizable w \<longrightarrow> wave_free g w) (waves (plan_from_graph config g))
   \<and> (\<not> fallback_serial (plan_from_graph config g) \<longrightarrow>
        list_all (wave_free g) (waves (plan_from_graph config g))
        \<and> successively (wave_cut g) (waves (plan_from_graph config g)))"
  by (rule plan_waves)


section \<open>Serialisability\<close>

text \<open>
  A state maps locations to values, and \<open>covers\<close> says which locations a path stands for. A transaction
  keeps to a set when it changes only locations of its writes, and what it writes there depends only
  on locations of its reads and writes.
\<close>

definition footprint :: "(access_path \<Rightarrow> 'l set) \<Rightarrow> access_path list \<Rightarrow> 'l set" where
  "footprint covers paths = (\<Union>p \<in> set paths. covers p)"

definition keeps_to :: "(access_path \<Rightarrow> 'l set) \<Rightarrow> rw_set \<Rightarrow> (('l \<Rightarrow> 'v) \<Rightarrow> 'l \<Rightarrow> 'v) \<Rightarrow> bool" where
  "keeps_to covers rw run \<longleftrightarrow>
     (\<forall>s l. l \<notin> footprint covers (rw_writes rw) \<longrightarrow> run s l = s l)
     \<and> (\<forall>s t. (\<forall>l \<in> footprint covers (rw_reads rw) \<union> footprint covers (rw_writes rw). s l = t l) \<longrightarrow>
          (\<forall>l \<in> footprint covers (rw_writes rw). run s l = run t l))"

definition paths_separate :: "(access_path \<Rightarrow> 'l set) \<Rightarrow> bool" where
  "paths_separate covers \<longleftrightarrow> (\<forall>p q. \<not> access_paths_conflict p q \<longrightarrow> covers p \<inter> covers q = {})"

lemma rw_conflict_free_footprints:
  assumes "paths_separate covers" and "\<not> rw_conflict l r"
  shows "footprint covers (rw_writes l) \<inter> (footprint covers (rw_reads r) \<union> footprint covers (rw_writes r)) = {}"
    and "footprint covers (rw_writes r) \<inter> (footprint covers (rw_reads l) \<union> footprint covers (rw_writes l)) = {}"
  using assms by (auto simp: paths_separate_def rw_conflict_def footprint_def disjoint_iff) blast+

lemma run_stays:
  assumes f: "keeps_to covers a f" and g: "keeps_to covers b g"
    and "footprint covers (rw_writes b) \<inter> (footprint covers (rw_reads a) \<union> footprint covers (rw_writes a)) = {}"
    and l: "l \<in> footprint covers (rw_writes a)"
  shows "f (g s) l = f s l" and "g (f s) l = f s l"
proof -
  have "\<forall>k \<in> footprint covers (rw_reads a) \<union> footprint covers (rw_writes a). g s k = s k"
    using g assms(3) unfolding keeps_to_def by blast
  then show "f (g s) l = f s l" using f l unfolding keeps_to_def by blast
  show "g (f s) l = f s l" using g l assms(3) unfolding keeps_to_def by blast
qed

lemma runs_commute:
  assumes f: "keeps_to covers a f" and g: "keeps_to covers b g" and "paths_separate covers" and "\<not> rw_conflict a b"
  shows "f \<circ> g = g \<circ> f"
proof (intro ext)
  fix s l
  note apart = rw_conflict_free_footprints [OF assms(3,4)]
  consider "l \<in> footprint covers (rw_writes a)" | "l \<in> footprint covers (rw_writes b)"
    | "l \<notin> footprint covers (rw_writes a)" "l \<notin> footprint covers (rw_writes b)" by blast
  then show "(f \<circ> g) s l = (g \<circ> f) s l"
  proof cases
    case 1
    then show ?thesis using run_stays [OF f g apart(2)] by simp
  next
    case 2
    then show ?thesis using run_stays [OF g f apart(1)] by simp
  next
    case 3
    then show ?thesis using f g unfolding keeps_to_def by simp
  qed
qed

lemma rw_conflict_sym: "rw_conflict l r = rw_conflict r l"
  by (auto simp: rw_conflict_def)

lemma wave_free_pairs:
  assumes "wave_free (graph_build rwsets) w" and "set (tx_indices w) \<subseteq> {..<length rwsets}"
    and "i \<in> set (tx_indices w)" and "j \<in> set (tx_indices w)" and "i \<noteq> j"
  shows "\<not> rw_conflict (rwsets ! i) (rwsets ! j)"
proof -
  obtain a b where a: "a < length (tx_indices w)" "tx_indices w ! a = i" and b: "b < length (tx_indices w)" "tx_indices w ! b = j"
    using assms(3,4) by (auto simp: in_set_conv_nth)
  then have "a < b \<or> b < a" using assms(5) by (metis nat_neq_iff)
  then have "\<not> has_conflict (graph_build rwsets) i j"
    using assms(1) a b has_conflict_sym [of _ i j] by (auto simp: wave_free_def sorted_wrt_iff_nth_less)
  moreover have "i < length rwsets" "j < length rwsets" using assms(2-4) by auto
  ultimately show ?thesis
    using graph_build_conflict [of i j rwsets] graph_build_conflict [of j i rwsets] assms(5)
      has_conflict_sym [of "graph_build rwsets" i j] rw_conflict_sym by (metis nat_neq_iff)
qed

lemma wave_order_irrelevant:
  assumes "wave_free (graph_build rwsets) w" and "set (tx_indices w) \<subseteq> {..<length rwsets}" and "paths_separate covers"
    and run: "\<And>i. i < length rwsets \<Longrightarrow> rw_complete (rwsets ! i) \<Longrightarrow> keeps_to covers (rwsets ! i) (run i)"
    and perm: "mset order = mset (tx_indices w)"
  shows "fold run order = fold run (tx_indices w)"
proof (rule fold_multiset_equiv [OF _ perm])
  fix i j
  assume "i \<in> set order" and "j \<in> set order"
  then have ij: "i \<in> set (tx_indices w)" "j \<in> set (tx_indices w)" using perm by (metis set_mset_mset)+
  show "run i \<circ> run j = run j \<circ> run i"
  proof (cases "i = j")
    case False
    then have free: "\<not> rw_conflict (rwsets ! i) (rwsets ! j)" using wave_free_pairs [OF assms(1,2) ij] by blast
    then have "rw_complete (rwsets ! i)" "rw_complete (rwsets ! j)" by (simp_all add: rw_conflict_def)
    moreover have "i < length rwsets" "j < length rwsets" using ij assms(2) by auto
    ultimately show ?thesis using runs_commute [OF run run assms(3) free] by blast
  qed simp
qed

text \<open>An order of execution: serial waves run as listed, a parallel wave in any order.\<close>

definition wave_orders :: "execution_wave list \<Rightarrow> usize list list \<Rightarrow> bool" where
  "wave_orders ws orders \<longleftrightarrow>
     list_all2 (\<lambda>w order. if parallelizable w then mset order = mset (tx_indices w) else order = tx_indices w) ws orders"

lemma orders_fold:
  assumes "wave_orders ws orders" and "\<And>w order. w \<in> set ws \<Longrightarrow> parallelizable w \<Longrightarrow> mset order = mset (tx_indices w) \<Longrightarrow>
      fold run order = fold run (tx_indices w)"
  shows "fold run (concat orders) = fold run (concat (map tx_indices ws))"
  using assms unfolding wave_orders_def
proof (induction ws orders rule: list_all2_induct)
  case (Cons w ws order orders)
  then have "fold run order = fold run (tx_indices w)" by (auto split: if_splits)
  moreover have "fold run (concat orders) = fold run (concat (map tx_indices ws))" using Cons by (simp del: fold_append)
  ultimately show ?case by simp
qed simp

text \<open>
  C25: every execution of a plan is serialisable in block order. Let paths that do not conflict cover
  disjoint locations, and let every transaction with a complete set keep to it. Then running the
  waves of the plan, each parallel wave in any order, ends in the state of running the block
  serially, whatever the configuration and the extractor; nothing is asked of transactions with an
  incomplete set.
\<close>

theorem plan_is_serialisable:
  assumes "paths_separate covers"
    and "\<And>i. i < length txs \<Longrightarrow> rw_complete (extract (txs ! i)) \<Longrightarrow> keeps_to covers (extract (txs ! i)) (run i)"
    and "wave_orders (waves (snd (scheduler_plan config extract txs))) orders"
  shows "fold run (concat orders) s = fold run [0..<length txs] s"
proof -
  let ?g = "graph_build (map extract txs)"
  let ?ws = "waves (plan_from_graph config ?g)"
  have n: "length (cg_rwsets ?g) = length txs" by (simp add: graph_build_def)
  note plan = plan_waves [of config ?g, unfolded n]
  have "fold run order = fold run (tx_indices w)"
    if "w \<in> set ?ws" "parallelizable w" "mset order = mset (tx_indices w)" for w order
  proof (rule wave_order_irrelevant [OF _ _ assms(1) _ that(3), of "map extract txs"])
    show "wave_free ?g w" using plan that by (simp add: list_all_iff)
    have "set (concat (map tx_indices ?ws)) = {..<length txs}" using plan by (simp add: atLeast0LessThan del: set_concat)
    then show "set (tx_indices w) \<subseteq> {..<length (map extract txs)}" using that(1) by auto
  qed (use assms(2) in simp)
  moreover have "wave_orders ?ws orders" using assms(3) by (simp add: scheduler_plan_def Let_def)
  ultimately have "fold run (concat orders) = fold run (concat (map tx_indices ?ws))" by (intro orders_fold)
  then show ?thesis using plan by simp
qed

section \<open>Results\<close>

lemma push_results_append:
  "push_results (xs @ ys) outputs = bind_ok (push_results xs outputs) (push_results ys)"
  by (induction xs arbitrary: outputs) (auto simp: bind_ok_def split: sum.split)

lemma run_serially_eq:
  "run_serially execute_tx txs indices outputs = push_results (map (\<lambda>i. execute_tx (txs ! i)) indices) outputs"
  by (induction indices arbitrary: outputs) simp_all

lemma execute_waves_eq:
  "execute_waves execute_tx txs ws outputs
   = push_results (map (\<lambda>i. execute_tx (txs ! i)) (concat (map tx_indices ws))) outputs"
  by (induction ws arbitrary: outputs) (simp_all add: push_results_append run_serially_eq bind_ok_def split: sum.split)

text \<open>
  Executing a plan collects exactly what a serial run of the block collects: the results in block
  order, or the first error in block order, for every configuration, extractor and executor.
\<close>

theorem execute_plan_as_serial:
  "execute_waves execute_tx txs (waves (snd (scheduler_plan config extract txs))) []
   = run_serially execute_tx txs [0..<length txs] []"
proof -
  have "length (cg_rwsets (graph_build (map extract txs))) = length txs" by (simp add: graph_build_def)
  then show ?thesis
    using plan_waves [of config "graph_build (map extract txs)"]
    by (simp add: execute_waves_eq run_serially_eq scheduler_plan_def Let_def)
qed

section \<open>Two transfers\<close>

datatype location = AtBalance address | AtNonce address | AtErc20 address address | AtStorage address
  | AtValidators | AtKey address | AtCode address

fun demo_covers :: "access_path \<Rightarrow> location set" where
  "demo_covers GlobalState = UNIV"
| "demo_covers (NativeBalance a) = {AtBalance a}"
| "demo_covers (NativeNonce a) = {AtNonce a}"
| "demo_covers (ContractStorageAny a) = insert (AtStorage a) (range (AtErc20 a))"
| "demo_covers (Erc20Balance token owner) = {AtErc20 token owner}"
| "demo_covers ValidatorSet = {AtValidators}"
| "demo_covers (PqPublicKey a) = {AtKey a}"
| "demo_covers (ValidationCode a) = {AtCode a}"

definition demo_extract :: "address \<Rightarrow> rw_set" where
  "demo_extract a = \<lparr>rw_reads = [NativeBalance a], rw_writes = [NativeBalance a], rw_complete = True\<rparr>"

definition demo_config :: parallel_config where
  "demo_config = \<lparr>pc_enabled = True, pc_max_workers = 4, pc_fallback_on_incomplete = True\<rparr>"

definition demo_run :: "nat \<Rightarrow> (location \<Rightarrow> nat) \<Rightarrow> location \<Rightarrow> nat" where
  "demo_run i s = s(AtBalance (Address (word_of_nat i)) := s (AtBalance (Address (word_of_nat i))) + 1)"

lemma demo_separate: "paths_separate demo_covers"
  unfolding paths_separate_def
proof (intro allI impI)
  fix p q
  show "demo_covers p \<inter> demo_covers q = {}" if "\<not> access_paths_conflict p q"
    using that by (cases p; cases q) (auto simp: access_paths_conflict_def)
qed

theorem plan_is_serialisable_witness:
  "waves (snd (scheduler_plan demo_config demo_extract [Address 0, Address 1]))
     = [\<lparr>tx_indices = [0, 1], parallelizable = True\<rparr>]
   \<and> fold demo_run [1, 0] (\<lambda>_. 0) = fold demo_run [0, 1] (\<lambda>_. 0)"
proof -
  let ?txs = "[Address 0, Address 1]"
  have plan: "waves (snd (scheduler_plan demo_config demo_extract ?txs)) = [\<lparr>tx_indices = [0, 1], parallelizable = True\<rparr>]"
    by code_simp
  have "fold demo_run (concat [[1, 0]]) (\<lambda>_. 0) = fold demo_run [0..<length ?txs] (\<lambda>_. 0)"
  proof (rule plan_is_serialisable [OF demo_separate])
    show "keeps_to demo_covers (demo_extract (?txs ! i)) (demo_run i)" if "i < length ?txs" for i
      using that by (auto simp: less_Suc_eq keeps_to_def footprint_def demo_extract_def demo_run_def)
    show "wave_orders (waves (snd (scheduler_plan demo_config demo_extract ?txs))) [[1, 0]]"
      by (simp add: plan wave_orders_def)
  qed
  then show ?thesis using plan by (simp add: upt_rec)
qed

theorem plan_cuts_block_at_conflicts_witness:
  "let g = graph_build (map demo_extract [Address 0, Address 1, Address 0]) in
   waves (plan_from_graph demo_config g)
     = [\<lparr>tx_indices = [0, 1], parallelizable = True\<rparr>, \<lparr>tx_indices = [2], parallelizable = False\<rparr>]
   \<and> wave_free g \<lparr>tx_indices = [0, 1], parallelizable = True\<rparr>
   \<and> (\<exists>i \<in> {0, 1}. has_conflict g i 2)"
proof -
  let ?g = "graph_build (map demo_extract [Address 0, Address 1, Address 0])"
  have plan: "waves (plan_from_graph demo_config ?g)
     = [\<lparr>tx_indices = [0, 1], parallelizable = True\<rparr>, \<lparr>tx_indices = [2], parallelizable = False\<rparr>]" by code_simp
  have "\<not> fallback_serial (plan_from_graph demo_config ?g)" by code_simp
  then show ?thesis
    using plan_cuts_block_at_conflicts [of demo_config ?g] unfolding Let_def plan by (auto simp: wave_cut_def)
qed

end
