(* ===== verification/Spec2Isabelle.thy ===== *)
theory Spec2Isabelle
  imports Validator Finality Fork_Choice WPoA WPoa_Round Slashing Proof_Window Prover_Registry
    Rate_Limiter Peer_Scoring Fee
    Tx_Pool_Selection Overlay_Store Parallel_Plan
begin

text \<open>
  A verification of the deciding parts of the shell-chain node (\<open>src/crates\<close>): which blocks are
  proposed, accepted and final, which validators may act, which transactions are authorised, paid
  for, pooled and selected, and how staged state reaches the store.

  \<^bold>\<open>The program.\<close> Transactions arrive over RPC or gossip and enter the mempool, which validates them
  against the world state. A proposer, chosen by the consensus engine for a height and a view, selects
  transactions for a block and seals it. Other nodes check the header, re-validate and execute the
  transactions on an overlay of the store, and attest. Weighted attestations make blocks final, fork
  choice follows the best chain above the finalized root, and view changes replace a silent proposer.
  Proof windows, the prover registry, the rate limiter and peer scores regulate the proofs that
  provers attach later.

  \<^bold>\<open>Conventions.\<close> A Rust integer \<open>uN\<close> is an \<open>N word\<close>, \<open>usize\<close> a natural number (its bound appears where
  the code saturates or checks), \<open>i64\<close> an integer with its wrap-around written out. A struct is a record,
  an enum a datatype, \<open>HashMap\<close> and \<open>BTreeMap\<close> the types \<open>hashmap\<close> and \<open>btreemap\<close>, an error the left
  side of a sum. A method that changes \<open>self\<close> takes and returns the record. Loops are recursive; one
  whose end is not evident is a \<open>partial_function\<close>, so that not returning is the value \<open>None\<close>.
  Clocks, hash functions, the post-quantum primitives, the RLP crate, the serialized size of a
  transaction and calls into the EVM are parameters. Numeric constants, hash domains and small
  sub-expressions are abbreviations. A claim about the code stands after its number \<open>C\<close>.

  \<^bold>\<open>Shared theories.\<close>
  \<^item> \<open>Shell_Prelude\<close>, \<open>Btree_Map\<close>: words, maps, results, and the locales \<open>invariant_machine\<close> and
    \<open>progress_machine\<close>, which carry an invariant or a progress order along any sequence of operations.
  \<^item> \<open>Primitives\<close> (\<open>primitives/hash.rs\<close>, \<open>address.rs\<close>), \<open>Block_Header\<close> (\<open>core/block.rs\<close>), \<open>Rlp\<close> (the codecs
    over \<open>alloy_rlp\<close>, with the laws of that crate as a hypothesis and a reference codec that has them),
    \<open>Consensus_Base\<close> (\<open>error.rs\<close>, \<open>engine.rs\<close>; the locale \<open>penalised_engine\<close> of the two engines) and
    \<open>Quorum\<close> (the locale \<open>quorum_rule\<close>: two quorums of more than two thirds overlap in more than a third).

  \<^bold>\<open>Consensus.\<close>
  \<^item> \<open>Validator\<close> (\<open>validator.rs\<close>): the lifecycle as steps, its invariant, and the fairness of the weighted
    proposer in every window of total weight.
  \<^item> \<open>Finality\<close> (\<open>finality.rs\<close>): attestations, quorum, finalization, batch verification. Conflicting
    finality needs more than a third of equivocating weight; finality never reverts.
  \<^item> \<open>Fork_Choice\<close> (\<open>fork_choice.rs\<close>): the tree of blocks and all its operations. The head has the best
    score as long as no operation lowers the head's own (the code does not look for a better block
    then); it descends from the finalized root as long as that block is not added again and tracked
    blocks keep their parent; it does not depend on the order of arrival, after finalization of new
    blocks with parents first. The walks to ancestors end on trees whose parents rank below their
    children.
  \<^item> \<open>PoA\<close>, \<open>WPoA\<close>, \<open>View_Change\<close>, \<open>WPoa_Round\<close> (\<open>poa.rs\<close>, \<open>wpoa.rs\<close>, \<open>view_change.rs\<close>, \<open>wpoa_state.rs\<close>): the
    proposer lottery is proportional to weight, every authority gets a view, live headers can be imported,
    views and commits need quorums.
  \<^item> \<open>Slashing\<close> (\<open>slashing.rs\<close>): evidence is exact and cannot frame an honest validator.
  \<^item> \<open>Proof_Window\<close>, \<open>Prover_Registry\<close>, \<open>Rate_Limiter\<close>, \<open>Peer_Scoring\<close>: exclusive claims, decay charged
    once, tokens bounded by the elapsed time and the garbage collections, capped scores.
  \<^item> \<open>Crypto\<close> (\<open>crypto/\<close>): verifier dispatch and the governed algorithm registry.

  \<^bold>\<open>Transactions.\<close>
  \<^item> \<open>Fee\<close> (\<open>core/fee.rs\<close>): the integer exponential is the rounded Taylor sum or saturates, within 400 rounds.
  \<^item> \<open>Transaction\<close> (\<open>core/transaction.rs\<close>): structure, codecs and signing hashes; round trips within
    the limits of the decoders, what a signing hash binds and what it does not.
  \<^item> \<open>Tx_Validation\<close> (\<open>pqvm/tx_validation.rs\<close>, \<open>aa_validation.rs\<close>, \<open>key_binding.rs\<close>): both validation
    pipelines; what is accepted is authorised and funded.
  \<^item> \<open>Tx_Pool\<close>, \<open>Tx_Pool_Invariant\<close>, \<open>Tx_Pool_Admission\<close>, \<open>Tx_Pool_Selection\<close> (\<open>mempool/\<close>): the operations;
    the invariant that ties the indexes, byte count and reservations to the entries; admission, which
    always returns (each round of the eviction loop plans one more eviction), never overcommits an
    account and evicts only what is outbid, sparing what the sender needs; and the selection for a block, a best-first merge of the
    senders' runs. The theory below joins the pool with validation.
  \<^item> \<open>Parallel_Plan\<close> (\<open>pqvm/parallel.rs\<close>): conflict graph and waves; every execution of a plan is
    serialisable in block order.

  \<^bold>\<open>Storage.\<close>
  \<^item> \<open>Kv_Store\<close> (\<open>storage/kv_store.rs\<close>, \<open>memory_db.rs\<close>): the trait as a record of operations and as the
    locales \<open>lawful_store\<close> and \<open>reliable_store\<close>, with the in-memory store as an instance; range scans agree
    with the defaults of the trait.
  \<^item> \<open>Overlay_Store\<close> (\<open>overlay_store.rs\<close>): over a lawful base the overlay is lawful again and refines the
    base map with the staged batches applied; journals undo, the byte limit is exact, a persisted replay
    reads back, and clearing one ends because each round removes a key of the lawful base.

  \<^bold>\<open>Not modelled.\<close> The EVM executor, the system contracts, precompiles and tracers run inside the third-party
  \<open>revm\<close>, whose behaviour is not in the sources; validation takes its verdicts as parameters. The world
  state is an \<open>eth_trie\<close>, and the chain store keeps RLP and JSON texts; the reads that validation and the
  pool make of them are the record \<open>chain_view\<close>. RocksDB, snapshots, pruners, the network, the RPC server,
  the node's tasks, genesis files, the keystore and the command line are input and output over third-party
  crates. The STARK circuits belong to \<open>winterfell\<close>. The read and write sets of a transaction are a
  parameter of the scheduler, since whether they cover what the transaction touches is a statement about
  the EVM. Locks are left out: an operation is what one thread does while it holds them.
\<close>

section \<open>Admission to the pool and validation for a block\<close>

lemma validate_stateless_common:
  assumes "validate_stateless cfg ce evm sel rd s = Inr (n, base_fee, root)" and "tx_nonce (st_tx s) \<noteq> u_max"
  shows "\<exists>outcome. validate_common ce evm sel (rd_view rd) s (mc_chain_id cfg) None = Inr outcome"
proof -
  obtain extra outcome where "validate_aa_bundle_structure s = Inr extra" "pool_intrinsic_gas s extra = Inr ()"
    and aa: "validate_aa_tx_inner ce evm sel (rd_view rd) s None = Inr outcome"
    and tx: "tx_chain_id (st_tx s) = mc_chain_id cfg" "validate_transaction_type (tx_type (st_tx s)) = Inr ()"
      "\<not> tx_max_fee_per_gas (st_tx s) < tx_max_priority_fee_per_gas (st_tx s)"
      "validate_access_list (st_tx s) = Inr ()" "validate_blob_tx (st_tx s) = Inr ()"
    using assms(1) by (auto simp: validate_stateless_def Let_def bind_simps split: if_splits)
  moreover from this(2) obtain g where "total_intrinsic_gas s extra = Inr g" "\<not> tx_gas_limit (st_tx s) < g"
    by (auto simp: pool_intrinsic_gas_def total_intrinsic_gas_def Let_def split: option.splits if_splits)
  moreover have "ensure_nonce_can_advance (tx_nonce (st_tx s)) = Inr ()"
    using assms(2) unat_u64_le [of "tx_nonce (st_tx s)"]
    by (auto simp: ensure_nonce_can_advance_def checked_add_None_iff word_unat_eq_iff unat_u_max split: option.split)
  ultimately show ?thesis
    by (simp add: validate_common_def Let_def bind_map_def bind_ok_def validate_fee_caps_def)
qed

lemma balance_floor_gas_cost: "max_transaction_gas_cost (st_tx s) = Some (pool_max_gas_cost s)"
  using unat_max_transaction_gas_cost [of "st_tx s"] unat_pool_max_gas_cost [of s] by (metis word_unat_eq_iff)

lemma balance_floor_covers:
  assumes "check_balance_floor v s = Inr ()" and "paymaster_of s \<noteq> Some (st_from s)"
  shows "(case paymaster_of s of
            Some paymaster \<Rightarrow> check_paymaster_balance v s paymaster
          | None \<Rightarrow> check_sender_balance v s) = Inr ()"
  using assms
  by (auto simp: check_balance_floor_def gas_payer_def check_paymaster_balance_def check_sender_balance_def
      balance_floor_gas_cost bind_map_def Let_def split: option.splits sum.splits if_splits)

lemma bundle_paymaster_differs:
  "validate_aa_bundle_structure s = Inr extra \<Longrightarrow> paymaster_of s \<noteq> Some (st_from s)"
  by (auto simp: validate_aa_bundle_structure_def Let_def bind_simps split: option.splits if_splits)

text \<open>
  C14: the pool admits nothing that the validation in front of execution would refuse. The pool and the executor check a
  transaction by two separate routines; whatever the pool accepts at the next nonce of its sender
  passes the validation that guards execution, on the same state: chain id, type, fee caps, access
  list, blobs, bundle structure, intrinsic gas, authorisation, nonce and balances.
\<close>

theorem pooled_transaction_passes_validation:
  assumes ins: "pool_insert cfg ce evm sel rd s p = Some (Inr (h, p'))"
    and nonce: "get_nonce (rd_view rd) (st_from s) = Inr (tx_nonce (st_tx s))"
  shows "\<exists>pubkey to_register.
    validate_tx ce evm sel (rd_view rd) s (mc_chain_id cfg) = Inr (pubkey, to_register)"
proof -
  from ins obtain n base_fee root where valid: "validate_stateless cfg ce evm sel rd s = Inr (n, base_fee, root)"
    and floor: "check_balance_floor (rd_view rd) s = Inr ()" and advance: "tx_nonce (st_tx s) \<noteq> u_max"
    by (rule pool_insertD)
  obtain outcome where "validate_common ce evm sel (rd_view rd) s (mc_chain_id cfg) None = Inr outcome"
    using validate_stateless_common [OF valid advance] by blast
  moreover have "check_nonce (rd_view rd) s outcome None = Inr ()" by (simp add: check_nonce_def bind_map_def nonce)
  moreover obtain extra where "validate_aa_bundle_structure s = Inr extra"
    using valid by (auto simp: validate_stateless_def Let_def bind_simps split: if_splits)
  ultimately show ?thesis
    using balance_floor_covers [OF floor bundle_paymaster_differs] by (simp add: validate_tx_def bind_ok_def)
qed

theorem pooled_transaction_passes_validation_witness:
  "\<exists>pubkey to_register.
    validate_tx demo_env demo_evm demo_selectors demo_view demo_signed 1 = Inr (pubkey, to_register)"
  using pooled_transaction_passes_validation [OF demo_insert]
  by (simp add: demo_reads_def demo_account_reads demo_tx_checks small_config_def mempool_config_default_def)

end
